(* ===== verification/Prelude.thy ===== *)
theory Prelude
  imports Main "HOL-Library.Word"
begin

text \<open>
  Shared vocabulary of the development: the machine integers of the ARM64 build of the kernel
  (\<open>ARMOS_ARCH_BITS == 64\<close> in \<open>include/kernel/types.h\<close>), the error numbers, the alignment
  macros of \<open>include/kernel/util.h\<close>, and the word, list and run lemmas that the component
  theories share.
\<close>

unbundle bit_operations_syntax

subsection \<open>Machine integers\<close>

type_synonym u8 = "8 word"
type_synonym u16 = "16 word"
type_synonym u32 = "32 word"
type_synonym u64 = "64 word"
type_synonym vaddr = "64 word"
type_synonym paddr = "64 word"
type_synonym size_t = "64 word"

text \<open>
  The error numbers of \<open>include/kernel/types.h\<close> that the modelled code returns. A C function
  that returns \<open>-E\<close> is modelled as \<open>Inl E\<close>; a bare \<open>return -1\<close> is \<open>Inl EPERM\<close>,
  whose code is 1.
\<close>

datatype errno =
    EPERM | ENOENT | ESRCH | EINTR | EIO | EBADF | EAGAIN | ENOMEM | EACCES | EFAULT | EBUSY
  | EEXIST | ENODEV | EINVAL | ENFILE | ENOTTY | EFBIG | ENOSPC | ENAMETOOLONG | ENETDOWN
  | ENETUNREACH | ETIMEDOUT | ENOTSUP

fun errno_code :: "errno \<Rightarrow> int" where
  "errno_code EPERM = 1" | "errno_code ENOENT = 2" | "errno_code ESRCH = 3"
| "errno_code EINTR = 4" | "errno_code EIO = 5" | "errno_code EBADF = 9"
| "errno_code EAGAIN = 11" | "errno_code ENOMEM = 12" | "errno_code EACCES = 13"
| "errno_code EFAULT = 14" | "errno_code EBUSY = 16" | "errno_code EEXIST = 17"
| "errno_code ENODEV = 19" | "errno_code EINVAL = 22" | "errno_code ENFILE = 23"
| "errno_code ENOTTY = 25" | "errno_code EFBIG = 27" | "errno_code ENOSPC = 28"
| "errno_code ENAMETOOLONG = 36" | "errno_code ENETDOWN = 115"
| "errno_code ENETUNREACH = 114" | "errno_code ETIMEDOUT = 116" | "errno_code ENOTSUP = 134"

type_synonym 'a result = "errno + 'a"

named_theorems mem_defs \<open>operations of the memory components, for unfolding\<close>
named_theorems sig_defs \<open>operations of the signal component, for unfolding\<close>
named_theorems net_defs \<open>operations of the network components, for unfolding\<close>

subsection \<open>Alignment\<close>

definition align_up :: "'a::len word \<Rightarrow> 'a word \<Rightarrow> 'a word" where
  "align_up x a = (x + a - 1) AND NOT (a - 1)"

definition align_down :: "'a::len word \<Rightarrow> 'a word \<Rightarrow> 'a word" where
  "align_down x a = x AND NOT (a - 1)"

definition PAGE_SIZE :: u64 where
  "PAGE_SIZE = 4096"

definition is_page_aligned :: "u64 \<Rightarrow> bool" where
  "is_page_aligned a \<longleftrightarrow> a AND (PAGE_SIZE - 1) = 0"

lemma unat_pow2: "unat (2 ^ k :: 'a::len word) = 2 ^ k" if "k < LENGTH('a)"
proof -
  have "unat (of_nat (2 ^ k) :: 'a word) = 2 ^ k"
    using that by (simp only: unat_of_nat) simp
  then show ?thesis by simp
qed

lemma and_not_mask: "w AND NOT (mask k) = push_bit k (drop_bit k (w :: 'a::len word))"
  by (rule bit_eqI) (auto simp: bit_simps not_le)

lemma unat_and_not_mask:
  "unat (w AND NOT (mask k) :: 'a::len word) = unat w div 2 ^ k * 2 ^ k"
proof (cases "k < LENGTH('a)")
  case True
  have "unat (push_bit k (drop_bit k w)) = take_bit LENGTH('a) (unat w div 2 ^ k * 2 ^ k)"
    unfolding unsigned_push_bit_eq
    by (simp add: unat_drop_bit_eq flip: push_bit_eq_mult drop_bit_eq_div)
  also have "\<dots> = unat w div 2 ^ k * 2 ^ k"
  proof -
    have "unat w div 2 ^ k * 2 ^ k \<le> unat w" by simp
    also have "\<dots> < 2 ^ LENGTH('a)" by simp
    finally show ?thesis by (simp add: take_bit_nat_eq_self)
  qed
  finally show ?thesis by (simp add: and_not_mask)
next
  case False
  have "unat w < 2 ^ LENGTH('a)" by simp
  also have "\<dots> \<le> 2 ^ k" using False by simp
  finally show ?thesis using False by (simp add: and_not_mask)
qed

lemma unat_align_down:
  "unat (align_down x (2 ^ k) :: 'a::len word) = unat x div 2 ^ k * 2 ^ k"
  if "k < LENGTH('a)"
  by (simp add: align_down_def unat_and_not_mask flip: mask_eq_exp_minus_1)

lemma unat_align_up:
  "unat (align_up x (2 ^ k) :: 'a::len word) = (unat x + 2 ^ k - 1) div 2 ^ k * 2 ^ k"
  if "k < LENGTH('a)" "unat x + 2 ^ k - 1 < 2 ^ LENGTH('a)"
proof -
  have eq: "x + 2 ^ k - 1 = x + mask k" by (simp add: mask_eq_exp_minus_1 algebra_simps)
  have "unat (mask k :: 'a word) = 2 ^ k - 1"
    using that(1) by (simp add: mask_eq_exp_minus_1 unat_sub_if' word_le_nat_alt unat_pow2)
  moreover have "unat (x + mask k) = unat x + (2 ^ k - 1)"
    using that calculation by (simp add: unat_word_ariths)
  ultimately show ?thesis
    unfolding align_up_def eq by (simp add: unat_and_not_mask flip: mask_eq_exp_minus_1)
qed

lemma dvd_unat_align_up: "2 ^ k dvd unat (align_up x (2 ^ k) :: 'a::len word)"
  if "k < LENGTH('a)"
  by (simp add: align_up_def unat_and_not_mask flip: mask_eq_exp_minus_1)

lemma align_up_id:
  fixes x :: "'a::len word"
  assumes "k < LENGTH('a)" "2 ^ k dvd unat x"
  shows "align_up x (2 ^ k) = x"
proof -
  obtain q where q: "unat x = 2 ^ k * q" using assms(2) by (elim dvdE)
  have two: "(2::nat) ^ LENGTH('a) = 2 ^ k * 2 ^ (LENGTH('a) - k)"
    using assms(1) by (simp flip: power_add)
  have lt: "unat x < 2 ^ LENGTH('a)" by simp
  then have "q < 2 ^ (LENGTH('a) - k)" unfolding q two by simp
  then have "Suc q \<le> 2 ^ (LENGTH('a) - k)" by simp
  then have "2 ^ k * Suc q \<le> 2 ^ k * 2 ^ (LENGTH('a) - k)" by (rule mult_le_mono2)
  then have "2 ^ k * q + 2 ^ k \<le> 2 ^ LENGTH('a)" unfolding two by simp
  then have le: "unat x + 2 ^ k \<le> 2 ^ LENGTH('a)" by (simp add: q)
  have "0 < (2::nat) ^ k" by simp
  with le have bound: "unat x + 2 ^ k - 1 < 2 ^ LENGTH('a)" by linarith
  have "unat x + 2 ^ k - 1 = (2 ^ k - 1) + 2 ^ k * q" by (simp add: q)
  also have "\<dots> div 2 ^ k = q" by (subst div_mult_self2) auto
  finally have "(unat x + 2 ^ k - 1) div 2 ^ k = q" .
  then show ?thesis
    using unat_align_up[OF assms(1) bound] q by (simp add: mult.commute word_unat_eq_iff)
qed

lemma unat64_less: "unat (x :: u64) < 2 ^ 64"
  using unsigned_less[of x] by simp

lemma unat_neq: "unat x \<noteq> unat y \<Longrightarrow> x \<noteq> y"
  by auto

lemma align_up_8: "8 dvd unat x \<Longrightarrow> align_up (x :: u64) 8 = x"
  using align_up_id[of 3 x] by simp

lemma unat_add_in:
  "unat (x + y :: u64) = unat x + unat y" if "unat x + unat y < 2 ^ 64"
  using that by (simp add: unat_word_ariths)

lemma unat_align_up_8:
  assumes "unat sz + 7 < 2 ^ 64"
  shows "unat (align_up sz 8 :: u64) = (unat sz + 7) div 8 * 8" "8 dvd unat (align_up sz 8 :: u64)"
  using unat_align_up[of 3 sz] assms by auto

lemma unat_of_nat64: "k < 2 ^ 64 \<Longrightarrow> unat (of_nat k :: u64) = k"
  by (simp add: unsigned_of_nat take_bit_nat_eq_self)

lemma unat_minus_wrap:
  "unat (x - y :: u64) = (if unat y \<le> unat x then unat x - unat y else 2 ^ 64 + unat x - unat y)"
  using unat64_less[of x] unat64_less[of y] by (auto simp: unat_sub_if_size word_size)

lemma unat_ptr_add: "unat p + n < 2 ^ 64 \<Longrightarrow> unat (p + of_nat n :: u64) = unat p + n"
  by (subst unat_add_in) (auto simp: unat_of_nat64)

lemma ptr_add_inj:
  fixes p :: u64
  assumes "i < 2 ^ 64" "j < 2 ^ 64" "p + of_nat i = p + of_nat j"
  shows "i = j"
proof -
  have "unat (of_nat i :: u64) = unat (of_nat j :: u64)" using assms(3) by simp
  then show ?thesis using unat_of_nat64[OF assms(1)] unat_of_nat64[OF assms(2)] by simp
qed

lemma unat_ucast32: "unat (ucast (x :: u32) :: u64) = unat x"
  using unsigned_less[of x, where 'a = nat] by (simp add: unsigned_ucast_eq take_bit_nat_eq_self)

end
