(* ===== verification/KHeap.thy ===== *)
theory KHeap
  imports Prelude
begin

text \<open>
  The kernel heap of \<open>kernel/memory/kmalloc.c\<close>: one free list threaded through the heap memory.
  Memory is modelled at the granularity of 8-byte cells (\<open>cells\<close>, indexed by the address of the
  cell), so that a \<open>free_block_t\<close> and an \<open>alloc_header_t\<close> really overlay the same storage:
  a free block keeps its size in the first cell and the link in the second; a header keeps its
  two 32-bit canaries in the low halves of the first and third cell and the size in the second.
  The loops over the list are \<open>partial_function (option)\<close>: \<open>None\<close> stands for a walk that never
  ends (a corrupted, cyclic list). Theory \<open>KHeap_Correct\<close> holds the invariant and the proofs.
\<close>

subsection \<open>State\<close>

record kheap =
  heap_base :: u64
  heap_size :: u64
  heap_initialized :: bool
  free_list :: u64
  cells :: "u64 \<Rightarrow> u64"

definition ALLOC_MAGIC_START :: u32 where
  "ALLOC_MAGIC_START = 0xDEADBEEF"

definition ALLOC_MAGIC_END :: u32 where
  "ALLOC_MAGIC_END = 0xCAFEBABE"

text \<open>\<open>sizeof(alloc_header_t)\<close> and \<open>sizeof(free_block_t)\<close> on the 64-bit build.\<close>

definition sizeof_alloc_header :: u64 where
  "sizeof_alloc_header = 24"

definition sizeof_free_block :: u64 where
  "sizeof_free_block = 16"

text \<open>Field accesses through the two overlaid structures; \<open>set_low32\<close> stores a 32-bit field and
  keeps the four padding bytes beside it.\<close>

definition set_low32 :: "u64 \<Rightarrow> u32 \<Rightarrow> u64" where
  "set_low32 c w = (c AND 0xFFFFFFFF00000000) OR ucast w"

abbreviation (input) blk_size :: "(u64 \<Rightarrow> u64) \<Rightarrow> u64 \<Rightarrow> u64" where
  "blk_size m b \<equiv> m b"

abbreviation (input) blk_next :: "(u64 \<Rightarrow> u64) \<Rightarrow> u64 \<Rightarrow> u64" where
  "blk_next m b \<equiv> m (b + 8)"

definition hdr_magic_start :: "(u64 \<Rightarrow> u64) \<Rightarrow> u64 \<Rightarrow> u32" where
  "hdr_magic_start m a = ucast (m a)"

definition hdr_size :: "(u64 \<Rightarrow> u64) \<Rightarrow> u64 \<Rightarrow> u64" where
  "hdr_size m a = m (a + 8)"

definition hdr_magic_end :: "(u64 \<Rightarrow> u64) \<Rightarrow> u64 \<Rightarrow> u32" where
  "hdr_magic_end m a = ucast (m (a + 16))"

definition write_header :: "(u64 \<Rightarrow> u64) \<Rightarrow> u64 \<Rightarrow> u64 \<Rightarrow> u64 \<Rightarrow> u64" where
  "write_header m a sz =
     m(a := set_low32 (m a) ALLOC_MAGIC_START,
       a + 8 := sz,
       a + 16 := set_low32 (m (a + 16)) ALLOC_MAGIC_END)"

text \<open>\<open>memset(p, 0, len)\<close> on cell memory, for an 8-aligned \<open>p\<close>: whole cells become 0, and of the
  last cell only the low bytes that the length still covers are cleared (little endian).\<close>

definition memset0 :: "(u64 \<Rightarrow> u64) \<Rightarrow> u64 \<Rightarrow> u64 \<Rightarrow> u64 \<Rightarrow> u64" where
  "memset0 m p len x =
     (if unat p \<le> unat x \<and> unat x < unat p + unat len then
        if unat x + 8 \<le> unat p + unat len then 0
        else m x AND NOT (mask (8 * (unat p + unat len - unat x)))
      else m x)"

subsection \<open>Operations\<close>

definition init_kernel_heap_region :: "kheap \<Rightarrow> u64 \<Rightarrow> u64 \<Rightarrow> bool \<times> kheap" where
  "init_kernel_heap_region h base sz =
     (let aligned_base = align_up base 8 in
      if base = 0 \<or> aligned_base < base then (False, h)
      else let alignment_loss = aligned_base - base in
      if sz \<le> alignment_loss then (False, h)
      else let h1 = h\<lparr>heap_base := aligned_base, heap_size := sz - alignment_loss\<rparr> in
      if heap_size h1 < 64 * 1024 then (False, h1)
      else let m = (memset0 (cells h1) aligned_base (heap_size h1))
                     (aligned_base := heap_size h1 - sizeof_free_block, aligned_base + 8 := 0)
      in (True, h1\<lparr>cells := m, free_list := aligned_base, heap_initialized := True\<rparr>))"

text \<open>The search loop of \<open>kmalloc\<close>: the previous node and the first node that is large
  enough, or 0 when the list ends. A cyclic list makes the loop run for ever: \<open>None\<close>.\<close>

partial_function (option) kmalloc_walk ::
    "(u64 \<Rightarrow> u64) \<Rightarrow> u64 \<Rightarrow> u64 \<Rightarrow> u64 \<Rightarrow> (u64 \<times> u64) option" where
  "kmalloc_walk m tot prev current =
     (if current = 0 then Some (prev, 0)
      else if tot \<le> blk_size m current then Some (prev, current)
      else kmalloc_walk m tot current (blk_next m current))"

text \<open>The body of the loop once \<open>current\<close> fits: split or take the whole block, then write the
  header. The check on \<open>padding\<close> follows the code.\<close>

definition kmalloc_take :: "kheap \<Rightarrow> u64 \<Rightarrow> u64 \<Rightarrow> u64 \<Rightarrow> u64 \<Rightarrow> kheap \<times> u64" where
  "kmalloc_take h sz tot prev current =
     (let m = cells h;
          h1 = (if tot + sizeof_free_block + 8 \<le> blk_size m current then
                  let new_block = current + tot;
                      m1 = m(new_block := blk_size m current - tot);
                      m2 = m1(new_block + 8 := blk_next m1 current);
                      m3 = m2(current + 8 := 0);
                      m4 = m3(current := tot)
                  in if prev \<noteq> 0 then h\<lparr>cells := m4(prev + 8 := new_block)\<rparr>
                     else h\<lparr>cells := m4, free_list := new_block\<rparr>
                else
                  if prev \<noteq> 0 then h\<lparr>cells := m(prev + 8 := blk_next m current)\<rparr>
                  else h\<lparr>free_list := blk_next m current\<rparr>);
          h2 = h1\<lparr>cells := write_header (cells h1) current sz\<rparr>;
          raw_ptr = current + sizeof_alloc_header;
          aligned_ptr = align_up raw_ptr 8
      in if aligned_ptr - raw_ptr \<noteq> 0 then (h2, 0) else (h2, aligned_ptr))"

definition kmalloc :: "kheap \<Rightarrow> u64 \<Rightarrow> (kheap \<times> u64) option" where
  "kmalloc h sz =
     (if \<not> heap_initialized h \<or> sz = 0 then Some (h, 0)
      else let sz = align_up sz 8; total_size = sizeof_alloc_header + sz in
      if free_list h AND 7 \<noteq> 0 then Some (h, 0)
      else case kmalloc_walk (cells h) total_size 0 (free_list h) of
             None \<Rightarrow> None
           | Some (prev, current) \<Rightarrow>
               if current = 0 then Some (h, 0)
               else Some (kmalloc_take h sz total_size prev current))"

text \<open>The sorted insertion point of \<open>kfree\<close>.\<close>

partial_function (option) kfree_walk ::
    "(u64 \<Rightarrow> u64) \<Rightarrow> u64 \<Rightarrow> u64 \<Rightarrow> u64 \<Rightarrow> (u64 \<times> u64) option" where
  "kfree_walk m block prev current =
     (if current \<noteq> 0 \<and> current < block
      then kfree_walk m block current (blk_next m current)
      else Some (prev, current))"

definition kfree_link :: "kheap \<Rightarrow> u64 \<Rightarrow> u64 \<Rightarrow> u64 \<Rightarrow> kheap" where
  "kfree_link h block prev current =
     (let m = cells h;
          m1 = (if current \<noteq> 0 \<and> block + blk_size m block = current
                then m(block := blk_size m block + blk_size m current,
                       block + 8 := blk_next m current)
                else m(block + 8 := current))
      in if prev \<noteq> 0 \<and> prev + blk_size m1 prev = block
         then h\<lparr>cells := m1(prev := blk_size m1 prev + blk_size m1 block,
                            prev + 8 := blk_next m1 block)\<rparr>
         else if prev \<noteq> 0 then h\<lparr>cells := m1(prev + 8 := block)\<rparr>
         else h\<lparr>cells := m1, free_list := block\<rparr>)"

definition kfree :: "kheap \<Rightarrow> u64 \<Rightarrow> kheap option" where
  "kfree h ptr =
     (if ptr = 0 \<or> \<not> heap_initialized h then Some h
      else let header = ptr - sizeof_alloc_header; m = cells h in
      if hdr_magic_start m header \<noteq> ALLOC_MAGIC_START \<or>
         hdr_magic_end m header \<noteq> ALLOC_MAGIC_END then Some h
      else let total_size = sizeof_alloc_header + align_up (hdr_size m header) 8;
               h1 = h\<lparr>cells := m(header := total_size, header + 8 := 0)\<rparr>
      in case kfree_walk (cells h1) header 0 (free_list h1) of
           None \<Rightarrow> None
         | Some (prev, current) \<Rightarrow> Some (kfree_link h1 header prev current))"

definition kcalloc :: "kheap \<Rightarrow> u64 \<Rightarrow> u64 \<Rightarrow> (kheap \<times> u64) option" where
  "kcalloc h nmemb sz =
     (let total_size = nmemb * sz in
      case kmalloc h total_size of
        None \<Rightarrow> None
      | Some (h1, ptr) \<Rightarrow>
          if ptr \<noteq> 0 then Some (h1\<lparr>cells := memset0 (cells h1) ptr total_size\<rparr>, ptr)
          else Some (h1, ptr))"

definition kzalloc :: "kheap \<Rightarrow> u64 \<Rightarrow> (kheap \<times> u64) option" where
  "kzalloc h sz =
     (case kmalloc h sz of
        None \<Rightarrow> None
      | Some (h1, ptr) \<Rightarrow>
          if ptr \<noteq> 0 then Some (h1\<lparr>cells := memset0 (cells h1) ptr sz\<rparr>, ptr)
          else Some (h1, ptr))"

definition krealloc :: "kheap \<Rightarrow> u64 \<Rightarrow> u64 \<Rightarrow> (kheap \<times> u64) option" where
  "krealloc h ptr sz =
     (if ptr = 0 then kmalloc h sz
      else if sz = 0 then map_option (\<lambda>h1. (h1, 0)) (kfree h ptr)
      else case kmalloc h sz of
             None \<Rightarrow> None
           | Some (h1, new_ptr) \<Rightarrow>
               if new_ptr \<noteq> 0 then map_option (\<lambda>h2. (h2, new_ptr)) (kfree h1 ptr)
               else Some (h1, new_ptr))"

text \<open>The loop of \<open>kheap_stats\<close>: the address and 32-bit size printed for each block, then the
  total (still a \<open>size_t\<close>) and the number of blocks.\<close>

partial_function (option) kheap_stats_walk ::
    "(u64 \<Rightarrow> u64) \<Rightarrow> u64 \<Rightarrow> (u64 \<times> u32) list \<Rightarrow> u64 \<Rightarrow> int \<Rightarrow>
     ((u64 \<times> u32) list \<times> u64 \<times> int) option" where
  "kheap_stats_walk m current lines total_free count =
     (if current = 0 then Some (lines, total_free, count)
      else kheap_stats_walk m (blk_next m current) (lines @ [(current, ucast (blk_size m current))])
             (total_free + blk_size m current) (count + 1))"

definition kheap_stats :: "kheap \<Rightarrow> ((u64 \<times> u32) list \<times> u32 \<times> int) option" where
  "kheap_stats h =
     map_option (\<lambda>(lines, total_free, count). (lines, ucast total_free, count))
       (kheap_stats_walk (cells h) (free_list h) [] 0 0)"

end
