(* ===== verification/Allocator.thy ===== *)
theory Allocator
  imports Prelude
begin

text \<open>
  What the rest of the kernel relies on when it allocates: a state, a request for a number of units, a
  pointer that is 0 when the request fails, and a call that gives the pointer back. The contract is the
  locale \<open>block_allocator\<close>; its client lemma says that every sequence of requests and releases runs to
  completion and never hands out the same storage twice. The kernel heap and the physical page
  allocator both interpret it.
\<close>

type_synonym block = "u64 \<times> u64"

text \<open>A request, or the release of the block at some position of the list of live blocks.\<close>

datatype heap_op = HAlloc u64 | HFree nat

fun heap_run ::
    "('s \<Rightarrow> u64 \<Rightarrow> ('s \<times> u64) option) \<Rightarrow> ('s \<Rightarrow> u64 \<Rightarrow> 's option) \<Rightarrow>
     's \<Rightarrow> block list \<Rightarrow> heap_op list \<Rightarrow> ('s \<times> block list) option" where
  "heap_run alloc free s L [] = Some (s, L)"
| "heap_run alloc free s L (HAlloc n # ops) =
     (case alloc s n of
        None \<Rightarrow> None
      | Some (s', p) \<Rightarrow> heap_run alloc free s' (if p = 0 then L else (p, n) # L) ops)"
| "heap_run alloc free s L (HFree i # ops) =
     (if i < length L then
        case free s (fst (L ! i)) of
          None \<Rightarrow> None
        | Some s' \<Rightarrow> heap_run alloc free s' (take i L @ drop (Suc i) L) ops
      else heap_run alloc free s L ops)"

locale block_allocator =
  fixes valid :: "'s \<Rightarrow> block list \<Rightarrow> bool"
    and extent :: "block \<Rightarrow> nat set"
    and arena :: "'s \<Rightarrow> nat set"
    and align :: nat
    and request :: "u64 \<Rightarrow> bool"
    and alloc :: "'s \<Rightarrow> u64 \<Rightarrow> ('s \<times> u64) option"
    and free :: "'s \<Rightarrow> u64 \<Rightarrow> 's option"
  assumes alloc_law: "valid s L \<Longrightarrow> request n \<Longrightarrow>
      alloc s n = Some (s, 0) \<or>
      (\<exists>s' p. alloc s n = Some (s', p) \<and> p \<noteq> 0 \<and> valid s' ((p, n) # L) \<and> arena s' = arena s)"
    and free_law: "valid s (xs @ (p, n) # ys) \<Longrightarrow>
      \<exists>s'. free s p = Some s' \<and> valid s' (xs @ ys) \<and> arena s' = arena s"
    and disjoint_law: "valid s L \<Longrightarrow> sorted_wrt (\<lambda>b c. extent b \<inter> extent c = {}) L"
    and place_law: "valid s L \<Longrightarrow> b \<in> set L \<Longrightarrow> align dvd unat (fst b) \<and> extent b \<subseteq> arena s"
begin

lemma run_valid:
  assumes "valid s L" "\<forall>n. HAlloc n \<in> set ops \<longrightarrow> request n"
  shows "\<exists>s' L'. heap_run alloc free s L ops = Some (s', L') \<and> valid s' L' \<and> arena s' = arena s"
  using assms
proof (induction ops arbitrary: s L)
  case Nil
  then show ?case by simp
next
  case (Cons op ops)
  show ?case
  proof (cases op)
    case (HAlloc n)
    then have "request n" using Cons.prems(2) by auto
    from alloc_law[OF Cons.prems(1) this] show ?thesis
      using Cons.IH Cons.prems HAlloc by (force split: option.splits)
  next
    case (HFree i)
    show ?thesis
    proof (cases "i < length L")
      case True
      then have L: "take i L @ (fst (L ! i), snd (L ! i)) # drop (Suc i) L = L"
        by (simp add: id_take_nth_drop[symmetric])
      obtain s' where "free s (fst (L ! i)) = Some s'" "valid s' (take i L @ drop (Suc i) L)" "arena s' = arena s"
        using free_law[of s "take i L" "fst (L ! i)" "snd (L ! i)" "drop (Suc i) L"] Cons.prems(1) L by auto
      then show ?thesis using Cons.IH[of s' "take i L @ drop (Suc i) L"] Cons.prems(2) HFree True by auto
    next
      case False
      then show ?thesis using Cons HFree by auto
    qed
  qed
qed

lemma run_disjoint:
  assumes "valid s L" "\<forall>n. HAlloc n \<in> set ops \<longrightarrow> request n"
  shows "\<exists>s' L'. heap_run alloc free s L ops = Some (s', L') \<and>
           sorted_wrt (\<lambda>b c. extent b \<inter> extent c = {}) L' \<and>
           (\<forall>b \<in> set L'. align dvd unat (fst b) \<and> extent b \<subseteq> arena s)"
  using run_valid[OF assms] disjoint_law place_law by metis

end

end
