(* ===== verification/KHeap_Correct.thy ===== *)
theory KHeap_Correct
  imports KHeap Allocator
begin

text \<open>
  Correctness of the kernel heap. A heap state is related to two abstract objects by
  \<open>kheap_inv\<close>: the list of free blocks that the pointers reachable from \<open>free_list\<close> spell out,
  in address order and never adjacent, and the set of live allocations with their headers intact.
  \<open>kmalloc\<close> and \<open>kfree\<close> are shown to refine first fit with splitting and address-ordered insertion with
  coalescing on lists of blocks. The locale \<open>block_allocator\<close> is the contract the rest of the kernel relies
  on; it is interpreted on \<open>kmalloc\<close> and \<open>kfree\<close> at the end.
\<close>

subsection \<open>Blocks, paths and the invariant\<close>

primrec fpath :: "(u64 \<Rightarrow> u64) \<Rightarrow> u64 \<Rightarrow> block list \<Rightarrow> u64 \<Rightarrow> bool" where
  "fpath m p [] q \<longleftrightarrow> p = q"
| "fpath m p (b # bs) q \<longleftrightarrow>
     p = fst b \<and> p \<noteq> 0 \<and> m p = snd b \<and> fpath m (m (p + 8)) bs q"

definition span :: "block \<Rightarrow> nat set" where
  "span b = {unat (fst b) ..< unat (fst b) + unat (snd b)}"

definition in_heap :: "kheap \<Rightarrow> block \<Rightarrow> bool" where
  "in_heap h b \<longleftrightarrow>
     8 dvd unat (fst b) \<and> 8 dvd unat (snd b) \<and> 24 \<le> unat (snd b) \<and>
     unat (heap_base h) \<le> unat (fst b) \<and>
     unat (fst b) + unat (snd b) \<le> unat (heap_base h) + unat (heap_size h)"

definition apart :: "block list \<Rightarrow> bool" where
  "apart F \<longleftrightarrow> sorted_wrt (\<lambda>a b. unat (fst a) + unat (snd a) < unat (fst b)) F"

definition live_header :: "kheap \<Rightarrow> block \<Rightarrow> bool" where
  "live_header h b \<longleftrightarrow>
     hdr_magic_start (cells h) (fst b) = ALLOC_MAGIC_START \<and>
     hdr_magic_end (cells h) (fst b) = ALLOC_MAGIC_END \<and>
     sizeof_alloc_header + hdr_size (cells h) (fst b) = snd b"

definition heap_fits :: "kheap \<Rightarrow> bool" where
  "heap_fits h \<longleftrightarrow> 0 < unat (heap_base h) \<and> unat (heap_base h) + unat (heap_size h) + 24 < 2 ^ 64"

definition kheap_inv :: "kheap \<Rightarrow> block list \<Rightarrow> block set \<Rightarrow> bool" where
  "kheap_inv h F A \<longleftrightarrow>
     heap_initialized h \<and> heap_fits h \<and>
     fpath (cells h) (free_list h) F 0 \<and> apart F \<and>
     (\<forall>b \<in> set F. in_heap h b) \<and>
     (\<forall>a \<in> A. in_heap h a \<and> live_header h a) \<and>
     (\<forall>a \<in> A. \<forall>b \<in> set F. span a \<inter> span b = {}) \<and>
     (\<forall>a \<in> A. \<forall>b \<in> A. a \<noteq> b \<longrightarrow> span a \<inter> span b = {})"

lemma fpath_append: "fpath m p (xs @ ys) q \<longleftrightarrow> (\<exists>r. fpath m p xs r \<and> fpath m r ys q)"
  by (induction xs arbitrary: p) auto

lemma fpath_cong:
  assumes "\<forall>b \<in> set xs. m' (fst b) = m (fst b) \<and> m' (fst b + 8) = m (fst b + 8)"
  shows "fpath m' p xs q \<longleftrightarrow> fpath m p xs q"
  using assms by (induction xs arbitrary: p) auto

lemma fpath_relink:
  assumes "fpath m p xs q" "\<forall>b \<in> set xs. m' (fst b) = m (fst b)"
    and "\<forall>b \<in> set (butlast xs). m' (fst b + 8) = m (fst b + 8)"
    and "xs \<noteq> [] \<longrightarrow> m' (fst (last xs) + 8) = q'"
  shows "fpath m' (if xs = [] then q' else p) xs q'"
  using assms
proof (induction xs arbitrary: p)
  case Nil
  then show ?case by simp
next
  case (Cons b xs)
  then show ?case by (cases "xs = []") auto
qed

lemma high32_mask: "(0xFFFFFFFF00000000 :: u64) = NOT (mask 32)"
  by (simp add: mask_numeral)

lemma ucast_set_low32 [simp]: "ucast (set_low32 c w) = (w :: u32)"
  unfolding set_low32_def high32_mask
  by (rule bit_eqI) (auto simp: bit_simps)

lemma in_heap_add:
  assumes "in_heap h b" "heap_fits h" "unat k \<le> unat (snd b)"
  shows "unat (fst b + k) = unat (fst b) + unat k"
  using assms by (intro unat_add_in) (auto simp: in_heap_def heap_fits_def)

lemma cell_in_span:
  assumes "in_heap h b" "heap_fits h"
  shows "unat (fst b) \<in> span b" "unat (fst b + 8) \<in> span b" "unat (fst b + 16) \<in> span b"
  using assms in_heap_add[OF assms, of 8] in_heap_add[OF assms, of 16]
  by (auto simp: span_def in_heap_def)

lemma apart_append:
  "apart (xs @ ys) \<longleftrightarrow> apart xs \<and> apart ys \<and>
     (\<forall>a \<in> set xs. \<forall>b \<in> set ys. unat (fst a) + unat (snd a) < unat (fst b))"
  by (auto simp: apart_def sorted_wrt_append)

lemma apart_Cons:
  "apart (a # ys) \<longleftrightarrow> apart ys \<and> (\<forall>b \<in> set ys. unat (fst a) + unat (snd a) < unat (fst b))"
  by (auto simp: apart_def)

lemma apart_span: 
  "apart (xs @ b # ys) \<Longrightarrow> c \<in> set xs \<union> set ys \<Longrightarrow> span c \<inter> span b = {}"
  by (force simp: apart_append apart_Cons span_def)


lemma kmalloc_walk_fit:
  assumes "fpath m p xs c" "\<forall>b \<in> set xs. snd b < tot" "c \<noteq> 0" "tot \<le> m c"
  shows "kmalloc_walk m tot prev p = Some (if xs = [] then prev else fst (last xs), c)"
  using assms
proof (induction xs arbitrary: p prev)
  case Nil
  then show ?case by (simp add: kmalloc_walk.simps)
next
  case (Cons b xs)
  then show ?case
    by (subst kmalloc_walk.simps) (auto simp: not_le[symmetric])
qed

lemma kmalloc_walk_none:
  assumes "fpath m p xs 0" "\<forall>b \<in> set xs. snd b < tot"
  shows "\<exists>r. kmalloc_walk m tot prev p = Some (r, 0)"
  using assms
proof (induction xs arbitrary: p prev)
  case Nil
  then show ?case by (simp add: kmalloc_walk.simps)
next
  case (Cons b xs)
  then show ?case
    by (subst kmalloc_walk.simps) (auto simp: not_le[symmetric])
qed

lemma kfree_walk_split:
  assumes "fpath m p xs c" "\<forall>b \<in> set xs. fst b < blk" "c = 0 \<or> blk \<le> c"
  shows "kfree_walk m blk prev p = Some (if xs = [] then prev else fst (last xs), c)"
  using assms
proof (induction xs arbitrary: p prev)
  case Nil
  then show ?case by (subst kfree_walk.simps) auto
next
  case (Cons b xs)
  then show ?case
    by (subst kfree_walk.simps) auto
qed

subsection \<open>The cells that kmalloc writes\<close>

lemma header_fields:
  "hdr_magic_start (write_header m a sz) a = ALLOC_MAGIC_START"
  "hdr_magic_end (write_header m a sz) a = ALLOC_MAGIC_END"
  "hdr_size (write_header m a sz) a = sz"
  by (simp_all add: hdr_magic_start_def hdr_magic_end_def hdr_size_def write_header_def)

lemma kmalloc_take_ptr:
  assumes "8 dvd unat a" "unat a + 24 < 2 ^ 64"
  shows "snd (kmalloc_take h sz tot prev a) = a + 24"
proof -
  have "unat (a + 24) = unat a + 24" using assms(2) by (subst unat_add_in) auto
  then have "align_up (a + 24) 8 = a + 24" using assms(1) by (intro align_up_8) simp
  then show ?thesis by (simp add: kmalloc_take_def sizeof_alloc_header_def Let_def)
qed

lemma kmalloc_take_fields:
  "heap_initialized (fst (kmalloc_take h sz tot prev a)) = heap_initialized h"
  "heap_base (fst (kmalloc_take h sz tot prev a)) = heap_base h"
  "heap_size (fst (kmalloc_take h sz tot prev a)) = heap_size h"
  by (auto simp: kmalloc_take_def Let_def)


lemma split_cond:
  assumes "in_heap h (a, s)" "heap_fits h" "unat tot \<le> unat s"
  shows "tot + sizeof_free_block + 8 \<le> s \<longleftrightarrow> unat tot + 24 \<le> unat s"
proof -
  have "unat tot + 24 < 2 ^ 64" using assms by (auto simp: in_heap_def heap_fits_def)
  then have "unat (tot + 24) = unat tot + 24" by (subst unat_add_in) auto
  moreover have "tot + sizeof_free_block + 8 = tot + 24" by (simp add: sizeof_free_block_def)
  ultimately show ?thesis by (simp only: word_le_nat_alt)
qed

text \<open>What taking a block leaves in memory, for a block that lies in the heap.\<close>

lemma kmalloc_take_cells:
  assumes blk: "in_heap h (a, s)" "cells h a = s" and fits: "heap_fits h"
    and tot: "unat tot = unat sz + 24" "8 dvd unat sz" "unat tot \<le> unat s"
    and prev: "prev \<noteq> 0 \<longrightarrow> unat (prev + 8) \<notin> span (a, s)"
  defines "h' \<equiv> fst (kmalloc_take h sz tot prev a)"
  defines "nxt \<equiv> if unat tot + 24 \<le> unat s then a + tot else cells h (a + 8)"
  shows "free_list h' = (if prev = 0 then nxt else free_list h)"
    and "prev \<noteq> 0 \<Longrightarrow> cells h' (prev + 8) = nxt"
    and "\<And>x. unat x \<notin> span (a, s) \<Longrightarrow> prev = 0 \<or> x \<noteq> prev + 8 \<Longrightarrow> cells h' x = cells h x"
    and "live_header h' (a, tot)"
    and "unat tot + 24 \<le> unat s \<Longrightarrow> cells h' (a + tot) = s - tot"
    and "unat tot + 24 \<le> unat s \<Longrightarrow> cells h' (a + tot + 8) = cells h (a + 8)"
proof -
  note add = in_heap_add[OF blk(1) fits]
  have u8: "unat (a + 8) = unat a + 8" and u16: "unat (a + 16) = unat a + 16"
    and ut: "unat (a + tot) = unat a + unat tot"
    using add[of 8] add[of 16] add[of tot] blk(1) tot by (auto simp: in_heap_def)
  have ut8: "unat (a + tot + 8) = unat a + unat tot + 8" if "unat tot + 24 \<le> unat s"
    using add[of "tot + 8"] that unat_add_in[of tot 8] blk(1) fits
    by (auto simp: in_heap_def heap_fits_def add.assoc)
  have sp: "unat a \<in> span (a, s)" "unat (a + 8) \<in> span (a, s)" "unat (a + 16) \<in> span (a, s)"
    using cell_in_span[OF blk(1) fits] by auto
  have spt: "unat (a + tot) \<in> span (a, s)" "unat (a + tot + 8) \<in> span (a, s)"
    if "unat tot + 24 \<le> unat s"
    using that ut ut8 by (auto simp: span_def)
  have ne: "a \<noteq> a + 8" "a \<noteq> a + 16" "a + 8 \<noteq> a + 16"
    by simp_all
  have nt: "a + tot \<noteq> a" "a + tot \<noteq> a + 8" "a + tot \<noteq> a + 16"
    by - (rule unat_neq, use ut u8 u16 tot(1) in linarith)+
  have np: "prev + 8 \<noteq> a" "prev + 8 \<noteq> a + 8" "prev + 8 \<noteq> a + 16" if "prev \<noteq> 0"
    using prev sp that by metis+
  have npt: "prev + 8 \<noteq> a + tot" "prev + 8 \<noteq> a + tot + 8"
    if "prev \<noteq> 0" "unat tot + 24 \<le> unat s"
    using prev spt that by metis+
  have nt8: "a + tot + 8 \<noteq> a" "a + tot + 8 \<noteq> a + 8" "a + tot + 8 \<noteq> a + 16"
    if "unat tot + 24 \<le> unat s"
    by - (rule unat_neq, use ut8[OF that] u8 u16 tot(1) in linarith)+
  note sc = split_cond[OF blk(1) fits tot(3)]
  show "free_list h' = (if prev = 0 then nxt else free_list h)"
    using sc blk(2) by (auto simp: h'_def nxt_def kmalloc_take_def Let_def)
  show "cells h' (prev + 8) = nxt" if "prev \<noteq> 0"
    using sc blk(2) np[OF that] npt[OF that] that
    by (auto simp: h'_def nxt_def kmalloc_take_def write_header_def Let_def)
  show "cells h' x = cells h x" if "unat x \<notin> span (a, s)" "prev = 0 \<or> x \<noteq> prev + 8" for x
  proof -
    have "x \<noteq> a" "x \<noteq> a + 8" "x \<noteq> a + 16" using that(1) sp by metis+
    moreover have "x \<noteq> a + tot" "x \<noteq> a + tot + 8" if "unat tot + 24 \<le> unat s"
      using \<open>unat x \<notin> span (a, s)\<close> spt[OF that] by metis+
    ultimately show ?thesis using sc blk(2) that(2)
      by (auto simp: h'_def nxt_def kmalloc_take_def write_header_def Let_def)
  qed
  show "live_header h' (a, tot)"
  proof -
    have "\<exists>m. cells h' = write_header m a sz"
      by (auto simp: h'_def kmalloc_take_def Let_def)
    then obtain m where m: "cells h' = write_header m a sz" ..
    have "unat (24 + sz) = unat tot"
      using tot unat64_less[of tot] by (subst unat_add_in) auto
    then have "24 + sz = tot" by (simp only: word_unat_eq_iff)
    with m show ?thesis by (simp add: live_header_def header_fields sizeof_alloc_header_def)
  qed
  show "cells h' (a + tot) = s - tot" if "unat tot + 24 \<le> unat s"
    using sc blk(2) that nt nt8[OF that] npt[OF _ that] 
    by (auto simp: h'_def nxt_def kmalloc_take_def write_header_def Let_def)
  show "cells h' (a + tot + 8) = cells h (a + 8)" if "unat tot + 24 \<le> unat s"
    using sc blk(2) that nt nt8[OF that] npt[OF _ that] 
    by (auto simp: h'_def nxt_def kmalloc_take_def write_header_def Let_def)
qed

subsection \<open>Relinking the free list\<close>

definition rest_of :: "u64 \<Rightarrow> block \<Rightarrow> block list" where
  "rest_of tot b = (if unat tot + 24 \<le> unat (snd b) then [(fst b + tot, snd b - tot)] else [])"

lemma live_header_cong:
  assumes "cells h' (fst b) = cells h (fst b)" "cells h' (fst b + 8) = cells h (fst b + 8)"
    "cells h' (fst b + 16) = cells h (fst b + 16)"
  shows "live_header h' b = live_header h b"
  using assms by (simp add: live_header_def hdr_magic_start_def hdr_magic_end_def hdr_size_def)

lemma rest_of_span:
  assumes "in_heap h b" "heap_fits h" "unat tot \<le> unat (snd b)" "8 dvd unat tot"
    and "b' \<in> set (rest_of tot b)"
  shows "span b' \<subseteq> span b" "in_heap h b'" "unat (fst b') = unat (fst b) + unat tot"
    "unat (fst b') + unat (snd b') = unat (fst b) + unat (snd b)"
proof -
  from assms(5) have eq: "b' = (fst b + tot, snd b - tot)" and room: "unat tot + 24 \<le> unat (snd b)"
    by (auto simp: rest_of_def split: if_splits)
  have "unat (fst b + tot) = unat (fst b) + unat tot"
    by (rule in_heap_add[OF assms(1-3)])
  moreover have "unat (snd b - tot) = unat (snd b) - unat tot"
    using assms(3) by (simp add: unat_sub word_le_nat_alt)
  ultimately show "span b' \<subseteq> span b" "in_heap h b'" "unat (fst b') = unat (fst b) + unat tot"
    "unat (fst b') + unat (snd b') = unat (fst b) + unat (snd b)"
    using eq room assms(1,4) by (auto simp: span_def in_heap_def)
qed

lemma in_heap_nonzero: "in_heap h b \<Longrightarrow> heap_fits h \<Longrightarrow> fst b \<noteq> 0"
  by (auto simp: in_heap_def heap_fits_def)

lemma sorted_wrt_pair:
  "sorted_wrt P F \<Longrightarrow> b \<in> set F \<Longrightarrow> c \<in> set F \<Longrightarrow> b \<noteq> c \<Longrightarrow> P b c \<or> P c b"
  by (induction F) auto

lemma apart_span_pair:
  "apart F \<Longrightarrow> b \<in> set F \<Longrightarrow> c \<in> set F \<Longrightarrow> b \<noteq> c \<Longrightarrow> span b \<inter> span c = {}"
  unfolding apart_def by (drule (3) sorted_wrt_pair) (auto simp: span_def)

lemma apart_distinct: "apart F \<Longrightarrow> distinct F"
  by (induction F) (auto simp: apart_def)

lemma relink:
  assumes fits: "heap_fits h" and hp: "\<forall>b \<in> set (xs @ ys). in_heap h b"
    and A: "\<forall>b \<in> A. in_heap h b \<and> live_header h b"
    and xs: "fpath (cells h) (free_list h) xs q" and ys: "fpath (cells h) r ys 0"
    and ap: "apart (xs @ ys)" and AF: "\<forall>b \<in> A. \<forall>c \<in> set xs. span b \<inter> span c = {}"
    and S: "\<forall>b \<in> set xs \<union> set ys \<union> A. span b \<inter> S = {}"
    and frame: "\<And>x. unat x \<notin> S \<Longrightarrow> xs = [] \<or> x \<noteq> fst (last xs) + 8 \<Longrightarrow> cells h' x = cells h x"
    and link: "free_list h' = (if xs = [] then nxt else free_list h)"
      "xs \<noteq> [] \<Longrightarrow> cells h' (fst (last xs) + 8) = nxt"
    and mid: "fpath (cells h') nxt R r"
  shows "fpath (cells h') (free_list h') (xs @ R @ ys) 0" and "\<forall>b \<in> A. live_header h' b"
proof -
  have same: "cells h' x = cells h x"
    if b: "b \<in> set xs \<union> set ys \<union> A" and x: "x \<in> {fst b, fst b + 8, fst b + 16}"
      and l: "xs \<noteq> [] \<and> b = last xs \<longrightarrow> x = fst b" for b x
  proof (rule frame)
    have bh: "in_heap h b" using b hp A by auto
    have xb: "unat x \<in> span b" using x cell_in_span[OF bh fits] by auto
    then show "unat x \<notin> S" using S b by auto
    show "xs = [] \<or> x \<noteq> fst (last xs) + 8"
    proof (cases "xs = []")
      case False
      have "b = last xs \<or> span b \<inter> span (last xs) = {}"
        using b last_in_set[OF False] AF apart_span_pair[OF ap, of b "last xs"] by fastforce
      moreover have "unat (fst (last xs) + 8) \<in> span (last xs)"
        using False hp by (intro cell_in_span[OF _ fits]) auto
      ultimately show ?thesis using l xb False by auto
    qed simp
  qed
  have nl: "last xs \<notin> set ys \<union> A" if "xs \<noteq> []"
  proof -
    have "unat (fst (last xs)) \<in> span (last xs)"
      using that hp by (intro cell_in_span[OF _ fits]) auto
    then have "last xs \<notin> A" using AF that by (metis IntI empty_iff last_in_set)
    moreover have "last xs \<notin> set ys"
      using apart_distinct[OF ap] last_in_set[OF that] by auto
    ultimately show ?thesis by simp
  qed
  show "\<forall>b \<in> A. live_header h' b"
  proof
    fix b assume b: "b \<in> A"
    have "live_header h' b = live_header h b"
      using b nl by (intro live_header_cong same[of b]) auto
    then show "live_header h' b" using A b by simp
  qed
  have nb: "b \<noteq> last xs" if "b \<in> set (butlast xs)" for b
    using apart_distinct[OF ap] that by (cases xs rule: rev_cases) auto
  have "fpath (cells h') (free_list h') xs nxt"
    unfolding link(1) using xs nb link(2)
    by (intro fpath_relink[of "cells h" "free_list h" xs q] ballI same) (auto dest: in_set_butlastD)
  moreover have "fpath (cells h') r ys 0"
    using ys nl by (subst fpath_cong[of ys _ "cells h"]) (auto intro!: same)
  ultimately show "fpath (cells h') (free_list h') (xs @ R @ ys) 0"
    using mid by (auto simp: fpath_append)
qed

lemma kheap_invD:
  assumes "kheap_inv h F A"
  shows "heap_initialized h" "heap_fits h" "fpath (cells h) (free_list h) F 0" "apart F"
    "\<forall>b \<in> set F. in_heap h b" "\<forall>b \<in> A. in_heap h b \<and> live_header h b"
    "\<forall>b \<in> A. \<forall>c \<in> set F. span b \<inter> span c = {}"
    "\<forall>b \<in> A. \<forall>c \<in> A. b \<noteq> c \<longrightarrow> span b \<inter> span c = {}"
  using assms by (auto simp: kheap_inv_def)

lemma relink_inv:
  assumes init: "heap_initialized h" and fits: "heap_fits h" and hp: "\<forall>b \<in> set (xs @ ys). in_heap h b"
    and A: "\<forall>b \<in> A. in_heap h b \<and> live_header h b"
    and xs: "fpath (cells h) (free_list h) xs q" and ys: "fpath (cells h) r ys 0"
    and ap: "apart (xs @ R @ ys)"
    and AF: "\<forall>b \<in> A. \<forall>c \<in> set (xs @ ys). span b \<inter> span c = {}"
    and AA: "\<forall>b \<in> A. \<forall>c \<in> A. b \<noteq> c \<longrightarrow> span b \<inter> span c = {}"
    and S: "\<forall>b \<in> set xs \<union> set ys \<union> A. span b \<inter> S = {}"
    and R: "\<forall>b \<in> set R. in_heap h b \<and> span b \<subseteq> S"
    and frame: "\<And>x. unat x \<notin> S \<Longrightarrow> xs = [] \<or> x \<noteq> fst (last xs) + 8 \<Longrightarrow> cells h' x = cells h x"
    and link: "free_list h' = (if xs = [] then nxt else free_list h)"
      "xs \<noteq> [] \<Longrightarrow> cells h' (fst (last xs) + 8) = nxt"
    and mid: "fpath (cells h') nxt R r"
    and hh: "heap_initialized h' = heap_initialized h" "heap_base h' = heap_base h" "heap_size h' = heap_size h"
  shows "kheap_inv h' (xs @ R @ ys) A"
proof -
  have ap': "apart (xs @ ys)" using ap by (auto simp: apart_append)
  have AF': "\<forall>b \<in> A. \<forall>c \<in> set xs. span b \<inter> span c = {}" using AF by auto
  note re = relink[OF fits hp A xs ys ap' AF' S frame link mid]
  have hh': "in_heap h' = in_heap h" "heap_fits h'" "heap_initialized h'"
    using init fits hh by (auto simp: in_heap_def heap_fits_def fun_eq_iff)
  have "\<forall>b \<in> A. \<forall>c \<in> set (xs @ R @ ys). span b \<inter> span c = {}"
    using AF R S by auto blast+
  then show ?thesis
    unfolding kheap_inv_def hh'(1) using re hh' ap hp R A AA by auto
qed

lemma kheap_inv_insert:
  assumes "kheap_inv h F A" "in_heap h b" "live_header h b" "\<forall>c \<in> set F \<union> A. span b \<inter> span c = {}"
  shows "kheap_inv h F (insert b A)"
  using assms unfolding kheap_inv_def by (auto simp: Int_commute)

lemma kmalloc_take_inv:
  assumes inv: "kheap_inv h (xs @ (a, s) # ys) A"
    and tot: "unat tot = unat sz + 24" "8 dvd unat sz" "unat tot \<le> unat s"
  defines "prev \<equiv> if xs = [] then 0 else fst (last xs)"
  defines "h' \<equiv> fst (kmalloc_take h sz tot prev a)"
  shows "kheap_inv h' (xs @ rest_of tot (a, s) @ ys) (insert (a, tot) A)"
proof -
  note I = kheap_invD[OF inv]
  have blk: "in_heap h (a, s)" using I(5) by simp
  have q: "fpath (cells h) (free_list h) xs a" "cells h a = s" "fpath (cells h) (cells h (a + 8)) ys 0"
    using I(3) by (auto simp: fpath_append)
  have prev0: "prev = 0 \<longleftrightarrow> xs = []"
    using I(5) in_heap_nonzero[OF _ I(2), of "last xs"] by (auto simp: prev_def)
  have apart_as: "\<forall>b \<in> set xs \<union> set ys \<union> A. span b \<inter> span (a, s) = {}"
    using I(7) apart_span[OF I(4)] by auto
  have prev_out: "prev \<noteq> 0 \<longrightarrow> unat (prev + 8) \<notin> span (a, s)"
    using I(5) prev0 apart_as cell_in_span(2)[OF _ I(2), of "last xs"] last_in_set[of xs]
    by (fastforce simp: prev_def)
  note c = kmalloc_take_cells[OF blk q(2) I(2) tot prev_out, folded h'_def]
  have tot8: "8 dvd unat tot" using tot(1,2) by simp
  note R = rest_of_span[OF blk I(2) _ tot8, simplified, OF tot(3)]
  have "kheap_inv h' (xs @ rest_of tot (a, s) @ ys) A"
  proof (rule relink_inv[OF I(1,2) _ I(6) q(1,3) _ _ I(8) apart_as])
    show "fpath (cells h') (if unat tot + 24 \<le> unat s then a + tot else cells h (a + 8))
        (rest_of tot (a, s)) (cells h (a + 8))"
      using c(5,6) in_heap_nonzero[OF R(2) I(2)] by (auto simp: rest_of_def)
    show "apart (xs @ rest_of tot (a, s) @ ys)"
      using I(4) R(3,4)[of "(a + tot, s - tot)"]
      by (cases "unat tot + 24 \<le> unat s") (auto simp: apart_append apart_Cons rest_of_def)
  qed (use I(5,7) R(1,2) c(1-3) prev0 in \<open>auto simp: prev_def h'_def kmalloc_take_fields\<close>)
  then show ?thesis
  proof (rule kheap_inv_insert)
    show "in_heap h' (a, tot)" using blk tot by (auto simp: in_heap_def h'_def kmalloc_take_fields)
    have "span (a, tot) \<subseteq> span (a, s)" using tot(3) by (auto simp: span_def)
    moreover have "span (a, tot) \<inter> span b = {}" if "b \<in> set (rest_of tot (a, s))" for b
      using R(3)[OF that] by (auto simp: span_def)
    ultimately show "\<forall>c \<in> set (xs @ rest_of tot (a, s) @ ys) \<union> A. span (a, tot) \<inter> span c = {}"
      using apart_as by auto blast+
  qed (rule c(4))
qed

subsection \<open>kmalloc and kfree against lists of blocks\<close>

fun first_fit :: "u64 \<Rightarrow> block list \<Rightarrow> (u64 \<times> block list) option" where
  "first_fit tot [] = None"
| "first_fit tot (b # bs) =
     (if tot \<le> snd b then Some (fst b, rest_of tot b @ bs)
      else map_option (\<lambda>(a, bs'). (a, b # bs')) (first_fit tot bs))"

lemma first_fit_split:
  "\<forall>b \<in> set xs. snd b < tot \<Longrightarrow> tot \<le> s \<Longrightarrow>
     first_fit tot (xs @ (a, s) # ys) = Some (a, xs @ rest_of tot (a, s) @ ys)"
  by (induction xs) (auto simp: not_le[symmetric])

lemma first_fit_none: "\<forall>b \<in> set F. snd b < tot \<Longrightarrow> first_fit tot F = None"
  by (induction F) (auto simp: not_le[symmetric])

lemma total_size_facts:
  assumes "unat sz + 32 \<le> 2 ^ 64"
  shows "unat (24 + align_up sz 8 :: u64) = unat (align_up sz 8) + 24"
    "8 dvd unat (align_up sz 8 :: u64)" "unat sz + 24 \<le> unat (24 + align_up sz 8 :: u64)"
proof -
  have *: "unat (align_up sz 8 :: u64) = (unat sz + 7) div 8 * 8" using assms by (intro unat_align_up_8) simp
  have "(unat sz + 7) div 8 * 8 + 24 < 2 ^ 64" 
    using assms by presburger
  then show **: "unat (24 + align_up sz 8 :: u64) = unat (align_up sz 8) + 24"
    by (subst unat_add_in) (simp_all add: *)
  show "8 dvd unat (align_up sz 8 :: u64)" using * by simp
  show "unat sz + 24 \<le> unat (24 + align_up sz 8 :: u64)" unfolding ** * by linarith
qed

lemma free_list_aligned:
  assumes "kheap_inv h F A"
  shows "free_list h AND 7 = 0"
proof -
  note I = kheap_invD[OF assms]
  have "8 dvd unat (free_list h)" using I(3,5) by (cases F) (auto simp: in_heap_def)
  then have "2 ^ 3 dvd unat (free_list h)" by simp
  then have "take_bit 3 (free_list h) = 0"
    by (simp add: word_unat_eq_iff take_bit_eq_mod unat_mod)
  then show ?thesis by (simp add: take_bit_eq_mask mask_numeral)
qed

lemma kmalloc_spec:
  assumes inv: "kheap_inv h F A" and sz: "sz \<noteq> 0" "unat sz + 32 \<le> 2 ^ 64"
  defines "tot \<equiv> 24 + align_up sz 8"
  shows "case first_fit tot F of
      None \<Rightarrow> kmalloc h sz = Some (h, 0)
    | Some (a, F') \<Rightarrow> (\<exists>h'. kmalloc h sz = Some (h', a + 24) \<and> kheap_inv h' F' (insert (a, tot) A)
        \<and> (\<forall>b \<in> A. span b \<inter> span (a, tot) = {}) \<and> in_heap h (a, tot))"
proof (cases "\<exists>b \<in> set F. tot \<le> snd b")
  case False
  then have small: "\<forall>b \<in> set F. snd b < tot" by auto
  from kmalloc_walk_none[OF kheap_invD(3)[OF inv] small, of 0]
  have "kmalloc h sz = Some (h, 0)"
    using kheap_invD(1)[OF inv] sz(1) free_list_aligned[OF inv]
    by (auto simp: kmalloc_def Let_def tot_def sizeof_alloc_header_def)
  then show ?thesis using first_fit_none[OF small] by simp
next
  case True
  then have "\<exists>b \<in> set F. \<not> snd b < tot" by (auto simp: not_less)
  from split_list_first_prop[OF this]
  obtain xs b ys where F: "F = xs @ b # ys" "\<not> snd b < tot" "\<forall>b \<in> set xs. snd b < tot"
    by blast
  obtain a s where b: "b = (a, s)" by (cases b)
  note T = total_size_facts[OF sz(2), folded tot_def]
  note I = kheap_invD[OF inv]
  have fit: "unat tot \<le> unat s" using F(2) b by (simp add: word_le_nat_alt not_less)
  have blk: "in_heap h (a, s)" using I(5) F(1) b by simp
  have new: "in_heap h (a, tot)" using blk fit T by (auto simp: in_heap_def)
  have path: "fpath (cells h) (free_list h) xs a" "a \<noteq> 0" "cells h a = s"
    using I(3) F(1) b by (auto simp: fpath_append)
  let ?prev = "if xs = [] then 0 else fst (last xs)"
  have walk: "kmalloc_walk (cells h) tot 0 (free_list h) = Some (?prev, a)"
    using path F(2,3) b by (intro kmalloc_walk_fit) auto
  have ptr: "snd (kmalloc_take h (align_up sz 8) tot ?prev a) = a + 24"
    using blk I(2) by (intro kmalloc_take_ptr) (auto simp: in_heap_def heap_fits_def)
  let ?h = "fst (kmalloc_take h (align_up sz 8) tot ?prev a)"
  have "kmalloc h sz = Some (?h, a + 24)"
    using I(1) sz(1) free_list_aligned[OF inv] walk path(2) ptr
    by (auto simp: kmalloc_def Let_def tot_def sizeof_alloc_header_def prod_eq_iff)
  moreover have "kheap_inv ?h (xs @ rest_of tot (a, s) @ ys) (insert (a, tot) A)"
    using inv F(1) b T fit by (intro kmalloc_take_inv) auto
  moreover have "\<forall>b \<in> A. span b \<inter> span (a, tot) = {}"
  proof -
    have "span (a, tot) \<subseteq> span (a, s)" using fit by (auto simp: span_def)
    then show ?thesis using I(7) F(1) b by (auto simp: )
  qed
  ultimately show ?thesis
    using first_fit_split[of xs tot s a ys] F b new by auto
qed

definition join_right :: "block \<Rightarrow> block list \<Rightarrow> block list" where
  "join_right b ys = (case ys of
       [] \<Rightarrow> [b]
     | c # zs \<Rightarrow> if fst b + snd b = fst c then (fst b, snd b + snd c) # zs else b # c # zs)"

definition join_left :: "block list \<Rightarrow> block list \<Rightarrow> block list" where
  "join_left xs zs =
     (if xs \<noteq> [] \<and> zs \<noteq> [] \<and> fst (last xs) + snd (last xs) = fst (hd zs)
      then butlast xs @ (fst (last xs), snd (last xs) + snd (hd zs)) # tl zs
      else xs @ zs)"

definition free_insert :: "block \<Rightarrow> block list \<Rightarrow> block list" where
  "free_insert b F =
     join_left (takeWhile (\<lambda>c. fst c < fst b) F)
       (join_right b (dropWhile (\<lambda>c. fst c < fst b) F))"

definition head_addr :: "block list \<Rightarrow> u64" where
  "head_addr ys = (case ys of [] \<Rightarrow> 0 | c # zs \<Rightarrow> fst c)"

lemma in_heap_join:
  assumes "in_heap h b" "in_heap h c" "heap_fits h" "fst b + snd b = fst c"
  shows "unat (fst c) = unat (fst b) + unat (snd b)"
    "unat (snd b + snd c) = unat (snd b) + unat (snd c)"
    "in_heap h (fst b, snd b + snd c)"
    "span (fst b, snd b + snd c) = span b \<union> span c"
proof -
  show c: "unat (fst c) = unat (fst b) + unat (snd b)"
    using in_heap_add[OF assms(1,3), of "snd b"] assms(4) by simp
  show s: "unat (snd b + snd c) = unat (snd b) + unat (snd c)"
    using assms(1-3) c by (intro unat_add_in) (auto simp: in_heap_def heap_fits_def)
  show "in_heap h (fst b, snd b + snd c)"
    using assms(1,2) c s by (auto simp: in_heap_def)
  show "span (fst b, snd b + snd c) = span b \<union> span c"
    using c s by (auto simp: span_def)
qed

lemma link_right:
  assumes inv: "kheap_inv h (xs @ ys) A" and b: "(a, tot) \<in> A" and ge: "\<forall>c \<in> set ys. a \<le> fst c"
  defines "m \<equiv> (cells h)(a := tot, a + 8 := 0)"
  defines "m1 \<equiv> (if head_addr ys \<noteq> 0 \<and> a + m a = head_addr ys
                then m(a := m a + m (head_addr ys), a + 8 := m (head_addr ys + 8))
                else m(a + 8 := head_addr ys))"
  obtains s' ys' where "join_right (a, tot) ys = (a, s') # ys'" "fpath (cells h) (m1 (a + 8)) ys' 0"
    "m1 a = s'" "\<forall>x. unat x \<notin> span (a, s') \<longrightarrow> m1 x = cells h x" "in_heap h (a, s')"
    "\<forall>c \<in> set ys'. unat a + unat s' < unat (fst c)" "apart ys'" "set ys' \<subseteq> set ys"
    "\<forall>c \<in> set xs \<union> set ys' \<union> (A - {(a, tot)}). span c \<inter> span (a, s') = {}"
proof -
  note I = kheap_invD[OF inv]
  have hb: "in_heap h (a, tot)" using I(6) b by auto
  have ne: "a + 8 \<noteq> a" by simp
  have ap: "apart ys" using I(4) by (simp add: apart_append)
  have path: "fpath (cells h) (head_addr ys) ys 0"
    using I(3) by (cases ys) (auto simp: fpath_append head_addr_def)
  have dis: "\<forall>c \<in> set (xs @ ys) \<union> (A - {(a, tot)}). span c \<inter> span (a, tot) = {}"
    using I(7,8) b by blast
  have sp: "unat a \<in> span (a, tot)" "unat (a + 8) \<in> span (a, tot)"
    using cell_in_span[OF hb I(2)] by auto
  show ?thesis
  proof (cases "ys \<noteq> [] \<and> a + tot = fst (hd ys)")
    case True
    then obtain c t zs where ys: "ys = (c, t) # zs" "a + tot = c" by (cases ys) auto
    have hc: "in_heap h (c, t)" using I(5) ys by auto
    note J = in_heap_join[OF hb hc I(2), simplified, OF ys(2)]
    have c0: "c \<noteq> 0" "cells h c = t" "fpath (cells h) (cells h (c + 8)) zs 0"
      using path ys(1) by (auto simp: head_addr_def)
    have "unat c \<in> span (c, t)" "unat (c + 8) \<in> span (c, t)" using cell_in_span[OF hc I(2)] by auto
    then have "c \<notin> {a, a + 8}" "c + 8 \<notin> {a, a + 8}"
      using dis ys(1) sp by auto
    then have m: "m c = t" "m (c + 8) = cells h (c + 8)" "m a = tot"
      using c0(2) ne by (auto simp: m_def)
    have m1: "m1 = m(a := tot + t, a + 8 := cells h (c + 8))"
      using m c0 ys by (simp add: m1_def head_addr_def)
    show ?thesis
    proof (rule that)
      show "join_right (a, tot) ys = (a, tot + t) # zs" using ys by (simp add: join_right_def)
      show "\<forall>x. unat x \<notin> span (a, tot + t) \<longrightarrow> m1 x = cells h x"
        using sp unfolding J(4) m1 m_def by auto
      show "\<forall>d \<in> set xs \<union> set zs \<union> (A - {(a, tot)}). span d \<inter> span (a, tot + t) = {}"
        unfolding J(4) using dis ys(1) I(7) apart_span[of xs "(c, t)" zs] I(4)
        by (simp add: Int_Un_distrib ball_Un)
    qed (use J(3) c0(3) ap ys J(1,2) in \<open>auto simp: m1 apart_Cons\<close>)
  next
    case False
    have m1: "m1 = m(a + 8 := head_addr ys)"
      using False by (auto simp: m1_def m_def head_addr_def split: list.splits)
    show ?thesis
    proof (rule that)
      show "join_right (a, tot) ys = (a, tot) # ys"
        using False by (auto simp: join_right_def split: list.splits)
      show "\<forall>c \<in> set ys. unat a + unat tot < unat (fst c)"
      proof (cases ys)
        case (Cons d zs)
        have "in_heap h d" using I(5) Cons by auto
        note cell_in_span(1)[OF this I(2)]
        then have "unat (fst d) \<notin> span (a, tot)" using dis Cons by auto
        moreover have "unat (fst d) \<noteq> unat (a + tot)"
          using False Cons unfolding word_unat_eq_iff[symmetric] by auto
        ultimately have "unat a + unat tot < unat (fst d)"
          using ge Cons in_heap_add[OF hb I(2), of tot] by (auto simp: span_def word_le_nat_alt)
        then show ?thesis using ap Cons by (fastforce simp: apart_Cons)
      qed simp
    qed (use path hb ap dis sp in \<open>auto simp: m1 m_def\<close>)
  qed
qed

lemma fpath_last: "fpath m p xs q \<Longrightarrow> xs \<noteq> [] \<Longrightarrow> m (fst (last xs)) = snd (last xs) \<and> m (fst (last xs) + 8) = q"
  by (induction xs arbitrary: p) auto

definition link_left :: "kheap \<Rightarrow> (u64 \<Rightarrow> u64) \<Rightarrow> u64 \<Rightarrow> u64 \<Rightarrow> kheap" where
  "link_left h m1 a prev = (if prev \<noteq> 0 \<and> prev + m1 prev = a
         then h\<lparr>cells := m1(prev := m1 prev + m1 a, prev + 8 := m1 (a + 8))\<rparr>
         else if prev \<noteq> 0 then h\<lparr>cells := m1(prev + 8 := a)\<rparr>
         else h\<lparr>cells := m1, free_list := a\<rparr>)"

lemma link_left_inv:
  assumes init: "heap_initialized h" and fits: "heap_fits h" and hp: "\<forall>b \<in> set (xs @ ys). in_heap h b"
    and A: "\<forall>b \<in> A. in_heap h b \<and> live_header h b"
    and xs: "fpath (cells h) (free_list h) xs q" and ys: "fpath (cells h) (m1 (a + 8)) ys 0"
    and AF: "\<forall>b \<in> A. \<forall>c \<in> set (xs @ ys). span b \<inter> span c = {}"
    and AA: "\<forall>b \<in> A. \<forall>c \<in> A. b \<noteq> c \<longrightarrow> span b \<inter> span c = {}"
    and S: "\<forall>c \<in> set xs \<union> set ys \<union> A. span c \<inter> span (a, m1 a) = {}"
    and hb: "in_heap h (a, m1 a)" and ap: "apart (xs @ ys)"
    and le: "\<forall>c \<in> set xs. unat (fst c) + unat (snd c) \<le> unat a"
    and ge: "\<forall>c \<in> set ys. unat a + unat (m1 a) < unat (fst c)"
    and frame: "\<forall>x. unat x \<notin> span (a, m1 a) \<longrightarrow> m1 x = cells h x"
  shows "kheap_inv (link_left h m1 a (if xs = [] then 0 else fst (last xs)))
           (join_left xs ((a, m1 a) # ys)) A"
proof (cases "xs = []")
  case True
  have "kheap_inv (h\<lparr>cells := m1, free_list := a\<rparr>) ([] @ [(a, m1 a)] @ ys) A"
    by (rule relink_inv[where xs = "[]" and nxt = a and S = "span (a, m1 a)" and r = "m1 (a + 8)" and q = "free_list h"
        and h = h])
     (use assms True in_heap_nonzero[OF hb fits] in \<open>simp_all add: apart_Cons\<close>)
  then show ?thesis using True by (simp add: link_left_def join_left_def)
next
  case False
  then obtain xs0 p t where xs0: "xs = xs0 @ [(p, t)]" by (cases xs rule: rev_cases) auto
  have pt: "in_heap h (p, t)" using hp xs0 by simp
  have p0: "p \<noteq> 0" using in_heap_nonzero[OF pt fits] by simp
  have a0: "a \<noteq> 0" using in_heap_nonzero[OF hb fits] by simp
  have out: "unat p \<notin> span (a, m1 a)" "unat (p + 8) \<notin> span (a, m1 a)" 
    using cell_in_span[OF pt fits] S xs0 by auto
  have sp: "unat a \<in> span (a, m1 a)" "unat (a + 8) \<in> span (a, m1 a)"
    using cell_in_span[OF hb fits] by auto
  have ne: "p + 8 \<noteq> a" "p + 8 \<noteq> a + 8" "p \<noteq> a" "p \<noteq> a + 8" using out sp by auto
  have m1p: "m1 p = t" using frame out fpath_last[OF xs] xs0 by simp
  have lk: "link_left h m1 a p = (if p + t = a
         then h\<lparr>cells := m1(p := t + m1 a, p + 8 := m1 (a + 8))\<rparr>
         else h\<lparr>cells := m1(p + 8 := a)\<rparr>)"
    using p0 m1p by (simp add: link_left_def)
  show ?thesis
  proof (cases "p + t = a")
    case no: False
    have "unat p + unat t \<noteq> unat a"
      using no in_heap_add[OF pt fits, of t] by (auto simp: word_unat_eq_iff)
    then have lt: "\<forall>c \<in> set xs. unat (fst c) + unat (snd c) < unat a"
      using le ap unfolding xs0 by (auto simp: apart_append)
    have "kheap_inv (h\<lparr>cells := m1(p + 8 := a)\<rparr>) (xs @ [(a, m1 a)] @ ys) A"
    proof (rule relink_inv[OF init fits hp A xs ys _ AF AA S])
      show "apart (xs @ [(a, m1 a)] @ ys)"
        using ap lt ge by (auto simp: apart_append apart_Cons)
          show "fpath (cells (h\<lparr>cells := m1(p + 8 := a)\<rparr>)) a [(a, m1 a)] (m1 (a + 8))"
        using a0 ne by auto
    qed (use hb frame xs0 in simp_all)
    then show ?thesis using no lk xs0 by (simp add: join_left_def)
  next
    case yes: True
    note K = in_heap_join[OF pt hb fits, simplified, OF yes]
    have q0: "fpath (cells h) (free_list h) xs0 p" using xs xs0 by (auto simp: fpath_append)
    have hp0: "\<forall>b \<in> set (xs0 @ ys). in_heap h b" and AF0: "\<forall>b \<in> A. \<forall>c \<in> set (xs0 @ ys). span b \<inter> span c = {}"
      using hp AF xs0 by auto
    have S0: "\<forall>c \<in> set xs0 \<union> set ys \<union> A. span c \<inter> span (p, t + m1 a) = {}"
      unfolding K(4) using S AF apart_span[of xs0 "(p, t)" ys] ap xs0 by (simp add: Int_Un_distrib ball_Un)
    have prev: "m1 (fst (last xs0) + 8) = p" "fst (last xs0) + 8 \<noteq> p" "fst (last xs0) + 8 \<noteq> p + 8" if "xs0 \<noteq> []"
    proof -
      have "unat (fst (last xs0) + 8) \<in> span (last xs0)"
        using that hp0 by (intro cell_in_span[OF _ fits]) auto
      then have *: "unat (fst (last xs0) + 8) \<notin> span (p, t + m1 a)"
        using S0 last_in_set[OF that] by blast
      then show "m1 (fst (last xs0) + 8) = p"
        using frame fpath_last[OF q0 that] unfolding K(4) by auto
      show "fst (last xs0) + 8 \<noteq> p" "fst (last xs0) + 8 \<noteq> p + 8"
        using * cell_in_span[OF pt fits] unfolding K(4) by auto
    qed
    have "kheap_inv (h\<lparr>cells := m1(p := t + m1 a, p + 8 := m1 (a + 8))\<rparr>) (xs0 @ [(p, t + m1 a)] @ ys) A"
    proof (rule relink_inv[OF init fits hp0 A q0 ys _ AF0 AA S0])
      show "apart (xs0 @ [(p, t + m1 a)] @ ys)"
        using ap ge K(1,2) xs0 by (auto simp: apart_append apart_Cons)
      show "\<And>x. unat x \<notin> span (p, t + m1 a) \<Longrightarrow> xs0 = [] \<or> x \<noteq> fst (last xs0) + 8 \<Longrightarrow>
           cells (h\<lparr>cells := m1(p := t + m1 a, p + 8 := m1 (a + 8))\<rparr>) x = cells h x"
        using frame cell_in_span[OF pt fits] unfolding K(4) by auto
      show "free_list (h\<lparr>cells := m1(p := t + m1 a, p + 8 := m1 (a + 8))\<rparr>) = (if xs0 = [] then p else free_list h)"
        using q0 by auto
    qed (use K p0 prev in simp_all)
    then show ?thesis using yes lk xs0 by (simp add: join_left_def)
  qed
qed

lemma kfree_link_inv:
  assumes inv: "kheap_inv h (xs @ ys) A" and b: "(a, tot) \<in> A"
    and lt: "\<forall>c \<in> set xs. fst c < a" and ge: "\<forall>c \<in> set ys. a \<le> fst c"
  shows "kheap_inv (kfree_link (h\<lparr>cells := (cells h)(a := tot, a + 8 := 0)\<rparr>) a
             (if xs = [] then 0 else fst (last xs)) (head_addr ys))
           (join_left xs (join_right (a, tot) ys)) (A - {(a, tot)})"
    and "8 dvd unat (cells (kfree_link (h\<lparr>cells := (cells h)(a := tot, a + 8 := 0)\<rparr>) a
             (if xs = [] then 0 else fst (last xs)) (head_addr ys)) a)"
proof -
  note I = kheap_invD[OF inv]
  define m where "m = (cells h)(a := tot, a + 8 := 0)"
  define m1 where "m1 = (if head_addr ys \<noteq> 0 \<and> a + m a = head_addr ys
                then m(a := m a + m (head_addr ys), a + 8 := m (head_addr ys + 8))
                else m(a + 8 := head_addr ys))"
  obtain s' ys' where J: "join_right (a, tot) ys = (a, s') # ys'" "fpath (cells h) (m1 (a + 8)) ys' 0"
    "m1 a = s'" "\<forall>x. unat x \<notin> span (a, s') \<longrightarrow> m1 x = cells h x" "in_heap h (a, s')"
    "\<forall>c \<in> set ys'. unat a + unat s' < unat (fst c)" "apart ys'" "set ys' \<subseteq> set ys"
    "\<forall>c \<in> set xs \<union> set ys' \<union> (A - {(a, tot)}). span c \<inter> span (a, s') = {}"
    by (rule link_right[OF inv b ge, folded m_def, folded m1_def])
  obtain q where q: "fpath (cells h) (free_list h) xs q" using I(3) by (auto simp: fpath_append)
  have ends: "\<forall>c \<in> set xs. unat (fst c) + unat (snd c) \<le> unat a"
  proof
    fix c assume "c \<in> set xs"
    then have "unat a \<notin> span c" "fst c < a" using J(9) lt cell_in_span(1)[OF J(5) I(2)] by auto
    then show "unat (fst c) + unat (snd c) \<le> unat a"
      by (simp add: span_def word_less_nat_alt not_less)
  qed
  have "kheap_inv (link_left h m1 a (if xs = [] then 0 else fst (last xs)))
           (join_left xs ((a, m1 a) # ys')) (A - {(a, tot)})"
  proof (rule link_left_inv[OF I(1,2) _ _ q])
    show "apart (xs @ ys')" using I(4) J(7,8) by (auto simp: apart_append)
    show "\<forall>b\<in>A - {(a, tot)}. \<forall>c\<in>set (xs @ ys'). span b \<inter> span c = {}" using I(7) J(8) by auto
    show "\<forall>b \<in> set (xs @ ys'). in_heap h b" using I(5) J(8) by auto
  qed (use I(6,8) J ends in blast)+
  moreover have link: "kfree_link (h\<lparr>cells := m\<rparr>) a prev (head_addr ys) = link_left h m1 a prev" for prev
    by (simp add: kfree_link_def Let_def m1_def link_left_def)
  ultimately show "kheap_inv (kfree_link (h\<lparr>cells := (cells h)(a := tot, a + 8 := 0)\<rparr>) a
             (if xs = [] then 0 else fst (last xs)) (head_addr ys))
           (join_left xs (join_right (a, tot) ys)) (A - {(a, tot)})"
    using J(1,3) by (simp add: m_def)
  have "fst (last xs) \<noteq> a \<and> fst (last xs) + 8 \<noteq> a" if "xs \<noteq> []"
    using that I(5) J(9) cell_in_span(1,2)[OF _ I(2), of "last xs"] cell_in_span(1)[OF J(5) I(2)] last_in_set[OF that]
    by fastforce
  then show "8 dvd unat (cells (kfree_link (h\<lparr>cells := (cells h)(a := tot, a + 8 := 0)\<rparr>) a
             (if xs = [] then 0 else fst (last xs)) (head_addr ys)) a)"
    using J(3,5) by (auto simp: link[unfolded m_def] link_left_def in_heap_def)
qed

lemma kfree_spec:
  assumes inv: "kheap_inv h F A" and b: "(a, tot) \<in> A"
  shows "\<exists>h'. kfree h (a + 24) = Some h' \<and> kheap_inv h' (free_insert (a, tot) F) (A - {(a, tot)})
    \<and> heap_initialized h' \<and> 8 dvd unat (cells h' a)"
proof -
  note I = kheap_invD[OF inv]
  have hb: "in_heap h (a, tot)" "live_header h (a, tot)" using I(6) b by auto
  let ?lt = "\<lambda>c. fst c < a"
  define xs ys where "xs = takeWhile ?lt F" and "ys = dropWhile ?lt F"
  let ?h1 = "h\<lparr>cells := (cells h)(a := tot, a + 8 := 0)\<rparr>"
  let ?prev = "if xs = [] then 0 else fst (last xs)"
  have F: "F = xs @ ys" by (simp add: xs_def ys_def)
  have lt: "\<forall>c \<in> set xs. fst c < a" by (auto simp: xs_def dest: set_takeWhileD)
  have hd: "ys \<noteq> [] \<Longrightarrow> a \<le> fst (hd ys)" 
    using hd_dropWhile[of ?lt F] by (auto simp: ys_def not_less)
  have ge: "\<forall>c \<in> set ys. a \<le> fst c"
    using I(4) hd unfolding F by (cases ys) (fastforce simp: apart_append apart_Cons word_le_nat_alt)+
  have path: "fpath (cells ?h1) (free_list h) F 0"
  proof (subst fpath_cong)
    show "\<forall>c\<in>set F. cells ?h1 (fst c) = cells h (fst c) \<and> cells ?h1 (fst c + 8) = cells h (fst c + 8)"
    proof
      fix c assume c: "c \<in> set F"
      have "unat (fst c) \<notin> span (a, tot)" "unat (fst c + 8) \<notin> span (a, tot)"
        using cell_in_span[OF _ I(2), of c] I(5,7) b c by auto
      then show "cells ?h1 (fst c) = cells h (fst c) \<and> cells ?h1 (fst c + 8) = cells h (fst c + 8)"
        using cell_in_span[OF hb(1) I(2)] by auto
    qed
  qed (rule I(3))
  then have "fpath (cells ?h1) (free_list h) xs (head_addr ys)"
    unfolding F by (cases ys) (auto simp: fpath_append head_addr_def)
  then have walk: "kfree_walk (cells ?h1) a 0 (free_list h) = Some (?prev, head_addr ys)"
    by (rule kfree_walk_split[OF _ lt]) (use ge in \<open>auto simp: head_addr_def split: list.splits\<close>)
  have sz: "24 + align_up (hdr_size (cells h) a) 8 = tot"
  proof -
    have "hdr_size (cells h) a = tot - 24"
      using hb(2) by (auto simp: live_header_def sizeof_alloc_header_def)
    moreover have "unat (tot - 24) = unat tot - 24"
      using hb(1) by (simp add: in_heap_def unat_sub word_le_nat_alt)
    ultimately have "align_up (hdr_size (cells h) a) 8 = tot - 24"
      using hb(1) by (simp add: align_up_8 in_heap_def)
    then show ?thesis by simp
  qed
  have nz: "a + 24 \<noteq> 0"
    using in_heap_nonzero[OF hb(1) I(2)] in_heap_add[OF hb(1) I(2), of 24] hb(1)
    by (intro unat_neq) (simp add: in_heap_def)
  have "kfree h (a + 24) = Some (kfree_link ?h1 a ?prev (head_addr ys))"
    using I(1) hb(2) walk sz nz
    by (simp add: kfree_def Let_def live_header_def sizeof_alloc_header_def)
  then show ?thesis
    using kfree_link_inv[OF inv[unfolded F] b lt ge]
    by (auto dest: kheap_invD(1) simp: free_insert_def xs_def[symmetric] ys_def[symmetric])
qed

subsection \<open>Initialisation, payload writes and the remaining operations\<close>

lemma init_kernel_heap_region_inv:
  assumes "base \<noteq> 0" "unat base + unat sz + 24 < 2 ^ 64" "8 dvd unat base + unat sz" "64 * 1024 + 8 \<le> unat sz"
  shows "\<exists>h'. init_kernel_heap_region h base sz = (True, h') \<and>
           kheap_inv h' [(heap_base h', heap_size h' - 16)] {} \<and>
           unat base \<le> unat (heap_base h') \<and>
           unat (heap_base h') + unat (heap_size h') = unat base + unat sz"
proof -
  let ?b = "align_up base 8"
  let ?sz = "sz - (?b - base)"
  have b: "unat ?b = (unat base + 7) div 8 * 8" using assms(2,4) by (intro unat_align_up_8) simp
  have le: "unat base \<le> unat ?b" "unat ?b \<le> unat base + 7" unfolding b by linarith+
  have loss: "unat (?b - base) = unat ?b - unat base" using le(1) by (intro unat_sub) (simp add: word_le_nat_alt)
  have lt: "unat (?b - base) < unat sz" using loss le assms(4) by linarith
  have s: "unat ?sz = unat sz - (unat ?b - unat base)"
    using lt by (subst unat_sub) (auto simp: word_le_nat_alt loss)
  have s16: "unat (?sz - 16) = unat ?sz - 16"
    using s le assms(4) by (subst unat_sub) (auto simp: word_le_nat_alt)
  have "8 dvd unat ?b" using b by simp
  moreover have "8 dvd unat ?sz"
    using s le assms(3,4) \<open>8 dvd unat ?b\<close> by (auto simp: )  presburger
  moreover from calculation(2) have "8 dvd unat ?sz - 16" by simp
  moreover have "0 < unat base" using assms(1) by (simp add: unat_gt_0)
  ultimately have inv: "in_heap (h\<lparr>heap_base := ?b, heap_size := ?sz\<rparr>) (?b, ?sz - 16)" "heap_fits (h\<lparr>heap_base := ?b, heap_size := ?sz\<rparr>)"
    using s s16 le assms(2,4) by (auto simp: in_heap_def heap_fits_def)
  define h' where "h' = h\<lparr>heap_base := ?b, heap_size := ?sz, heap_initialized := True, free_list := ?b,
    cells := (memset0 (cells h) ?b ?sz)(?b := ?sz - 16, ?b + 8 := 0)\<rparr>"
  have "init_kernel_heap_region h base sz = (True, h')"
    using assms(1,4) le lt s
    by (simp add: init_kernel_heap_region_def Let_def h'_def sizeof_free_block_def word_less_nat_alt word_le_nat_alt not_less not_le)
  moreover have "kheap_inv h' [(heap_base h', heap_size h' - 16)] {}"
    using inv in_heap_nonzero[OF inv]
    by (simp add: kheap_inv_def h'_def apart_def in_heap_def heap_fits_def)
  moreover have "unat base \<le> unat (heap_base h')" "unat (heap_base h') + unat (heap_size h') = unat base + unat sz"
    using le s lt assms(4) by (simp_all add: h'_def)
  ultimately show ?thesis by blast
qed

lemma kheap_inv_payload_write:
  assumes inv: "kheap_inv h F A" and b: "(a, tot) \<in> A"
    and same: "\<And>x. \<not> (unat a + 24 \<le> unat x \<and> unat x < unat a + unat tot) \<Longrightarrow> m x = cells h x"
  shows "kheap_inv (h\<lparr>cells := m\<rparr>) F A"
proof -
  note I = kheap_invD[OF inv]
  have hb: "in_heap h (a, tot)" using I(6) b by auto
  have other: "m x = cells h x" if "unat x \<in> span c" "span c \<inter> span (a, tot) = {}" for x c
    using that by (intro same) (auto simp: span_def)
  have cells: "m (fst c) = cells h (fst c) \<and> m (fst c + 8) = cells h (fst c + 8) \<and>
    m (fst c + 16) = cells h (fst c + 16)" if c: "c \<in> set F \<union> A" for c
  proof (cases "c = (a, tot)")
    case True
    then show ?thesis
      using in_heap_add[OF hb I(2), of 8] in_heap_add[OF hb I(2), of 16] hb by (auto intro!: same simp: in_heap_def)
  next
    case False
    have "span c \<inter> span (a, tot) = {}" using c False I(7,8) b by blast
    moreover have "in_heap h c" using c I(5,6) by auto
    ultimately show ?thesis
      using cell_in_span[OF _ I(2), of c] by (auto intro: other)
  qed
  have "fpath m (free_list h) F 0" using I(3) cells by (subst fpath_cong[of F m "cells h"]) auto
  moreover have "\<forall>c \<in> A. live_header (h\<lparr>cells := m\<rparr>) c"
  proof
    fix c assume c: "c \<in> A"
    have "live_header (h\<lparr>cells := m\<rparr>) c = live_header h c"
      using cells[of c] c by (intro live_header_cong) auto
    then show "live_header (h\<lparr>cells := m\<rparr>) c" using I(6) c by simp
  qed
  ultimately show ?thesis using I unfolding kheap_inv_def by (auto simp: in_heap_def heap_fits_def)
qed

lemma freed_canary: 
  assumes "8 dvd unat (x :: u64)"
  shows "(ucast x :: u32) \<noteq> ALLOC_MAGIC_START"
proof
  assume "ucast x = ALLOC_MAGIC_START"
  then have "unat (ucast x :: u32) = 0xDEADBEEF" by (simp add: ALLOC_MAGIC_START_def)
  then have "unat x mod 2 ^ 32 = 0xDEADBEEF" by (simp add: unsigned_ucast_eq take_bit_eq_mod)
  moreover have "2 dvd unat x mod 2 ^ 32" using assms by (intro dvd_mod) auto
  ultimately show False by simp
qed

lemma kfree_rejects:
  assumes "hdr_magic_start (cells h) (p - 24) \<noteq> ALLOC_MAGIC_START \<or>
    hdr_magic_end (cells h) (p - 24) \<noteq> ALLOC_MAGIC_END"
  shows "kfree h p = Some h"
  using assms by (auto simp: kfree_def Let_def sizeof_alloc_header_def)

lemma memset0_payload:
  assumes "in_heap h (a, tot)" "heap_fits h" "unat sz + 24 \<le> unat tot"
    "\<not> (unat a + 24 \<le> unat x \<and> unat x < unat a + unat tot)"
  shows "memset0 m (a + 24) sz x = m x"
  using assms in_heap_add[OF assms(1,2), of 24] by (auto simp: memset0_def in_heap_def)

lemma kzalloc_spec:
  assumes inv: "kheap_inv h F A" and sz: "sz \<noteq> 0" "unat sz + 32 \<le> 2 ^ 64"
  defines "tot \<equiv> 24 + align_up sz 8"
  shows "case first_fit tot F of
      None \<Rightarrow> kzalloc h sz = Some (h, 0)
    | Some (a, F') \<Rightarrow> (\<exists>h'. kzalloc h sz = Some (h', a + 24) \<and> kheap_inv h' F' (insert (a, tot) A)
        \<and> (\<forall>x. unat (a + 24) \<le> unat x \<and> unat x + 8 \<le> unat (a + 24) + unat sz \<longrightarrow> cells h' x = 0))"
proof (cases "first_fit tot F")
  case None
  then show ?thesis using kmalloc_spec[OF inv sz] by (simp add: tot_def kzalloc_def)
next
  case (Some r)
  obtain a F' where r: "r = (a, F')" by (cases r)
  then obtain h1 where h1: "kmalloc h sz = Some (h1, a + 24)" "kheap_inv h1 F' (insert (a, tot) A)"
    "in_heap h (a, tot)"
    using kmalloc_spec[OF inv sz] Some by (auto simp: tot_def)
  have hb: "in_heap h1 (a, tot)" "heap_fits h1" using kheap_invD[OF h1(2)] by auto
  have "unat (a + 24) = unat a + 24"
    using in_heap_add[OF hb, of 24] hb(1) by (simp add: in_heap_def)
  then have "a + 24 \<noteq> 0" by (intro unat_neq) simp
  then have "kzalloc h sz = Some (h1\<lparr>cells := memset0 (cells h1) (a + 24) sz\<rparr>, a + 24)"
    using h1(1) by (simp add: kzalloc_def)
  moreover have "kheap_inv (h1\<lparr>cells := memset0 (cells h1) (a + 24) sz\<rparr>) F' (insert (a, tot) A)"
    using total_size_facts(3)[OF sz(2)] 
    by (intro kheap_inv_payload_write[OF h1(2), of a tot] memset0_payload[OF hb]) (auto simp: tot_def)
  ultimately show ?thesis using Some r by (auto simp: memset0_def)
qed

lemma kheap_stats_walk_path:
  assumes "fpath m p F 0"
  shows "kheap_stats_walk m p ls t c =
    Some (ls @ map (\<lambda>b. (fst b, ucast (snd b))) F, t + sum_list (map snd F), c + int (length F))"
  using assms
proof (induction F arbitrary: p ls t c)
  case Nil
  then show ?case by (simp add: kheap_stats_walk.simps)
next
  case (Cons b F)
  then show ?case by (subst kheap_stats_walk.simps) (auto simp: add.assoc)
qed

subsection \<open>The allocator interface\<close>

definition blk_of :: "block \<Rightarrow> block" where
  "blk_of b = (fst b - 24, 24 + align_up (snd b) 8)"

definition kheap_live :: "kheap \<Rightarrow> block list \<Rightarrow> bool" where
  "kheap_live h L \<longleftrightarrow> (\<exists>F. kheap_inv h F (blk_of ` set L)) \<and> distinct (map fst L) \<and>
     (\<forall>b \<in> set L. unat (snd b) + 32 \<le> 2 ^ 64)"

definition kheap_arena :: "kheap \<Rightarrow> nat set" where
  "kheap_arena h = {unat (heap_base h) ..< unat (heap_base h) + unat (heap_size h)}"

lemma kmalloc_arena: "kmalloc h n = Some (h', p) \<Longrightarrow> kheap_arena h' = kheap_arena h"
  by (auto simp: kmalloc_def kheap_arena_def Let_def split: if_splits option.splits prod.splits
      dest!: arg_cong[of _ _ fst] simp: kmalloc_take_fields)

lemma kfree_arena: "kfree h p = Some h' \<Longrightarrow> kheap_arena h' = kheap_arena h"
  by (auto simp: kfree_def kfree_link_def kheap_arena_def Let_def split: if_splits option.splits prod.splits)

lemma kheap_live_block:
  assumes "kheap_live h L" "b \<in> set L"
  shows "in_heap h (blk_of b)" "unat (fst b) = unat (fst (blk_of b)) + 24" "span b \<subseteq> span (blk_of b)"
    "8 dvd unat (fst b)"
proof -
  obtain F where F: "kheap_inv h F (blk_of ` set L)" using assms(1) by (auto simp: kheap_live_def)
  note I = kheap_invD[OF F]
  show hb: "in_heap h (blk_of b)" using I(6) assms(2) by auto
  show u: "unat (fst b) = unat (fst (blk_of b)) + 24"
    using in_heap_add[OF hb I(2), of 24] hb by (simp add: in_heap_def blk_of_def)
  have "unat (snd b) + 24 \<le> unat (snd (blk_of b))"
    using assms total_size_facts(3)[of "snd b"] by (auto simp: kheap_live_def blk_of_def)
  then show "span b \<subseteq> span (blk_of b)" using u by (auto simp: span_def)
  show "8 dvd unat (fst b)" using u hb by (simp add: in_heap_def)
qed

interpretation kheap: block_allocator kheap_live span kheap_arena 8 "\<lambda>n. unat n + 32 \<le> 2 ^ 64" kmalloc kfree
proof
  fix h L and n :: u64
  assume v: "kheap_live h L" and n: "unat n + 32 \<le> 2 ^ 64"
  then obtain F where F: "kheap_inv h F (blk_of ` set L)" by (auto simp: kheap_live_def)
  show "kmalloc h n = Some (h, 0) \<or> (\<exists>h' p. kmalloc h n = Some (h', p) \<and> p \<noteq> 0 \<and>
      kheap_live h' ((p, n) # L) \<and> kheap_arena h' = kheap_arena h)"
  proof (cases "n = 0 \<or> first_fit (24 + align_up n 8) F = None")
    case True
    then show ?thesis using kmalloc_spec[OF F _ n] by (auto simp: kmalloc_def)
  next
    case False
    then obtain a F' where ff: "first_fit (24 + align_up n 8) F = Some (a, F')" by auto
    let ?tot = "24 + align_up n 8"
    obtain h' where h': "kmalloc h n = Some (h', a + 24)" "kheap_inv h' F' (insert (a, ?tot) (blk_of ` set L))"
      "\<forall>b \<in> blk_of ` set L. span b \<inter> span (a, ?tot) = {}" "in_heap h (a, ?tot)"
      using kmalloc_spec[OF F _ n] False ff by auto
    have "a + 24 \<noteq> 0"
      using in_heap_add[OF h'(4) kheap_invD(2)[OF F], of 24] h'(4)
      by (intro unat_neq) (simp add: in_heap_def)
    moreover have "a + 24 \<notin> fst ` set L"
    proof
      assume "a + 24 \<in> fst ` set L"
      then obtain b where b: "b \<in> set L" "fst b = a + 24" by auto
      then have "fst (blk_of b) = a" by (simp add: blk_of_def)
      then have "unat a \<in> span (blk_of b)"
        using cell_in_span(1)[OF kheap_live_block(1)[OF v b(1)] kheap_invD(2)[OF F]] by simp
      then show False using cell_in_span(1)[OF h'(4) kheap_invD(2)[OF F]] h'(3) b(1) by auto
    qed
    moreover have "blk_of ` set ((a + 24, n) # L) = insert (a, ?tot) (blk_of ` set L)"
      by (simp add: blk_of_def)
    ultimately show ?thesis
      using h'(1,2) v n kmalloc_arena by (fastforce simp: kheap_live_def)
  qed
next
  fix h xs p n ys
  assume v: "kheap_live h (xs @ (p, n) # ys)"
  then obtain F where F: "kheap_inv h F (blk_of ` set (xs @ (p, n) # ys))" by (auto simp: kheap_live_def)
  obtain a tot where at: "blk_of (p, n) = (a, tot)" "a + 24 = p" by (simp add: blk_of_def)
  obtain h' where h': "kfree h p = Some h'"
    "kheap_inv h' (free_insert (a, tot) F) (blk_of ` set (xs @ (p, n) # ys) - {(a, tot)})"
    using kfree_spec[OF F, of a tot] at by auto
  moreover have "blk_of ` set (xs @ (p, n) # ys) - {(a, tot)} = blk_of ` set (xs @ ys)"
  proof -
    have "fst ` set (xs @ ys) \<inter> {p} = {}" using v by (auto simp: kheap_live_def)
    then have "(a, tot) \<notin> blk_of ` set (xs @ ys)" using at(2) by (fastforce simp: blk_of_def image_iff)
    then show ?thesis using at(1) by auto
  qed
  ultimately show "\<exists>h'. kfree h p = Some h' \<and> kheap_live h' (xs @ ys) \<and> kheap_arena h' = kheap_arena h"
    using v kfree_arena[OF h'(1)] by (auto simp: kheap_live_def)
next
  fix h L
  assume v: "kheap_live h L"
  then obtain F where F: "kheap_inv h F (blk_of ` set L)" by (auto simp: kheap_live_def)
  have "span b \<inter> span c = {}" if "b \<in> set L" "c \<in> set L" "fst b \<noteq> fst c" for b c
  proof -
    have "blk_of b \<noteq> blk_of c" using that(3) by (simp add: blk_of_def)
    then show ?thesis
      using kheap_invD(8)[OF F] kheap_live_block(3)[OF v that(1)] kheap_live_block(3)[OF v that(2)] that(1,2)
      by blast
  qed
  note dis = this
  show "sorted_wrt (\<lambda>b c. span b \<inter> span c = {}) L"
    unfolding sorted_wrt_iff_nth_less
  proof (intro allI impI)
    fix i j assume ij: "i < j" "j < length L"
    have "distinct (map fst L)" using v by (simp add: kheap_live_def)
    then have "fst (L ! i) \<noteq> fst (L ! j)"
      using ij nth_eq_iff_index_eq[of "map fst L" i j] by simp
    then show "span (L ! i) \<inter> span (L ! j) = {}" using ij by (intro dis) auto
  qed
next
  fix h L b
  assume v: "kheap_live h L" and b: "b \<in> set L"
  then obtain F where F: "kheap_inv h F (blk_of ` set L)" by (auto simp: kheap_live_def)
  show "8 dvd unat (fst b) \<and> span b \<subseteq> kheap_arena h"
    using kheap_live_block[OF v b] by (auto simp: in_heap_def span_def kheap_arena_def)
qed

subsection \<open>A concrete heap, and accounting\<close>

definition free_bytes :: "block list \<Rightarrow> nat" where
  "free_bytes F = sum_list (map (unat \<circ> snd) F)"

definition boot_heap :: kheap where
  "boot_heap = \<lparr>heap_base = 0, heap_size = 0, heap_initialized = False, free_list = 0, cells = (\<lambda>_. 0)\<rparr>"

definition demo_heap :: kheap where
  "demo_heap = snd (init_kernel_heap_region boot_heap 0x1000 0x20000)"

lemma demo_heap_inv: "kheap_inv demo_heap [(0x1000, 0x1FFF0)] {}"
proof -
  have *: "heap_base demo_heap = 0x1000" "heap_size demo_heap = 0x20000"
    by (simp_all add: demo_heap_def init_kernel_heap_region_def Let_def boot_heap_def align_up_def)
  show ?thesis
    using init_kernel_heap_region_inv[of "0x1000" "0x20000" boot_heap] *
    by (auto simp: demo_heap_def)
qed

lemma free_bytes_simps [simp]:
  "free_bytes [] = 0" "free_bytes (b # F) = unat (snd b) + free_bytes F"
  "free_bytes (F @ G) = free_bytes F + free_bytes G"
  by (simp_all add: free_bytes_def)

lemma join_right_bytes:
  assumes "in_heap h b" "heap_fits h" "\<forall>c \<in> set ys. in_heap h c"
  shows "\<exists>s' zs. join_right b ys = (fst b, s') # zs \<and> in_heap h (fst b, s') \<and>
           unat s' + free_bytes zs = unat (snd b) + free_bytes ys"
proof (cases "ys \<noteq> [] \<and> fst b + snd b = fst (hd ys)")
  case True
  then obtain c zs where "ys = c # zs" "fst b + snd b = fst c" by (cases ys) auto
  then show ?thesis
    using in_heap_join[OF assms(1) _ assms(2), of c] assms(3) by (simp add: join_right_def)
next
  case False
  then show ?thesis using assms(1) by (cases b; cases ys) (auto simp: join_right_def)
qed

lemma join_left_bytes:
  assumes "in_heap h b" "heap_fits h" "\<forall>c \<in> set xs. in_heap h c"
  shows "free_bytes (join_left xs (b # zs)) = free_bytes xs + unat (snd b) + free_bytes zs"
proof (cases xs rule: rev_cases)
  case Nil
  then show ?thesis by (simp add: join_left_def)
next
  case (snoc xs0 c)
  then show ?thesis
    using in_heap_join[OF _ assms(1,2), of c] assms(3) by (auto simp: join_left_def)
qed

lemma free_insert_bytes:
  assumes inv: "kheap_inv h F A" and b: "b \<in> A"
  shows "free_bytes (free_insert b F) = free_bytes F + unat (snd b)"
proof -
  note I = kheap_invD[OF inv]
  let ?xs = "takeWhile (\<lambda>c. fst c < fst b) F" and ?ys = "dropWhile (\<lambda>c. fst c < fst b) F"
  have hp: "in_heap h b" "\<forall>c \<in> set ?xs. in_heap h c" "\<forall>c \<in> set ?ys. in_heap h c"
    using I(5,6) b by (auto dest: set_takeWhileD set_dropWhileD)
  obtain s' zs where j: "join_right b ?ys = (fst b, s') # zs" "in_heap h (fst b, s')"
    "unat s' + free_bytes zs = unat (snd b) + free_bytes ?ys"
    using join_right_bytes[OF hp(1) I(2) hp(3)] by blast
  have "free_bytes F = free_bytes ?xs + free_bytes ?ys"
    by (metis free_bytes_simps(3) takeWhile_dropWhile_id)
  then show ?thesis
    using join_left_bytes[OF j(2) I(2) hp(2), of zs] j(1,3) by (simp add: free_insert_def)
qed

lemma overflowing_total:
  assumes "2 ^ 64 < unat n + 32"
  shows "unat (24 + align_up n 8 :: u64) \<le> 24"
proof (cases "unat n + 7 < 2 ^ 64")
  case True
  have "unat (align_up n 8 :: u64) = (unat n + 7) div 8 * 8" by (rule unat_align_up_8(1)[OF True])
  moreover have "(2 ^ 64 - 24) div 8 * 8 \<le> (unat n + 7) div 8 * (8 :: nat)"
    using assms by (intro mult_le_mono1 div_le_mono) simp
  moreover have "(unat n + 7) div 8 * 8 < 2 ^ 64" using True by presburger
  ultimately show ?thesis by (simp add: unat_word_ariths mod_if) linarith
next
  case False
  have "unat (n + 7) = unat n + 7 - 2 ^ 64"
    using False unat64_less[of n] by (simp add: unat_word_ariths mod_if)
  then have "unat (n + 7) < 8" using unat64_less[of n] by linarith
  then have "unat ((n + 7) AND NOT (mask 3)) = 0" by (simp add: unat_and_not_mask)
  then have "align_up n 8 = 0" by (simp add: align_up_def mask_numeral add.commute word_unat_eq_iff)
  then show ?thesis by simp
qed

subsection \<open>Properties\<close>

text \<open>C1. After \<open>init_kernel_heap_region\<close>, every sequence of \<open>kmalloc\<close> calls and of \<open>kfree\<close> calls on live
  pointers terminates (no free-list walk loops), and the payloads of the live allocations are 8-aligned,
  pairwise disjoint and inside the region given at boot. Requests stay below \<open>2^64 - 32\<close> bytes.\<close>

theorem heap_run_safe:
  assumes "base \<noteq> 0" "unat base + unat sz + 24 < 2 ^ 64" "8 dvd unat base + unat sz"
    and "64 * 1024 + 8 \<le> unat sz" "\<forall>n. HAlloc n \<in> set ops \<longrightarrow> unat n + 32 \<le> 2 ^ 64"
  shows "\<exists>h h' L. init_kernel_heap_region g base sz = (True, h) \<and>
           heap_run kmalloc kfree h [] ops = Some (h', L) \<and>
           sorted_wrt (\<lambda>b c. span b \<inter> span c = {}) L \<and>
           (\<forall>b \<in> set L. 8 dvd unat (fst b) \<and> span b \<subseteq> {unat base ..< unat base + unat sz})"
proof -
  obtain h where h: "init_kernel_heap_region g base sz = (True, h)"
    "kheap_inv h [(heap_base h, heap_size h - 16)] {}" "unat base \<le> unat (heap_base h)"
    "unat (heap_base h) + unat (heap_size h) = unat base + unat sz"
    using init_kernel_heap_region_inv[OF assms(1-4)] by blast
  have "kheap_live h []" using h(2) by (auto simp: kheap_live_def)
  then obtain h' L where "heap_run kmalloc kfree h [] ops = Some (h', L)"
    "sorted_wrt (\<lambda>b c. span b \<inter> span c = {}) L" "\<forall>b \<in> set L. 8 dvd unat (fst b) \<and> span b \<subseteq> kheap_arena h"
    using kheap.run_disjoint[OF _ assms(5)] by blast
  moreover have "kheap_arena h \<subseteq> {unat base ..< unat base + unat sz}"
    using h(3,4) by (auto simp: kheap_arena_def)
  ultimately show ?thesis using h(1) by blast
qed

theorem heap_run_safe_witness:
  "\<exists>h h' L. init_kernel_heap_region boot_heap 0x1004 0x1FFFC = (True, h) \<and>
     heap_run kmalloc kfree h [] [HAlloc 100, HAlloc 5, HFree 1, HAlloc 64] = Some (h', L) \<and>
     sorted_wrt (\<lambda>b c. span b \<inter> span c = {}) L \<and>
     (\<forall>b \<in> set L. 8 dvd unat (fst b) \<and> span b \<subseteq> {0x1004 ..< 0x21000})"
  using heap_run_safe[where base = "0x1004" and sz = "0x1FFFC" and g = boot_heap and ops = "[HAlloc 100, HAlloc 5, HFree 1, HAlloc 64]"]
  by simp

text \<open>C2. \<open>kmalloc\<close> on the linked list refines first fit on the list of blocks: it returns NULL and changes
  nothing exactly when no free block is large enough, and otherwise takes the first one that fits, splits off
  the remainder when at least 24 bytes are left, and hands out a block disjoint from every live one.\<close>

theorem kmalloc_refines_first_fit:
  assumes "kheap_inv h F A" "n \<noteq> 0" "unat n + 32 \<le> 2 ^ 64"
  shows "case first_fit (24 + align_up n 8) F of
      None \<Rightarrow> kmalloc h n = Some (h, 0) \<and> (\<forall>b \<in> set F. unat (snd b) < 24 + unat (align_up n 8))
    | Some (a, F') \<Rightarrow> (\<exists>h'. kmalloc h n = Some (h', a + 24)
        \<and> kheap_inv h' F' (insert (a, 24 + align_up n 8) A)
        \<and> (\<forall>b \<in> A. span b \<inter> span (a, 24 + align_up n 8) = {}))"
proof -
  have "\<forall>b \<in> set F. snd b < 24 + align_up n 8" if "first_fit (24 + align_up n 8) F = None"
    using that by (induction F) (auto split: if_splits)
  then show ?thesis
    using kmalloc_spec[OF assms] total_size_facts(1)[OF assms(3)]
    by (fastforce split: option.splits simp: word_less_nat_alt)
qed

theorem kmalloc_refines_first_fit_witness:
  "\<exists>h'. kmalloc demo_heap 100 = Some (h', 0x1018) \<and> kheap_inv h' [(0x1080, 0x1FF70)] {(0x1000, 0x80)}"
  using kmalloc_refines_first_fit[OF demo_heap_inv, of 100]
  by (simp add: align_up_def rest_of_def)

text \<open>C3. \<open>kfree\<close> of a live block refines address-ordered insertion with coalescing: the walk ends, the block
  is merged with an adjacent successor and predecessor, the invariant (sorted, never adjacent) holds again, and
  the free bytes grow by exactly the size of the block.\<close>

theorem kfree_refines_free_insert:
  assumes "kheap_inv h F A" "(a, tot) \<in> A"
  shows "\<exists>h'. kfree h (a + 24) = Some h' \<and>
           kheap_inv h' (free_insert (a, tot) F) (A - {(a, tot)}) \<and>
           free_bytes (free_insert (a, tot) F) = free_bytes F + unat tot"
  using kfree_spec[OF assms] free_insert_bytes[OF assms] by auto

theorem kfree_refines_free_insert_witness:
  "\<exists>h' h''. kmalloc demo_heap 100 = Some (h', 0x1018) \<and> kfree h' 0x1018 = Some h'' \<and>
     kheap_inv h'' [(0x1000, 0x1FFF0)] {}"
proof -
  obtain h' where h': "kmalloc demo_heap 100 = Some (h', 0x1018)" "kheap_inv h' [(0x1080, 0x1FF70)] {(0x1000, 0x80)}"
    using kmalloc_spec[OF demo_heap_inv, of 100] by (auto simp: align_up_def rest_of_def)
  show ?thesis
    using kfree_refines_free_insert[OF h'(2), of "0x1000" "0x80"] h'(1)
    by (auto simp: free_insert_def join_left_def join_right_def)
qed

text \<open>C4. Freeing the same pointer twice in a row is harmless: the first call overwrites the start canary with
  a size, a size is a multiple of 8 and the canary is odd, so the second call changes nothing.\<close>

theorem kfree_twice:
  assumes "kheap_inv h F A" "(a, tot) \<in> A" "kfree h (a + 24) = Some h'"
  shows "kfree h' (a + 24) = Some h'"
proof (rule kfree_rejects)
  have "8 dvd unat (cells h' a)" using kfree_spec[OF assms(1,2)] assms(3) by auto
  then show "hdr_magic_start (cells h') (a + 24 - 24) \<noteq> ALLOC_MAGIC_START \<or>
      hdr_magic_end (cells h') (a + 24 - 24) \<noteq> ALLOC_MAGIC_END"
    using freed_canary by (simp add: hdr_magic_start_def)
qed

theorem kfree_twice_witness:
  "\<exists>h' h''. kmalloc demo_heap 100 = Some (h', 0x1018) \<and> kfree h' 0x1018 = Some h'' \<and>
     kfree h'' 0x1018 = Some h''"
proof -
  obtain h' where h': "kmalloc demo_heap 100 = Some (h', 0x1018)" "kheap_inv h' [(0x1080, 0x1FF70)] {(0x1000, 0x80)}"
    using kmalloc_spec[OF demo_heap_inv, of 100] by (auto simp: align_up_def rest_of_def)
  obtain h'' where h'': "kfree h' 0x1018 = Some h''"
    using kfree_spec[OF h'(2), of "0x1000" "0x80"] by auto
  show ?thesis
    using kfree_twice[OF h'(2), of "0x1000" "0x80" h''] h'(1) h'' by auto
qed





text \<open>C6. \<open>kheap_stats\<close> terminates and reports exactly the free blocks of the list, their number and the sum
  of their sizes (truncated to 32 bits by the print format).\<close>

theorem kheap_stats_counts:
  assumes "kheap_inv h F A"
  shows "kheap_stats h = Some (map (\<lambda>b. (fst b, ucast (snd b))) F, ucast (sum_list (map snd F)), int (length F))"
  using kheap_stats_walk_path[OF kheap_invD(3)[OF assms]] by (simp add: kheap_stats_def)

theorem kheap_stats_counts_witness:
  "kheap_stats demo_heap = Some ([(0x1000, 0x1FFF0)], 0x1FFF0, 1)"
  using kheap_stats_counts[OF demo_heap_inv] by simp

end
