(* ===== verification/KString.thy ===== *)
theory KString
  imports Prelude "HOL-Library.Monad_Syntax"
begin

text \<open>
  The freestanding string library of \<open>kernel/lib/string.c\<close> over byte memory: the word-at-a-time
  \<open>memset\<close>, \<open>memcpy\<close> and \<open>memmove\<close>, the NUL-terminated string functions, number conversion and
  \<open>vsnprintf\<close>. A pointer is a 64-bit word and memory maps every address to a byte; \<open>char\<close> is unsigned on
  this target. Loops that stop only at a terminator are \<open>partial_function (option)\<close>: \<open>None\<close> is a scan that
  finds none. Lengths are \<open>nat\<close>: every loop only counts them down. Theory \<open>KString_Correct\<close> has the proofs.
\<close>

type_synonym bmem = "u64 \<Rightarrow> u8"

subsection \<open>Words in byte memory\<close>

text \<open>A \<open>string_word_t\<close> access: eight consecutive bytes, little endian.\<close>

definition load_word :: "bmem \<Rightarrow> u64 \<Rightarrow> u64" where
  "load_word m a =
     ucast (m a) OR push_bit 8 (ucast (m (a + 1))) OR push_bit 16 (ucast (m (a + 2))) OR
     push_bit 24 (ucast (m (a + 3))) OR push_bit 32 (ucast (m (a + 4))) OR
     push_bit 40 (ucast (m (a + 5))) OR push_bit 48 (ucast (m (a + 6))) OR
     push_bit 56 (ucast (m (a + 7)))"

definition store_word :: "bmem \<Rightarrow> u64 \<Rightarrow> u64 \<Rightarrow> bmem" where
  "store_word m a w =
     (\<lambda>x. if unat (x - a) < 8 then ucast (drop_bit (8 * unat (x - a)) w) else m x)"

subsection \<open>memset\<close>

fun memset_head :: "bmem \<Rightarrow> u64 \<Rightarrow> nat \<Rightarrow> u8 \<Rightarrow> bmem \<times> u64 \<times> nat" where
  "memset_head m d len byte =
     (if len \<noteq> 0 \<and> d AND 7 \<noteq> 0 then memset_head (m(d := byte)) (d + 1) (len - 1) byte
      else (m, d, len))"

definition memset_word :: "u8 \<Rightarrow> u64" where
  "memset_word byte = foldl (\<lambda>word shift. word OR push_bit shift word) (ucast byte) [8, 16, 32]"

fun memset_words4 :: "bmem \<Rightarrow> u64 \<Rightarrow> nat \<Rightarrow> u64 \<Rightarrow> bmem \<times> u64 \<times> nat" where
  "memset_words4 m d len word =
     (if 32 \<le> len then
        memset_words4
          (store_word (store_word (store_word (store_word m d word) (d + 8) word) (d + 16) word) (d + 24) word)
          (d + 32) (len - 32) word
      else (m, d, len))"

fun memset_words :: "bmem \<Rightarrow> u64 \<Rightarrow> nat \<Rightarrow> u64 \<Rightarrow> bmem \<times> u64 \<times> nat" where
  "memset_words m d len word =
     (if 8 \<le> len then memset_words (store_word m d word) (d + 8) (len - 8) word else (m, d, len))"

fun memset_tail :: "bmem \<Rightarrow> u64 \<Rightarrow> nat \<Rightarrow> u8 \<Rightarrow> bmem" where
  "memset_tail m d len byte =
     (if len \<noteq> 0 then memset_tail (m(d := byte)) (d + 1) (len - 1) byte else m)"

definition memset :: "bmem \<Rightarrow> u64 \<Rightarrow> int \<Rightarrow> nat \<Rightarrow> bmem" where
  "memset m dest val len =
     (let byte = word_of_int val;
          (m1, d1, len1) = memset_head m dest len byte;
          word = memset_word byte;
          (m2, d2, len2) = memset_words4 m1 d1 len1 word;
          (m3, d3, len3) = memset_words m2 d2 len2 word
      in memset_tail m3 d3 len3 byte)"

subsection \<open>memcpy and memmove\<close>

fun copy_head :: "bmem \<Rightarrow> u64 \<Rightarrow> u64 \<Rightarrow> nat \<Rightarrow> bmem \<times> u64 \<times> u64 \<times> nat" where
  "copy_head m d s len =
     (if len \<noteq> 0 \<and> d AND 7 \<noteq> 0 then copy_head (m(d := m s)) (d + 1) (s + 1) (len - 1)
      else (m, d, s, len))"

definition copy_word :: "bmem \<Rightarrow> u64 \<Rightarrow> u64 \<Rightarrow> bmem" where
  "copy_word m d s = store_word m d (load_word m s)"

fun copy_words4 :: "bmem \<Rightarrow> u64 \<Rightarrow> u64 \<Rightarrow> nat \<Rightarrow> bmem \<times> u64 \<times> u64 \<times> nat" where
  "copy_words4 m d s len =
     (if 32 \<le> len then
        let m1 = copy_word m d s;
            m2 = copy_word m1 (d + 8) (s + 8);
            m3 = copy_word m2 (d + 16) (s + 16);
            m4 = copy_word m3 (d + 24) (s + 24)
        in copy_words4 m4 (d + 32) (s + 32) (len - 32)
      else (m, d, s, len))"

fun copy_words :: "bmem \<Rightarrow> u64 \<Rightarrow> u64 \<Rightarrow> nat \<Rightarrow> bmem \<times> u64 \<times> u64 \<times> nat" where
  "copy_words m d s len =
     (if 8 \<le> len then copy_words (copy_word m d s) (d + 8) (s + 8) (len - 8) else (m, d, s, len))"

fun copy_tail :: "bmem \<Rightarrow> u64 \<Rightarrow> u64 \<Rightarrow> nat \<Rightarrow> bmem" where
  "copy_tail m d s len =
     (if len \<noteq> 0 then copy_tail (m(d := m s)) (d + 1) (s + 1) (len - 1) else m)"

definition memcpy :: "bmem \<Rightarrow> u64 \<Rightarrow> u64 \<Rightarrow> nat \<Rightarrow> bmem" where
  "memcpy m dest src len =
     (let (m1, d1, s1, len1) =
            (if (dest XOR src) AND 7 = 0 then
               let (m1, d1, s1, len1) = copy_head m dest src len;
                   (m2, d2, s2, len2) = copy_words4 m1 d1 s1 len1
               in copy_words m2 d2 s2 len2
             else (m, dest, src, len))
      in copy_tail m1 d1 s1 len1)"

fun move_head :: "bmem \<Rightarrow> u64 \<Rightarrow> u64 \<Rightarrow> nat \<Rightarrow> bmem \<times> u64 \<times> u64 \<times> nat" where
  "move_head m d s len =
     (if len \<noteq> 0 \<and> (d OR s) AND 7 \<noteq> 0
      then move_head (m(d - 1 := m (s - 1))) (d - 1) (s - 1) (len - 1)
      else (m, d, s, len))"

fun move_words :: "bmem \<Rightarrow> u64 \<Rightarrow> u64 \<Rightarrow> nat \<Rightarrow> bmem \<times> u64 \<times> u64 \<times> nat" where
  "move_words m d s len =
     (if 8 \<le> len then move_words (copy_word m (d - 8) (s - 8)) (d - 8) (s - 8) (len - 8)
      else (m, d, s, len))"

fun move_tail :: "bmem \<Rightarrow> u64 \<Rightarrow> u64 \<Rightarrow> nat \<Rightarrow> bmem" where
  "move_tail m d s len =
     (if len \<noteq> 0 then move_tail (m(d - 1 := m (s - 1))) (d - 1) (s - 1) (len - 1) else m)"

definition memmove :: "bmem \<Rightarrow> u64 \<Rightarrow> u64 \<Rightarrow> nat \<Rightarrow> bmem" where
  "memmove m dest src len =
     (if dest = src \<or> len = 0 then m
      else if dest < src then
        let (m1, d1, s1, len1) =
              (if (dest XOR src) AND 7 = 0 then
                 let (m1, d1, s1, len1) = copy_head m dest src len
                 in copy_words m1 d1 s1 len1
               else (m, dest, src, len))
        in copy_tail m1 d1 s1 len1
      else
        let (m1, d1, s1, len1) = move_head m (dest + of_nat len) (src + of_nat len) len;
            (m2, d2, s2, len2) = move_words m1 d1 s1 len1
        in move_tail m2 d2 s2 len2)"

subsection \<open>Strings\<close>

fun memcmp :: "bmem \<Rightarrow> u64 \<Rightarrow> u64 \<Rightarrow> nat \<Rightarrow> int" where
  "memcmp m p1 p2 n =
     (if n = 0 then 0
      else if m p1 \<noteq> m p2 then uint (m p1) - uint (m p2)
      else memcmp m (p1 + 1) (p2 + 1) (n - 1))"

partial_function (option) strlen_loop :: "bmem \<Rightarrow> u64 \<Rightarrow> nat \<Rightarrow> nat option" where
  "strlen_loop m str len = (if m (str + of_nat len) \<noteq> 0 then strlen_loop m str (len + 1) else Some len)"

definition strlen :: "bmem \<Rightarrow> u64 \<Rightarrow> nat option" where
  "strlen m str = strlen_loop m str 0"

partial_function (option) strcmp :: "bmem \<Rightarrow> u64 \<Rightarrow> u64 \<Rightarrow> int option" where
  "strcmp m s1 s2 =
     (if m s1 \<noteq> 0 \<and> m s1 = m s2 then strcmp m (s1 + 1) (s2 + 1)
      else Some (uint (m s1) - uint (m s2)))"

fun strncmp :: "bmem \<Rightarrow> u64 \<Rightarrow> u64 \<Rightarrow> nat \<Rightarrow> int" where
  "strncmp m s1 s2 n =
     (if n = 0 then 0
      else if m s1 \<noteq> m s2 \<or> m s1 = 0 then uint (m s1) - uint (m s2)
      else strncmp m (s1 + 1) (s2 + 1) (n - 1))"

partial_function (option) strcpy :: "bmem \<Rightarrow> u64 \<Rightarrow> u64 \<Rightarrow> bmem option" where
  "strcpy m dest src =
     (if m src \<noteq> 0 then strcpy (m(dest := m src)) (dest + 1) (src + 1)
      else Some (m(dest := m src)))"

fun strncpy_fill :: "bmem \<Rightarrow> u64 \<Rightarrow> nat \<Rightarrow> bmem" where
  "strncpy_fill m dest n = (if n = 0 then m else strncpy_fill (m(dest := 0)) (dest + 1) (n - 1))"

fun strncpy :: "bmem \<Rightarrow> u64 \<Rightarrow> u64 \<Rightarrow> nat \<Rightarrow> bmem" where
  "strncpy m dest src n =
     (if n \<noteq> 0 \<and> m src \<noteq> 0 then strncpy (m(dest := m src)) (dest + 1) (src + 1) (n - 1)
      else strncpy_fill m dest n)"

text \<open>\<open>strdup\<close> over the kernel allocator, which is an argument: \<open>kmalloc\<close> maps a size to a pointer.\<close>

definition strdup :: "(nat \<Rightarrow> u64) \<Rightarrow> bmem \<Rightarrow> u64 \<Rightarrow> (bmem \<times> u64) option" where
  "strdup kmalloc m str = do {
     n \<leftarrow> strlen m str;
     let len = n + 1;
     let dup = kmalloc len;
     Some (if dup \<noteq> 0 then (memcpy m dup str len, dup) else (m, dup))
   }"

partial_function (option) strchr :: "bmem \<Rightarrow> u64 \<Rightarrow> int \<Rightarrow> u64 option" where
  "strchr m s c =
     (if m s \<noteq> 0 then if uint (m s) = c then Some s else strchr m (s + 1) c
      else Some (if c = 0 then s else 0))"

partial_function (option) strrchr_loop :: "bmem \<Rightarrow> u64 \<Rightarrow> int \<Rightarrow> u64 \<Rightarrow> u64 option" where
  "strrchr_loop m s c latest =
     (if m s \<noteq> 0 then strrchr_loop m (s + 1) c (if uint (m s) = c then s else latest)
      else Some (if c = 0 then s else latest))"

definition strrchr :: "bmem \<Rightarrow> u64 \<Rightarrow> int \<Rightarrow> u64 option" where
  "strrchr m s c = strrchr_loop m s c 0"

fun strstr_match :: "bmem \<Rightarrow> u64 \<Rightarrow> u64 \<Rightarrow> nat \<Rightarrow> bool" where
  "strstr_match m h needle n =
     (if n = 0 then True else if m h = m needle then strstr_match m (h + 1) (needle + 1) (n - 1) else False)"

partial_function (option) strstr_loop :: "bmem \<Rightarrow> u64 \<Rightarrow> u64 \<Rightarrow> nat \<Rightarrow> u64 option" where
  "strstr_loop m h needle n =
     (if m h \<noteq> 0 then if strstr_match m h needle n then Some h else strstr_loop m (h + 1) needle n
      else Some 0)"

definition strstr :: "bmem \<Rightarrow> u64 \<Rightarrow> u64 \<Rightarrow> u64 option" where
  "strstr m haystack needle = do {
     needle_len \<leftarrow> strlen m needle;
     if needle_len = 0 then Some haystack else strstr_loop m haystack needle needle_len
   }"

partial_function (option) tok_skip :: "bmem \<Rightarrow> u64 \<Rightarrow> u64 \<Rightarrow> u64 option" where
  "tok_skip m delim str =
     (if m str = 0 then Some str
      else Option.bind (strchr m delim (uint (m str)))
             (\<lambda>q. if q \<noteq> 0 then tok_skip m delim (str + 1) else Some str))"

partial_function (option) tok_scan :: "bmem \<Rightarrow> u64 \<Rightarrow> u64 \<Rightarrow> u64 option" where
  "tok_scan m delim str =
     (if m str = 0 then Some str
      else Option.bind (strchr m delim (uint (m str)))
             (\<lambda>q. if q = 0 then tok_scan m delim (str + 1) else Some str))"

text \<open>\<open>strtok_r\<close>: \<open>save\<close> is \<open>*saveptr\<close>, \<open>None\<close> when \<open>saveptr\<close> itself is NULL. The result is the
  memory, the new \<open>*saveptr\<close> and the token (0 for NULL). \<open>strtok\<close> is the same code over its static
  \<open>last_token\<close>.\<close>

definition strtok_r :: "bmem \<Rightarrow> u64 \<Rightarrow> u64 \<Rightarrow> u64 option \<Rightarrow> (bmem \<times> u64 option \<times> u64) option" where
  "strtok_r m str delim saveptr =
     (case saveptr of
        None \<Rightarrow> Some (m, None, 0)
      | Some save \<Rightarrow>
          let save = (if str \<noteq> 0 then str else save); str = save in
          if str = 0 then Some (m, Some save, 0)
          else do {
            start \<leftarrow> tok_skip m delim str;
            if m start = 0 then Some (m, Some 0, 0)
            else do {
              stop \<leftarrow> tok_scan m delim start;
              Some (if m stop \<noteq> 0 then (m(stop := 0), Some (stop + 1), start)
                    else (m, Some 0, start))
            }
          })"

definition strtok :: "bmem \<Rightarrow> u64 \<Rightarrow> u64 \<Rightarrow> u64 \<Rightarrow> (bmem \<times> u64 \<times> u64) option" where
  "strtok m last_token str delim =
     (let last_token = (if str \<noteq> 0 then str else last_token); str = last_token in
      if str = 0 then Some (m, last_token, 0)
      else do {
        start \<leftarrow> tok_skip m delim str;
        if m start = 0 then Some (m, 0, 0)
        else do {
          stop \<leftarrow> tok_scan m delim start;
          Some (if m stop \<noteq> 0 then (m(stop := 0), stop + 1, start) else (m, 0, start))
        }
      })"

definition tolower :: "u8 \<Rightarrow> u8" where
  "tolower c = (if 65 \<le> c \<and> c \<le> 90 then c + 32 else c)"

definition toupper :: "u8 \<Rightarrow> u8" where
  "toupper c = (if 97 \<le> c \<and> c \<le> 122 then c - 32 else c)"

definition isalpha :: "int \<Rightarrow> bool" where
  "isalpha c \<longleftrightarrow> 97 \<le> c \<and> c \<le> 122 \<or> 65 \<le> c \<and> c \<le> 90"

definition isdigit :: "int \<Rightarrow> bool" where
  "isdigit c \<longleftrightarrow> 48 \<le> c \<and> c \<le> 57"

definition isalnum :: "int \<Rightarrow> bool" where
  "isalnum c \<longleftrightarrow> isalpha c \<or> isdigit c"

definition isspace :: "int \<Rightarrow> bool" where
  "isspace c \<longleftrightarrow> c = 32 \<or> c = 9 \<or> c = 10 \<or> c = 13 \<or> c = 12 \<or> c = 11"

partial_function (option) str_end :: "bmem \<Rightarrow> u64 \<Rightarrow> u64 option" where
  "str_end m dest = (if m dest \<noteq> 0 then str_end m (dest + 1) else Some dest)"

partial_function (option) strcat_copy :: "bmem \<Rightarrow> u64 \<Rightarrow> u64 \<Rightarrow> bmem option" where
  "strcat_copy m dest src =
     (if m src \<noteq> 0 then strcat_copy (m(dest := m src)) (dest + 1) (src + 1) else Some (m(dest := 0)))"

definition strcat :: "bmem \<Rightarrow> u64 \<Rightarrow> u64 \<Rightarrow> bmem option" where
  "strcat m dest src =
     (if dest = 0 \<or> src = 0 then Some m
      else do { e \<leftarrow> str_end m dest; strcat_copy m e src })"

fun strncat_copy :: "bmem \<Rightarrow> u64 \<Rightarrow> u64 \<Rightarrow> nat \<Rightarrow> bmem" where
  "strncat_copy m dest src n =
     (if m src \<noteq> 0 \<and> 0 < n then strncat_copy (m(dest := m src)) (dest + 1) (src + 1) (n - 1)
      else m(dest := 0))"

definition strncat :: "bmem \<Rightarrow> u64 \<Rightarrow> u64 \<Rightarrow> nat \<Rightarrow> bmem option" where
  "strncat m dest src n =
     (if dest = 0 \<or> src = 0 \<or> n = 0 then Some m
      else do { e \<leftarrow> str_end m dest; Some (strncat_copy m e src n) })"

subsection \<open>Numbers\<close>

text \<open>Long division by shift and subtract over 64 bits; \<open>rest\<close> is an \<open>unsigned int\<close>.\<close>

definition udivmod_step :: "u64 \<Rightarrow> u32 \<Rightarrow> u64 \<times> u32 \<Rightarrow> nat \<Rightarrow> u64 \<times> u32" where
  "udivmod_step val divisor qr b =
     (let rest = push_bit 1 (snd qr) OR ucast (drop_bit b val AND 1)
      in if divisor \<le> rest then (fst qr OR push_bit b 1, rest - divisor) else (fst qr, rest))"

definition udivmod_small :: "u64 \<Rightarrow> u32 \<Rightarrow> u64 \<times> u32" where
  "udivmod_small val divisor = foldl (udivmod_step val divisor) (0, 0) (rev [0..<64])"

definition digit_table :: "u8 list" where
  "digit_table = [48, 49, 50, 51, 52, 53, 54, 55, 56, 57, 97, 98, 99, 100, 101, 102]"

partial_function (option) digits_loop :: "u64 \<Rightarrow> u32 \<Rightarrow> u8 list \<Rightarrow> u8 list option" where
  "digits_loop val radix buf =
     (if val \<noteq> 0 then
        digits_loop (fst (udivmod_small val radix)) radix
          (buf @ [digit_table ! unat (snd (udivmod_small val radix))])
      else Some buf)"

fun reverse_loop :: "u8 list \<Rightarrow> nat \<Rightarrow> nat \<Rightarrow> u8 list" where
  "reverse_loop buf i j =
     (if i < j then reverse_loop (buf[j := buf ! i, i := buf ! j]) (i + 1) (j - 1) else buf)"

text \<open>Both helpers return the characters before the terminator; their count is the C return value.
  The value of \<open>itoa_helper\<close> is the two's complement word of its \<open>long long\<close> argument.\<close>

definition itoa_helper :: "u64 \<Rightarrow> u32 \<Rightarrow> u8 list option" where
  "itoa_helper val radix =
     (if val = 0 then Some [48]
      else let is_negative = (val <s 0 \<and> radix = 10);
               magnitude = (if is_negative then (- (val + 1)) + 1 else val)
      in do {
        buf \<leftarrow> digits_loop magnitude radix [];
        let buf = (if is_negative then buf @ [45] else buf);
        Some (reverse_loop buf 0 (length buf - 1))
      })"

definition utoa_helper :: "u64 \<Rightarrow> u32 \<Rightarrow> u8 list option" where
  "utoa_helper val radix =
     (if val = 0 then Some [48]
      else do {
        buf \<leftarrow> digits_loop val radix [];
        Some (reverse_loop buf 0 (length buf - 1))
      })"

subsection \<open>vsnprintf\<close>

text \<open>
  A format is the list of its characters before the terminator. A variadic argument is a 64-bit
  slot or a string pointer (\<open>None\<close> is NULL). The result is \<open>None\<close> where the C code has no defined
  behaviour: an argument that is missing or of the other kind, and a format that ends inside a
  conversion, after which the loop increment steps over the terminator.
\<close>

datatype varg = VWord u64 | VStr "u8 list option"

text \<open>Output so far and \<open>written\<close>; \<open>cap\<close> is \<open>out_end - str\<close>.\<close>

type_synonym vout = "u8 list \<times> int"

definition put :: "nat \<Rightarrow> u8 \<Rightarrow> vout \<Rightarrow> vout" where
  "put cap c ow = (if length (fst ow) < cap then fst ow @ [c] else fst ow, snd ow + 1)"

fun put_n :: "nat \<Rightarrow> u8 \<Rightarrow> int \<Rightarrow> vout \<Rightarrow> vout" where
  "put_n cap c n ow = (if 0 < n then put_n cap c (n - 1) (put cap c ow) else ow)"

fun put_str :: "nat \<Rightarrow> u8 list \<Rightarrow> vout \<Rightarrow> vout" where
  "put_str cap [] ow = ow"
| "put_str cap (c # cs) ow = put_str cap cs (put cap c ow)"

fun pop_word :: "varg list \<Rightarrow> (u64 \<times> varg list) option" where
  "pop_word (VWord w # args) = Some (w, args)"
| "pop_word _ = None"

fun pop_str :: "varg list \<Rightarrow> (u8 list option \<times> varg list) option" where
  "pop_str (VStr s # args) = Some (s, args)"
| "pop_str _ = None"

text \<open>\<open>va_arg\<close> at the width the length modifier selects: \<open>int\<close> and \<open>unsigned int\<close>, or 64 bits.\<close>

definition arg_signed :: "nat \<Rightarrow> u64 \<Rightarrow> u64" where
  "arg_signed length_modifier w = (if length_modifier = 0 then scast (ucast w :: u32) else w)"

definition arg_unsigned :: "nat \<Rightarrow> u64 \<Rightarrow> u64" where
  "arg_unsigned length_modifier w = (if length_modifier = 0 then ucast (ucast w :: u32) else w)"

definition atoi_digits :: "u8 list \<Rightarrow> int" where
  "atoi_digits cs = foldl (\<lambda>n c. n * 10 + (uint c - 48)) 0 cs"

abbreviation is_digit_char :: "u8 \<Rightarrow> bool" where
  "is_digit_char c \<equiv> 48 \<le> c \<and> c \<le> 57"

record fmt_spec =
  left_align :: bool
  zero_pad :: bool
  width :: int
  precision :: int
  length_modifier :: nat
  spec :: u8

text \<open>From the character after the percent sign: flags, width, precision, length modifier and the
  conversion character. The second result is the format from the conversion character on, empty when
  that is the terminator.\<close>

definition parse_precision :: "u8 list \<Rightarrow> varg list \<Rightarrow> (int \<times> u8 list \<times> varg list) option" where
  "parse_precision p args =
     (if p \<noteq> [] \<and> hd p = 46 then
        let p1 = tl p in
        if p1 \<noteq> [] \<and> hd p1 = 42
        then map_option (\<lambda>(w, args1). (sint (ucast w :: u32), tl p1, args1)) (pop_word args)
        else Some (atoi_digits (takeWhile is_digit_char p1), dropWhile is_digit_char p1, args)
      else Some (-1, p, args))"

definition parse_length :: "u8 list \<Rightarrow> nat \<times> u8 list" where
  "parse_length p =
     (if p \<noteq> [] \<and> hd p = 108 then
        if tl p \<noteq> [] \<and> hd (tl p) = 108 then (2, tl (tl p)) else (1, tl p)
      else if p \<noteq> [] \<and> hd p = 122 then (1, tl p)
      else (0, p))"

definition parse_spec :: "u8 list \<Rightarrow> varg list \<Rightarrow> (fmt_spec \<times> u8 list \<times> varg list) option" where
  "parse_spec p args =
     (let is_flag = (\<lambda>c. c \<in> {45, 48, 43, 32});
          flags = takeWhile is_flag p;
          p1 = dropWhile is_flag p;
          w = atoi_digits (takeWhile is_digit_char p1);
          p2 = dropWhile is_digit_char p1
      in map_option
           (\<lambda>(prec, p3, args1).
              let lm = fst (parse_length p3); p4 = snd (parse_length p3)
              in (\<lparr>left_align = 45 \<in> set flags, zero_pad = 48 \<in> set flags, width = w, precision = prec,
                   length_modifier = lm, spec = (if p4 = [] then 0 else hd p4)\<rparr>, p4, args1))
           (parse_precision p2 args))"

text \<open>The shared tail of the conversions: pad, copy, pad.\<close>

definition put_field :: "nat \<Rightarrow> fmt_spec \<Rightarrow> u8 \<Rightarrow> u8 list \<Rightarrow> vout \<Rightarrow> vout" where
  "put_field cap f pad_char txt ow =
     (let n = int (length txt);
          ow1 = (if \<not> left_align f \<and> n < width f then put_n cap pad_char (width f - n) ow else ow);
          ow2 = put_str cap txt ow1
      in if left_align f \<and> n < width f then put_n cap 32 (width f - n) ow2 else ow2)"

definition put_signed :: "nat \<Rightarrow> fmt_spec \<Rightarrow> u8 \<Rightarrow> u8 list \<Rightarrow> vout \<Rightarrow> vout" where
  "put_signed cap f pad_char txt ow =
     (if \<not> left_align f \<and> int (length txt) < width f \<and> pad_char = 48 \<and> txt ! 0 = 45 then
        put_str cap (drop 1 txt) (put_n cap 48 (width f - int (length txt)) (put cap 45 ow))
      else put_field cap f pad_char txt ow)"

definition put_char :: "nat \<Rightarrow> fmt_spec \<Rightarrow> u8 \<Rightarrow> vout \<Rightarrow> vout" where
  "put_char cap f c ow =
     (let ow1 = (if \<not> left_align f \<and> 1 < width f then put_n cap 32 (width f - 1) ow else ow);
          ow2 = put cap c ow1
      in if left_align f \<and> 1 < width f then put_n cap 32 (width f - 1) ow2 else ow2)"

definition null_text :: "u8 list" where
  "null_text = [40, 110, 117, 108, 108, 41]"

definition conv_string :: "fmt_spec \<Rightarrow> u8 list option \<Rightarrow> u8 list" where
  "conv_string f s =
     (let txt = (case s of None \<Rightarrow> null_text | Some t \<Rightarrow> takeWhile (\<lambda>c. c \<noteq> 0) t)
      in if precision f < 0 then txt else take (nat (precision f)) txt)"

definition upper_hex :: "u8 \<Rightarrow> u8" where
  "upper_hex c = (if 97 \<le> c \<and> c \<le> 102 then c - 97 + 65 else c)"

definition put_conv :: "nat \<Rightarrow> fmt_spec \<Rightarrow> varg list \<Rightarrow> vout \<Rightarrow> (vout \<times> varg list) option" where
  "put_conv cap f args ow =
     (let pad_char = (if zero_pad f \<and> \<not> left_align f then 48 else 32) in
      if spec f = 99 then do {
        (w, args1) \<leftarrow> pop_word args;
        Some (put_char cap f (ucast w) ow, args1)
      } else if spec f = 115 then do {
        (s, args1) \<leftarrow> pop_str args;
        Some (put_field cap f 32 (conv_string f s) ow, args1)
      } else if spec f = 100 \<or> spec f = 105 then do {
        (w, args1) \<leftarrow> pop_word args;
        txt \<leftarrow> itoa_helper (arg_signed (length_modifier f) w) 10;
        Some (put_signed cap f pad_char txt ow, args1)
      } else if spec f = 117 then do {
        (w, args1) \<leftarrow> pop_word args;
        txt \<leftarrow> utoa_helper (arg_unsigned (length_modifier f) w) 10;
        Some (put_field cap f pad_char txt ow, args1)
      } else if spec f = 112 then do {
        (w, args1) \<leftarrow> pop_word args;
        txt \<leftarrow> utoa_helper w 16;
        Some (put_field cap f 32 ([48, 120] @ txt) ow, args1)
      } else if spec f = 120 \<or> spec f = 88 then do {
        (w, args1) \<leftarrow> pop_word args;
        txt \<leftarrow> utoa_helper (arg_unsigned (length_modifier f) w) 16;
        Some (put_field cap f pad_char (if spec f = 88 then map upper_hex txt else txt) ow, args1)
      } else if spec f = 37 then Some (put cap 37 ow, args)
      else Some (put cap (spec f) (put cap 37 ow), args))"

lemma parse_length_shorter: "length (snd (parse_length p)) \<le> length p"
  by (auto simp: parse_length_def)

lemma parse_precision_shorter:
  "parse_precision p args = Some (prec, p3, args1) \<Longrightarrow> length p3 \<le> length p"
  by (cases p)
    (auto simp: parse_precision_def Let_def intro: le_SucI length_dropWhile_le split: if_splits)

lemma parse_spec_shorter:
  assumes "parse_spec p args = Some (f, p4, args1)"
  shows "length p4 \<le> length p"
proof -
  let ?p2 = "dropWhile is_digit_char (dropWhile (\<lambda>c. c \<in> {45, 48, 43, 32}) p)"
  obtain prec p3 a where "parse_precision ?p2 args = Some (prec, p3, a)" "p4 = snd (parse_length p3)"
    using assms by (auto simp: parse_spec_def Let_def)
  then have "length p4 \<le> length ?p2"
    using parse_precision_shorter[of ?p2 args prec p3 a] parse_length_shorter[of p3] by simp
  also have "\<dots> \<le> length (dropWhile (\<lambda>c. c \<in> {45, 48, 43, 32}) p)" by (rule length_dropWhile_le)
  also have "\<dots> \<le> length p" by (rule length_dropWhile_le)
  finally show ?thesis .
qed

function vsn_loop :: "nat \<Rightarrow> u8 list \<Rightarrow> varg list \<Rightarrow> vout \<Rightarrow> vout option" where
  "vsn_loop cap [] args ow = Some ow"
| "vsn_loop cap (c # p) args ow =
     (if c \<noteq> 37 then vsn_loop cap p args (put cap c ow)
      else if p = [] then Some ow
      else case parse_spec p args of
             None \<Rightarrow> None
           | Some (f, p4, args1) \<Rightarrow>
               (case put_conv cap f args1 ow of
                  None \<Rightarrow> None
                | Some (ow1, args2) \<Rightarrow>
                    if p4 = [] then None else vsn_loop cap (tl p4) args2 ow1))"
  by pat_completeness auto
termination
  by (relation "measure (\<lambda>(cap, p, args, ow). length p)") (auto dest!: parse_spec_shorter)

definition vsnprintf :: "u64 \<Rightarrow> nat \<Rightarrow> u8 list \<Rightarrow> varg list \<Rightarrow> vout option" where
  "vsnprintf str sz format args =
     (if str = 0 \<or> sz = 0 then Some ([], 0)
      else map_option (\<lambda>(out, written). (out @ [0], written)) (vsn_loop (sz - 1) format args ([], 0)))"

text \<open>The loops are unfolded one iteration at a time, on demand.\<close>

lemmas loop_simps = memset_head.simps memset_words4.simps memset_words.simps memset_tail.simps
  copy_head.simps copy_words4.simps copy_words.simps copy_tail.simps move_head.simps move_words.simps
  move_tail.simps memcmp.simps strncmp.simps strncpy_fill.simps strncpy.simps strstr_match.simps
  strncat_copy.simps reverse_loop.simps put_n.simps

declare loop_simps [simp del]

end
