(* ===== verification/KString_Correct.thy ===== *)
theory KString_Correct
  imports KString
begin

text \<open>
  Correctness of the string library. The loops of \<open>memset\<close>, \<open>memcpy\<close> and \<open>memmove\<close> are each shown to leave
  the remaining work unchanged (\<open>set_range\<close>, \<open>copy_range\<close>), forwards and backwards, so that the routines equal
  their byte-wise definitions for every alignment and overlap. \<open>cstr\<close> relates a pointer to the list of
  bytes before the terminator. \<open>render\<close> is the unbounded meaning of a format; \<open>vsnprintf\<close> is
  compared with it. The locale \<open>block_copy\<close> is the contract of a copy between disjoint ranges,
  interpreted on \<open>memcpy\<close> and \<open>memmove\<close>.
\<close>

subsection \<open>Byte ranges\<close>

definition set_range :: "bmem \<Rightarrow> u64 \<Rightarrow> nat \<Rightarrow> u8 \<Rightarrow> bmem" where
  "set_range m d len b = (\<lambda>x. if unat (x - d) < len then b else m x)"

definition copy_range :: "bmem \<Rightarrow> u64 \<Rightarrow> u64 \<Rightarrow> nat \<Rightarrow> bmem" where
  "copy_range m d s len = (\<lambda>x. if unat (x - d) < len then m (s + (x - d)) else m x)"

lemma less_8_cases: "k < 8 \<Longrightarrow> k = 0 \<or> k = 1 \<or> k = 2 \<or> k = 3 \<or> k = 4 \<or> k = 5 \<or> k = 6 \<or> k = (7::nat)"
  by arith

lemma load_word_byte:
  assumes "k < 8"
  shows "(ucast (drop_bit (8 * k) (load_word m s)) :: u8) = m (s + of_nat k)"
  using less_8_cases[OF assms]
  by (elim disjE; intro bit_word_eqI) (auto simp: load_word_def bit_simps dest: bit_imp_le_length)

lemma memset_word_byte:
  assumes "k < 8"
  shows "(ucast (drop_bit (8 * k) (memset_word b)) :: u8) = b"
  using less_8_cases[OF assms]
  by (elim disjE; intro bit_word_eqI) (auto simp: memset_word_def bit_simps dest: bit_imp_le_length)

lemma store_word_set: "store_word m d (memset_word b) = set_range m d 8 b"
  by (auto simp: store_word_def set_range_def memset_word_byte)

lemma copy_word_range: "copy_word m d s = copy_range m d s 8"
  by (auto simp: copy_word_def store_word_def copy_range_def load_word_byte)

lemma range_split:
  fixes x d :: u64
  assumes "k \<le> len" "len \<le> 2 ^ 64" "k < 2 ^ 64"
  shows "unat (x - (d + of_nat k)) < len - k \<longleftrightarrow> k \<le> unat (x - d) \<and> unat (x - d) < len"
proof -
  have "unat (of_nat k :: u64) = k" by (rule unat_of_nat64[OF assms(3)])
  then have "unat (x - (d + of_nat k)) =
      (if k \<le> unat (x - d) then unat (x - d) - k else 2 ^ 64 + unat (x - d) - k)"
    using unat_minus_wrap[of "x - d" "of_nat k"] by (simp add: diff_diff_add)
  then show ?thesis using assms unat64_less[of "x - d"] by auto
qed

lemma set_range_0 [simp]: "set_range m d 0 b = m"
  by (simp add: set_range_def)

lemma set_range_step:
  assumes "k \<le> len" "len \<le> 2 ^ 64" "k < 2 ^ 64"
  shows "set_range (set_range m d k b) (d + of_nat k) (len - k) b = set_range m d len b"
  using assms range_split[OF assms] by (auto simp: set_range_def fun_eq_iff)

lemma set_range_1: "m(d := b) = set_range m d 1 b"
  by (auto simp: set_range_def fun_eq_iff unat_eq_zero)

lemma set_range_words4:
  "set_range (set_range (set_range (set_range m d 8 b) (d + 8) 8 b) (d + 16) 8 b) (d + 24) 8 b =
   set_range m d 32 b"
  using set_range_step[of 8 16 m d b] set_range_step[of 16 24 m d b] set_range_step[of 24 32 m d b]
  by simp

lemma memset_head_rest:
  "len \<le> 2 ^ 64 \<Longrightarrow> case memset_head m d len b of (m', d', len') \<Rightarrow>
     len' \<le> len \<and> set_range m' d' len' b = set_range m d len b"
proof (induction m d len b rule: memset_head.induct)
  case (1 m d len b)
  have "len - 1 \<le> 2 ^ 64" using "1.prems" by simp
  from "1.IH"[OF _ this] show ?case
    using set_range_step[of 1 len m d b] "1.prems"
    by (subst memset_head.simps) (auto simp: set_range_1 split: prod.splits)
qed

lemma memset_words_rest:
  "len \<le> 2 ^ 64 \<Longrightarrow> case memset_words m d len (memset_word b) of (m', d', len') \<Rightarrow>
     len' \<le> len \<and> set_range m' d' len' b = set_range m d len b"
proof (induction m d len "memset_word b" rule: memset_words.induct)
  case (1 m d len)
  have "len - 8 \<le> 2 ^ 64" using "1.prems" by simp
  from "1.hyps"[OF _ this] show ?case
    using set_range_step[of 8 len m d b] "1.prems"
    by (subst memset_words.simps) (auto simp: store_word_set split: prod.splits)
qed

lemma memset_words4_rest:
  "len \<le> 2 ^ 64 \<Longrightarrow> case memset_words4 m d len (memset_word b) of (m', d', len') \<Rightarrow>
     len' \<le> len \<and> set_range m' d' len' b = set_range m d len b"
proof (induction m d len "memset_word b" rule: memset_words4.induct)
  case (1 m d len)
  have "len - 32 \<le> 2 ^ 64" using "1.prems" by simp
  from "1.hyps"[OF _ this] show ?case
    using set_range_step[of 32 len m d b] "1.prems"
    by (subst memset_words4.simps) (auto simp: store_word_set set_range_words4 split: prod.splits)
qed

lemma memset_tail_range: "len \<le> 2 ^ 64 \<Longrightarrow> memset_tail m d len b = set_range m d len b"
proof (induction m d len b rule: memset_tail.induct)
  case (1 m d len b)
  then show ?case
    using set_range_step[of 1 len m d b] by (subst memset_tail.simps) (auto simp: set_range_1)
qed

lemma memset_range:
  assumes "len \<le> 2 ^ 64"
  shows "memset m d val len = set_range m d len (word_of_int val)"
proof -
  obtain m1 d1 l1 where 1: "memset_head m d len (word_of_int val) = (m1, d1, l1)" by (metis surj_pair)
  obtain m2 d2 l2 where 2: "memset_words4 m1 d1 l1 (memset_word (word_of_int val)) = (m2, d2, l2)" by (metis surj_pair)
  obtain m3 d3 l3 where 3: "memset_words m2 d2 l2 (memset_word (word_of_int val)) = (m3, d3, l3)" by (metis surj_pair)
  show ?thesis
    using assms memset_head_rest[OF assms, of "word_of_int val" m d]
      memset_words4_rest[of l1 "word_of_int val" m1 d1] memset_words_rest[of l2 "word_of_int val" m2 d2]
      memset_tail_range[of l3 m3 d3] 1 2 3
    by (simp add: memset_def)
qed

definition fwd_ok :: "u64 \<Rightarrow> u64 \<Rightarrow> nat \<Rightarrow> bool" where
  "fwd_ok d s len \<longleftrightarrow> d = s \<or> len \<le> unat (d - s)"

lemma copy_range_0 [simp]: "copy_range m d s 0 = m"
  by (simp add: copy_range_def)

lemma copy_range_1: "m(d := m s) = copy_range m d s 1"
  by (auto simp: copy_range_def fun_eq_iff unat_eq_zero)

lemma copy_range_fwd:
  assumes "k \<le> len" "len \<le> 2 ^ 64" "k < 2 ^ 64" "fwd_ok d s len"
  shows "copy_range (copy_range m d s k) (d + of_nat k) (s + of_nat k) (len - k) = copy_range m d s len"
proof
  fix x
  note r = range_split[OF assms(1-3), of x d]
  have idx: "s + of_nat k + (x - (d + of_nat k)) = s + (x - d)" by simp
  have "unat (s + (x - d) - d) < k \<Longrightarrow> k \<le> unat (x - d) \<Longrightarrow> unat (x - d) < len \<Longrightarrow> d = s"
    using assms(4) unat_minus_wrap[of "x - d" "d - s"] unat64_less[of "d - s"]
    by (auto simp: fwd_ok_def algebra_simps split: if_splits)
  then show "copy_range (copy_range m d s k) (d + of_nat k) (s + of_nat k) (len - k) x = copy_range m d s len x"
    using r idx assms(1) unfolding copy_range_def by auto
qed

subsection \<open>Forward and backward copies\<close>

lemma fwd_ok_step: "fwd_ok d s len \<Longrightarrow> len' \<le> len \<Longrightarrow> fwd_ok (d + k) (s + k) len'"
  by (auto simp: fwd_ok_def)

text \<open>What a forward loop keeps: the copy that is left to do gives the same memory.\<close>

definition fwd_rest :: "bmem \<Rightarrow> u64 \<Rightarrow> u64 \<Rightarrow> nat \<Rightarrow> bmem \<times> u64 \<times> u64 \<times> nat \<Rightarrow> bool" where
  "fwd_rest m d s len r \<longleftrightarrow> (case r of (m', d', s', len') \<Rightarrow>
     len' \<le> len \<and> fwd_ok d' s' len' \<and> copy_range m' d' s' len' = copy_range m d s len)"

lemma fwd_rest_refl: "fwd_ok d s len \<Longrightarrow> fwd_rest m d s len (m, d, s, len)"
  by (simp add: fwd_rest_def)

lemma fwd_rest_step:
  assumes "fwd_ok d s len" "k \<le> len" "len \<le> 2 ^ 64" "k < 2 ^ 64"
    and "fwd_rest (copy_range m d s k) (d + of_nat k) (s + of_nat k) (len - k) r"
  shows "fwd_rest m d s len r"
  using assms copy_range_fwd[OF assms(2-4,1), of m] by (auto simp: fwd_rest_def)

lemma fwd_rest_trans:
  "fwd_rest m d s len (m1, d1, s1, len1) \<Longrightarrow> fwd_rest m1 d1 s1 len1 r \<Longrightarrow> fwd_rest m d s len r"
  by (auto simp: fwd_rest_def)

lemma copy_head_rest:
  "fwd_ok d s len \<Longrightarrow> len \<le> 2 ^ 64 \<Longrightarrow> fwd_rest m d s len (copy_head m d s len)"
proof (induction m d s len rule: copy_head.induct)
  case (1 m d s len)
  show ?case
  proof (cases "len \<noteq> 0 \<and> d AND 7 \<noteq> 0")
    case True
    have l: "len - 1 \<le> 2 ^ 64" using "1.prems"(2) by simp
    have "fwd_rest (m(d := m s)) (d + 1) (s + 1) (len - 1) (copy_head m d s len)"
      using True "1.IH"[OF True _ l] fwd_ok_step[of d s len "len - 1" 1] "1.prems"
      by (simp add: copy_head.simps[of m] fun_upd_def)
    then show ?thesis
      using fwd_rest_step[of d s len 1 m] True "1.prems" by (simp add: copy_range_1)
  next
    case False
    then show ?thesis using fwd_rest_refl "1.prems" by (auto simp: copy_head.simps[of m])
  qed
qed

lemma copy_words_rest:
  "fwd_ok d s len \<Longrightarrow> len \<le> 2 ^ 64 \<Longrightarrow> fwd_rest m d s len (copy_words m d s len)"
proof (induction m d s len rule: copy_words.induct)
  case (1 m d s len)
  show ?case
  proof (cases "8 \<le> len")
    case True
    have l: "len - 8 \<le> 2 ^ 64" using "1.prems"(2) by simp
    have "fwd_rest (copy_word m d s) (d + 8) (s + 8) (len - 8) (copy_words m d s len)"
      using True "1.IH"[OF True _ l] fwd_ok_step[of d s len "len - 8" 8] "1.prems" by (simp add: copy_words.simps[of m])
    then show ?thesis
      using fwd_rest_step[of d s len 8 m] True "1.prems" by (simp add: copy_word_range)
  next
    case False
    then show ?thesis using fwd_rest_refl "1.prems" by (simp add: copy_words.simps[of m])
  qed
qed

lemma copy_four_words:
  assumes "fwd_ok d s 32"
  shows "copy_word (copy_word (copy_word (copy_word m d s) (d + 8) (s + 8)) (d + 16) (s + 16)) (d + 24) (s + 24)
    = copy_range m d s 32"
proof -
  have "fwd_ok d s 16" "fwd_ok d s 24" using assms by (auto simp: fwd_ok_def)
  then show ?thesis
    using assms copy_range_fwd[of 8 16 d s m] copy_range_fwd[of 16 24 d s m] copy_range_fwd[of 24 32 d s m]
    by (simp add: copy_word_range)
qed

lemma copy_words4_rest:
  "fwd_ok d s len \<Longrightarrow> len \<le> 2 ^ 64 \<Longrightarrow> fwd_rest m d s len (copy_words4 m d s len)"
proof (induction m d s len rule: copy_words4.induct)
  case (1 m d s len)
  show ?case
  proof (cases "32 \<le> len")
    case True
    have "fwd_ok d s 32" using "1.prems"(1) True by (auto simp: fwd_ok_def)
    note four = copy_four_words[OF this]
    have l: "len - 32 \<le> 2 ^ 64" using "1.prems"(2) by simp
    have "fwd_rest (copy_range m d s 32) (d + 32) (s + 32) (len - 32) (copy_words4 m d s len)"
      using "1.IH"[OF True refl refl refl refl _ l] four fwd_ok_step[of d s len "len - 32" 32] "1.prems" True
      by (simp add: copy_words4.simps[of m] Let_def)
    then show ?thesis
      using fwd_rest_step[of d s len 32 m] True "1.prems" by simp
  next
    case False
    then show ?thesis using fwd_rest_refl "1.prems" by (simp add: copy_words4.simps[of m])
  qed
qed

lemma copy_tail_range:
  "fwd_ok d s len \<Longrightarrow> len \<le> 2 ^ 64 \<Longrightarrow> copy_tail m d s len = copy_range m d s len"
proof (induction m d s len rule: copy_tail.induct)
  case (1 m d s len)
  show ?case
  proof (cases "len \<noteq> 0")
    case True
    have l: "len - 1 \<le> 2 ^ 64" using "1.prems"(2) by simp
    show ?thesis
      using True "1.IH"[OF True _ l] fwd_ok_step[of d s len "len - 1" 1] "1.prems" copy_range_fwd[of 1 len d s m]
      by (simp add: copy_tail.simps[of m] copy_range_1)
  qed (simp add: copy_tail.simps)
qed

lemma copy_tail_rest:
  "fwd_rest m d s len (m', d', s', len') \<Longrightarrow> len \<le> 2 ^ 64 \<Longrightarrow>
     copy_tail m' d' s' len' = copy_range m d s len"
  using copy_tail_range[of d' s' len' m'] by (simp add: fwd_rest_def)

lemma memcpy_range:
  assumes "fwd_ok d s len" "len \<le> 2 ^ 64"
  shows "memcpy m d s len = copy_range m d s len"
proof -
  obtain m1 d1 s1 l1 where 1: "copy_head m d s len = (m1, d1, s1, l1)" by (metis surj_pair)
  obtain m2 d2 s2 l2 where 2: "copy_words4 m1 d1 s1 l1 = (m2, d2, s2, l2)" by (metis surj_pair)
  obtain m3 d3 s3 l3 where 3: "copy_words m2 d2 s2 l2 = (m3, d3, s3, l3)" by (metis surj_pair)
  have r1: "fwd_rest m d s len (m1, d1, s1, l1)" using copy_head_rest[OF assms, of m] 1 by simp
  have r2: "fwd_rest m1 d1 s1 l1 (m2, d2, s2, l2)"
    using copy_words4_rest[of d1 s1 l1 m1] r1 2 assms by (simp add: fwd_rest_def)
  have r3: "fwd_rest m2 d2 s2 l2 (m3, d3, s3, l3)"
    using copy_words_rest[of d2 s2 l2 m2] r1 r2 3 assms by (simp add: fwd_rest_def)
  show ?thesis
    using 1 2 3 copy_tail_rest[OF fwd_rest_trans[OF fwd_rest_trans[OF r1 r2] r3] assms(2)]
      copy_tail_range[OF assms]
    by (simp add: memcpy_def)
qed

text \<open>Backwards: the pointers are the ends of the ranges.\<close>

definition bwd_ok :: "u64 \<Rightarrow> u64 \<Rightarrow> nat \<Rightarrow> bool" where
  "bwd_ok d s len \<longleftrightarrow> d = s \<or> len \<le> unat (s - d)"

lemma copy_range_bwd:
  assumes "k \<le> len" "len \<le> 2 ^ 64" "k < 2 ^ 64" "bwd_ok d s len"
  shows "copy_range (copy_range m (d + of_nat k) (s + of_nat k) (len - k)) d s k = copy_range m d s len"
proof
  fix x
  note r = range_split[OF assms(1-3), of _ d]
  have idx: "s + of_nat k + (x - (d + of_nat k)) = s + (x - d)" for x by simp
  have "unat (x - d) < k \<Longrightarrow> k \<le> unat (s + (x - d) - d) \<Longrightarrow> unat (s + (x - d) - d) < len \<Longrightarrow> d = s"
  proof -
    assume a: "unat (x - d) < k" "k \<le> unat (s + (x - d) - d)" "unat (s + (x - d) - d) < len"
    have "s + (x - d) - d = (s - d) + (x - d)" by simp
    then have "unat (s + (x - d) - d) = (unat (s - d) + unat (x - d)) mod 2 ^ 64"
      by (simp only: unat_word_ariths) simp
    moreover have "(unat (s - d) + unat (x - d)) mod 2 ^ 64 =
        (if unat (s - d) + unat (x - d) < 2 ^ 64 then unat (s - d) + unat (x - d)
         else unat (s - d) + unat (x - d) - 2 ^ 64)"
      using unat64_less[of "s - d"] unat64_less[of "x - d"] by (simp add: le_mod_geq)
    ultimately show "d = s"
      using a assms(1,4) unat64_less[of "s - d"] by (auto simp: bwd_ok_def split: if_splits)
  qed
  then have "copy_range m (d + of_nat k) (s + of_nat k) (len - k) y = m y"
    if "unat (x - d) < k" "y = s + (x - d)" for y
    using that unfolding copy_range_def idx r by auto
  then show "copy_range (copy_range m (d + of_nat k) (s + of_nat k) (len - k)) d s k x = copy_range m d s len x"
    using r[of x] idx[of x] assms(1) by (auto simp: copy_range_def)
qed

definition bwd_rest :: "bmem \<Rightarrow> u64 \<Rightarrow> u64 \<Rightarrow> nat \<Rightarrow> bmem \<times> u64 \<times> u64 \<times> nat \<Rightarrow> bool" where
  "bwd_rest m d s len r \<longleftrightarrow> (case r of (m', d', s', len') \<Rightarrow> len' \<le> len \<and>
     d' = d + of_nat len' \<and> s' = s + of_nat len' \<and> copy_range m' d s len' = copy_range m d s len)"

lemma bwd_rest_refl: "bwd_rest m d s len (m, d + of_nat len, s + of_nat len, len)"
  by (simp add: bwd_rest_def)

lemma bwd_rest_step:
  assumes "bwd_ok d s len0" "len \<le> len0" "k \<le> len" "len \<le> 2 ^ 64" "0 < k"
    and "bwd_rest (copy_range m (d + of_nat (len - k)) (s + of_nat (len - k)) k) d s (len - k) r"
  shows "bwd_rest m d s len r"
  using assms copy_range_bwd[of "len - k" len d s m] by (auto simp: bwd_rest_def bwd_ok_def)

lemma move_head_rest:
  "bwd_ok d s len0 \<Longrightarrow> len \<le> len0 \<Longrightarrow> len \<le> 2 ^ 64 \<Longrightarrow>
     bwd_rest m d s len (move_head m (d + of_nat len) (s + of_nat len) len)"
proof (induction len arbitrary: m)
  case 0
  then show ?case using bwd_rest_refl[of m d s 0] by (simp add: move_head.simps)
next
  case (Suc len)
  have l: "len \<le> len0" "len \<le> 2 ^ 64" using Suc.prems by auto
  show ?case
    using Suc.IH[OF Suc.prems(1) l] bwd_rest_refl[of m d s "Suc len"] Suc.prems
      bwd_rest_step[OF Suc.prems(1,2), of 1 m]
    by (auto simp: move_head.simps[of m] copy_range_1)
qed

lemma move_words_rest:
  "bwd_ok d s len0 \<Longrightarrow> len \<le> len0 \<Longrightarrow> len \<le> 2 ^ 64 \<Longrightarrow>
     bwd_rest m d s len (move_words m (d + of_nat len) (s + of_nat len) len)"
proof (induction len arbitrary: m rule: less_induct)
  case (less len)
  show ?case
  proof (cases "8 \<le> len")
    case True
    then have e: "d + of_nat len - 8 = d + of_nat (len - 8)" "s + of_nat len - 8 = s + of_nat (len - 8)"
      by (simp_all add: of_nat_diff)
    have l: "len - 8 < len" "len - 8 \<le> len0" "len - 8 \<le> 2 ^ 64" using less.prems True by auto
    have "move_words m (d + of_nat len) (s + of_nat len) len =
        move_words (copy_range m (d + of_nat (len - 8)) (s + of_nat (len - 8)) 8)
          (d + of_nat (len - 8)) (s + of_nat (len - 8)) (len - 8)"
      by (subst move_words.simps) (simp only: True if_True e copy_word_range)
    then show ?thesis
      using less.IH[OF l(1) less.prems(1) l(2,3)] True less.prems(3)
      by (simp only:) (rule bwd_rest_step[OF less.prems(1,2), of 8], auto)
  next
    case False
    then show ?thesis using bwd_rest_refl by (simp add: move_words.simps[of m])
  qed
qed

lemma move_tail_rest:
  "bwd_ok d s len0 \<Longrightarrow> len \<le> len0 \<Longrightarrow> len \<le> 2 ^ 64 \<Longrightarrow>
     move_tail m (d + of_nat len) (s + of_nat len) len = copy_range m d s len"
proof (induction len arbitrary: m)
  case 0
  then show ?case by (simp add: move_tail.simps)
next
  case (Suc len)
  have l: "len \<le> len0" "len \<le> 2 ^ 64" using Suc.prems by auto
  have "copy_range (m(d + of_nat len := m (s + of_nat len))) d s len = copy_range m d s (Suc len)"
    using copy_range_bwd[of len "Suc len" d s m] Suc.prems by (auto simp: bwd_ok_def copy_range_1)
  then show ?case
    using Suc.IH[OF Suc.prems(1) l] by (simp add: move_tail.simps[of m] fun_upd_def)
qed

lemma memmove_range:
  assumes "unat d + len \<le> 2 ^ 64" "unat s + len \<le> 2 ^ 64"
  shows "memmove m d s len = copy_range m d s len"
proof -
  have len: "len \<le> 2 ^ 64" using assms(1) by simp
  consider "d = s \<or> len = 0" | "d < s" "len \<noteq> 0" | "s < d" "len \<noteq> 0" by fastforce
  then show ?thesis
  proof cases
    case 1
    then show ?thesis by (auto simp: memmove_def copy_range_def)
  next
    case 2
    have ok: "fwd_ok d s len"
      using 2 assms by (auto simp: fwd_ok_def unat_minus_wrap word_less_nat_alt)
    obtain m1 d1 s1 l1 where 1: "copy_head m d s len = (m1, d1, s1, l1)" by (metis surj_pair)
    obtain m2 d2 s2 l2 where w: "copy_words m1 d1 s1 l1 = (m2, d2, s2, l2)" by (metis surj_pair)
    have r1: "fwd_rest m d s len (m1, d1, s1, l1)" using copy_head_rest[OF ok len, of m] 1 by simp
    have r2: "fwd_rest m1 d1 s1 l1 (m2, d2, s2, l2)"
      using copy_words_rest[of d1 s1 l1 m1] r1 w len by (simp add: fwd_rest_def)
    show ?thesis
      using 2 1 w copy_tail_rest[OF fwd_rest_trans[OF r1 r2] len] copy_tail_range[OF ok len]
      by (auto simp: memmove_def)
  next
    case 3
    have ok: "bwd_ok d s len"
      using 3 assms by (auto simp: bwd_ok_def unat_minus_wrap word_less_nat_alt)
    obtain m1 d1 s1 l1 where 1: "move_head m (d + of_nat len) (s + of_nat len) len = (m1, d1, s1, l1)"
      by (metis surj_pair)
    obtain m2 d2 s2 l2 where w: "move_words m1 d1 s1 l1 = (m2, d2, s2, l2)" by (metis surj_pair)
    have r1: "bwd_rest m d s len (m1, d1, s1, l1)" using move_head_rest[OF ok _ len, of m] 1 by simp
    have r2: "bwd_rest m1 d s l1 (m2, d2, s2, l2)"
      using move_words_rest[OF ok, of l1 m1] r1 w len by (auto simp: bwd_rest_def)
    have "move_tail m2 d2 s2 l2 = copy_range m d s len"
      using move_tail_rest[OF ok, of l2 m2] r1 r2 len by (auto simp: bwd_rest_def)
    then show ?thesis using 3 1 w by (auto simp: memmove_def)
  qed
qed

subsection \<open>Terminated strings\<close>

primrec cstr :: "bmem \<Rightarrow> u64 \<Rightarrow> u8 list \<Rightarrow> bool" where
  "cstr m p [] \<longleftrightarrow> m p = 0"
| "cstr m p (b # bs) \<longleftrightarrow> m p = b \<and> b \<noteq> 0 \<and> cstr m (p + 1) bs"

lemma cstr_head: "cstr m p bs \<Longrightarrow> m p = (if bs = [] then 0 else hd bs)"
  by (cases bs) auto

lemma cstr_drop: "cstr m p bs \<Longrightarrow> n \<le> length bs \<Longrightarrow> cstr m (p + of_nat n) (drop n bs)"
proof (induction bs arbitrary: p n)
  case (Cons b bs)
  then show ?case by (cases n) (auto simp: add.assoc[symmetric] dest!: Cons.IH)
qed simp

lemma cstr_nonzero: "cstr m p bs \<Longrightarrow> b \<in> set bs \<Longrightarrow> b \<noteq> 0"
  by (induction bs arbitrary: p) auto

lemma cstr_update:
  "cstr m p bs \<Longrightarrow> \<forall>i \<le> length bs. p + of_nat i \<noteq> x \<Longrightarrow> cstr (m(x := v)) p bs"
proof (induction bs arbitrary: p)
  case Nil
  then show ?case by auto
next
  case (Cons b bs)
  have "p \<noteq> x" using Cons.prems(2) by force
  moreover have "\<forall>i \<le> length bs. p + 1 + of_nat i \<noteq> x"
  proof (intro allI impI)
    fix i assume "i \<le> length bs"
    then show "p + 1 + of_nat i \<noteq> x"
      using Cons.prems(2)[rule_format, of "Suc i"] by (simp add: add.assoc)
  qed
  ultimately show ?case using Cons by auto
qed

lemma cstr_cut:
  "cstr m p bs \<Longrightarrow> n \<le> length bs \<Longrightarrow> n < 2 ^ 64 \<Longrightarrow> cstr (m(p + of_nat n := 0)) p (take n bs)"
proof (induction bs arbitrary: p n)
  case Nil
  then show ?case by simp
next
  case (Cons b bs)
  show ?case
  proof (cases n)
    case (Suc k)
    have "p + of_nat n \<noteq> p" using ptr_add_inj[of n 0 p] Cons.prems(3) Suc by auto
    moreover have "cstr (m(p + 1 + of_nat k := 0)) (p + 1) (take k bs)"
      using Cons.IH[of "p + 1" k] Cons.prems Suc by (simp add: fun_upd_def)
    ultimately show ?thesis using Cons.prems Suc by (auto simp: add.assoc fun_upd_def)
  qed simp
qed

lemma strlen_loop_cstr:
  "cstr m (p + of_nat k) bs \<Longrightarrow> strlen_loop m p k = Some (k + length bs)"
proof (induction bs arbitrary: k)
  case Nil
  then show ?case by (simp add: strlen_loop.simps)
next
  case (Cons b bs)
  then show ?case using Cons.IH[of "k + 1"] by (subst strlen_loop.simps) (simp add: algebra_simps)
qed

lemma strlen_cstr: "cstr m p bs \<Longrightarrow> strlen m p = Some (length bs)"
  using strlen_loop_cstr[of m p 0 bs] by (simp add: strlen_def)

lemma uint_diff_eq: "uint a - uint (b :: u8) = 0 \<longleftrightarrow> a = b"
  by (metis eq_iff_diff_eq_0 word_uint_eq_iff)

lemma uint_diff_less: "uint a - uint (b :: u8) < 0 \<longleftrightarrow> a < b"
  by (simp add: word_less_def)

lemma strcmp_stop:
  assumes "m p = 0 \<or> m p \<noteq> m q"
  shows "\<exists>r. strcmp m p q = Some r \<and> (r = 0 \<longleftrightarrow> m p = m q) \<and> (r < 0 \<longleftrightarrow> m p < m q)"
  using assms uint_diff_eq[of "m p" "m q"] uint_diff_less[of "m p" "m q"] by (subst strcmp.simps) auto

lemma strcmp_cstr:
  assumes "cstr m p as" "cstr m q bs"
  shows "\<exists>r. strcmp m p q = Some r \<and> (r = 0 \<longleftrightarrow> as = bs) \<and> (r < 0 \<longleftrightarrow> (as, bs) \<in> lexord {(x, y). x < y})"
  using assms
proof (induction as arbitrary: p q bs)
  case Nil
  then show ?case
    using strcmp_stop[of m p q] by (cases bs) (auto simp: word_greater_zero_iff)
next
  case (Cons a as)
  show ?case
  proof (cases "bs \<noteq> [] \<and> hd bs = a")
    case True
    then obtain cs where "bs = a # cs" by (cases bs) auto
    then show ?thesis
      using Cons.IH[of "p + 1" "q + 1" cs] Cons.prems by (subst strcmp.simps) auto
  next
    case False
    then have "m p \<noteq> m q" using Cons.prems by (cases bs) auto
    then show ?thesis
      using strcmp_stop[of m p q] Cons.prems False by (cases bs) auto
  qed
qed

lemma strchr_cstr:
  assumes "cstr m p bs" "c \<noteq> 0" "p \<noteq> 0" "unat p + length bs < 2 ^ 64"
  shows "\<exists>q. strchr m p (uint c) = Some q \<and> (q \<noteq> 0 \<longleftrightarrow> c \<in> set bs)"
  using assms
proof (induction bs arbitrary: p)
  case Nil
  then show ?case by (auto simp: strchr.simps unsigned_eq_0_iff)
next
  case (Cons b bs)
  have "unat (p + 1) = unat p + 1" using Cons.prems(4) by (subst unat_add_in) auto
  then have "p + 1 \<noteq> 0" "unat (p + 1) + length bs < 2 ^ 64" using Cons.prems(4) by (auto intro: unat_neq)
  moreover have "uint (m p) = uint c \<longleftrightarrow> b = c"
    using Cons.prems(1) by (simp only: word_uint_eq_iff cstr.simps)
  ultimately show ?case
    using Cons.IH[of "p + 1"] Cons.prems by (subst strchr.simps) auto
qed

definition nonnull :: "u64 \<Rightarrow> u8 list \<Rightarrow> bool" where
  "nonnull p bs \<longleftrightarrow> p \<noteq> 0 \<and> unat p + length bs < 2 ^ 64"

lemma tok_skip_cstr:
  assumes "cstr m delim ds" "nonnull delim ds" "cstr m p bs"
  shows "tok_skip m delim p = Some (p + of_nat (length (takeWhile (\<lambda>c. c \<in> set ds) bs)))"
  using assms(3)
proof (induction bs arbitrary: p)
  case Nil
  then show ?case by (simp add: tok_skip.simps)
next
  case (Cons b bs)
  then show ?case
    using strchr_cstr[OF assms(1), of b] assms(2) Cons.IH[of "p + 1"]
    by (subst tok_skip.simps) (auto simp: nonnull_def add.assoc)
qed

lemma tok_scan_cstr:
  assumes "cstr m delim ds" "nonnull delim ds" "cstr m p bs"
  shows "tok_scan m delim p = Some (p + of_nat (length (takeWhile (\<lambda>c. c \<notin> set ds) bs)))"
  using assms(3)
proof (induction bs arbitrary: p)
  case Nil
  then show ?case by (simp add: tok_scan.simps)
next
  case (Cons b bs)
  then show ?case
    using strchr_cstr[OF assms(1), of b] assms(2) Cons.IH[of "p + 1"]
    by (subst tok_scan.simps) (auto simp: nonnull_def add.assoc)
qed

lemma strtok_r_cstr:
  assumes "cstr m delim ds" "nonnull delim ds" "cstr m str bs" "nonnull str bs"
  defines "rest \<equiv> dropWhile (\<lambda>c. c \<in> set ds) bs"
  defines "tok \<equiv> takeWhile (\<lambda>c. c \<notin> set ds) rest"
  defines "tail \<equiv> dropWhile (\<lambda>c. c \<notin> set ds) rest"
  shows "rest = [] \<Longrightarrow> strtok_r m str delim (Some sv) = Some (m, Some 0, 0)"
    and "rest \<noteq> [] \<Longrightarrow> \<exists>m' save t. strtok_r m str delim (Some sv) = Some (m', Some save, t) \<and>
      t = str + of_nat (length bs - length rest) \<and> cstr m' t tok \<and>
      (if tail = [] then save = 0 \<and> m' = m else save \<noteq> 0 \<and> cstr m' save (tl tail))"
proof -
  let ?k = "length (takeWhile (\<lambda>c. c \<in> set ds) bs)" and ?n = "length tok"
  have "takeWhile (\<lambda>c. c \<in> set ds) bs @ rest = bs" by (simp add: rest_def)
  then have lenk: "length bs = ?k + length rest" by (metis length_append)
  then have k: "?k \<le> length bs" "length bs - length rest = ?k" by simp_all
  have k3: "drop ?k bs = rest" by (simp add: rest_def dropWhile_eq_drop)
  have rest_split: "rest = tok @ tail" by (simp add: tok_def tail_def)
  define t where "t = str + of_nat ?k"
  have ct: "cstr m t rest" using cstr_drop[OF assms(3) k(1)] k3 by (simp add: t_def)
  have skip: "tok_skip m delim str = Some t" using tok_skip_cstr[OF assms(1-3)] by (simp add: t_def)
  have scan: "tok_scan m delim t = Some (t + of_nat ?n)"
    using tok_scan_cstr[OF assms(1,2) ct] by (simp add: tok_def)
  have s0: "str \<noteq> 0" using assms(4) by (simp add: nonnull_def)
  show "rest = [] \<Longrightarrow> strtok_r m str delim (Some sv) = Some (m, Some 0, 0)"
    using skip ct s0 cstr_head[OF ct] by (simp add: strtok_r_def)
  assume ne: "rest \<noteq> []"
  have t0: "m t \<noteq> 0" using ct ne by (cases rest) auto
  have cm: "cstr m (t + of_nat ?n) tail"
    using cstr_drop[OF ct, of ?n] rest_split by simp
  have bound: "unat str + ?k + length rest < 2 ^ 64"
    using assms(4) lenk by (simp add: nonnull_def)
  show "\<exists>m' save t. strtok_r m str delim (Some sv) = Some (m', Some save, t) \<and>
      t = str + of_nat (length bs - length rest) \<and> cstr m' t tok \<and>
      (if tail = [] then save = 0 \<and> m' = m else save \<noteq> 0 \<and> cstr m' save (tl tail))"
  proof (cases "tail = []")
    case True
    then have "m (t + of_nat ?n) = 0" using cm by simp
    then have "strtok_r m str delim (Some sv) = Some (m, Some 0, t)"
      using skip scan t0 s0 by (simp add: strtok_r_def)
    then show ?thesis using True ct rest_split k(2) by (auto simp: t_def)
  next
    case False
    let ?m = "m(t + of_nat ?n := 0)" and ?s = "t + of_nat ?n + 1"
    have "m (t + of_nat ?n) \<noteq> 0" using cm False by (cases tail) auto
    then have run: "strtok_r m str delim (Some sv) = Some (?m, Some ?s, t)"
      using skip scan t0 s0 by (simp add: strtok_r_def)
    have len: "length rest = ?n + length tail" "0 < length tail" using rest_split False by auto
    have "cstr ?m t tok"
      using cstr_cut[OF ct, of ?n] rest_split len bound by simp
    moreover have "?s \<noteq> 0"
    proof -
      have "unat (str + of_nat (?k + ?n + 1)) = unat str + (?k + ?n + 1)"
        using bound len by (intro unat_ptr_add) linarith
      moreover have "?s = str + of_nat (?k + ?n + 1)" by (simp add: t_def)
      ultimately have "unat ?s = unat str + (?k + ?n + 1)" by (simp only:)
      then show ?thesis by (intro unat_neq) (simp only: unat_0)
    qed
    moreover have "cstr ?m ?s (tl tail)"
    proof (rule cstr_update)
      show "cstr m ?s (tl tail)" using cm False by (cases tail) auto
      show "\<forall>i \<le> length (tl tail). ?s + of_nat i \<noteq> t + of_nat ?n"
      proof (intro allI impI)
        fix i assume "i \<le> length (tl tail)"
        then have i: "Suc i < 2 ^ 64" using bound len by simp
        show "?s + of_nat i \<noteq> t + of_nat ?n"
        proof
          assume "?s + of_nat i = t + of_nat ?n"
          then have "t + of_nat ?n + of_nat (Suc i) = t + of_nat ?n + of_nat 0" by (simp add: add.assoc)
          from ptr_add_inj[OF i _ this] show False by simp
        qed
      qed
    qed
    moreover have "t = str + of_nat (length bs - length rest)" unfolding k(2) t_def ..
    ultimately show ?thesis
      using run False by (intro exI[of _ ?m] exI[of _ ?s] exI[of _ t]) (simp only: if_False simp_thms)
  qed
qed

subsection \<open>The block copy interface\<close>

lemma cstr_copied:
  "cstr m s bs \<Longrightarrow> \<forall>i \<le> length bs. m' (d + of_nat i) = m (s + of_nat i) \<Longrightarrow> cstr m' d bs"
proof (induction bs arbitrary: d s)
  case Nil
  then show ?case by simp
next
  case (Cons b bs)
  have "m' d = m s" using Cons.prems(2)[rule_format, of 0] by simp
  moreover have "\<forall>i \<le> length bs. m' (d + 1 + of_nat i) = m (s + 1 + of_nat i)"
  proof (intro allI impI)
    fix i assume "i \<le> length bs"
    then show "m' (d + 1 + of_nat i) = m (s + 1 + of_nat i)"
      using Cons.prems(2)[rule_format, of "Suc i"] by (simp add: add.assoc)
  qed
  ultimately show ?case using Cons by auto
qed

text \<open>The contract of a block copy between ranges that do not overlap, which \<open>strdup\<close> and the other
  callers rely on.\<close>

locale block_copy =
  fixes cp :: "bmem \<Rightarrow> u64 \<Rightarrow> u64 \<Rightarrow> nat \<Rightarrow> bmem"
  assumes copies: "unat d + len \<le> unat s \<or> unat s + len \<le> unat d \<Longrightarrow>
      unat d + len \<le> 2 ^ 64 \<Longrightarrow> unat s + len \<le> 2 ^ 64 \<Longrightarrow> cp m d s len = copy_range m d s len"
begin

lemma copy_string:
  assumes "cstr m s bs"
    and "unat d + Suc (length bs) \<le> unat s \<or> unat s + Suc (length bs) \<le> unat d"
    and "unat d + Suc (length bs) \<le> 2 ^ 64" "unat s + Suc (length bs) \<le> 2 ^ 64"
  shows "cstr (cp m d s (Suc (length bs))) d bs" "cstr (cp m d s (Suc (length bs))) s bs"
proof -
  have *: "unat (of_nat i :: u64) = i" if "i \<le> length bs" for i
    using that assms(3) by (intro unat_of_nat64) linarith
  show "cstr (cp m d s (Suc (length bs))) d bs"
    using assms(1) by (rule cstr_copied) (simp add: copies[OF assms(2-4)] copy_range_def *)
  have "\<not> unat (s + of_nat i - d) < Suc (length bs)" if "i \<le> length bs" for i
  proof -
    have "unat (s + of_nat i) = unat s + i" using that assms(4) by (intro unat_ptr_add) linarith
    then show ?thesis
      using assms(2,3) that unat_minus_wrap[of "s + of_nat i" d] by (auto split: if_splits)
  qed
  then show "cstr (cp m d s (Suc (length bs))) s bs"
    using assms(1) by - (rule cstr_copied[of m s], simp_all add: copies[OF assms(2-4)] copy_range_def)
qed

end

interpretation mcpy: block_copy memcpy
proof
  fix d s :: u64 and len m
  assume "unat d + len \<le> unat s \<or> unat s + len \<le> unat d" "unat d + len \<le> 2 ^ 64" "unat s + len \<le> 2 ^ 64"
  then show "memcpy m d s len = copy_range m d s len"
    by (intro memcpy_range) (auto simp: fwd_ok_def unat_minus_wrap)
qed

interpretation mmove: block_copy memmove
  by unfold_locales (rule memmove_range)

lemma strdup_copies:
  assumes "cstr m str bs" "kmalloc (Suc (length bs)) = p" "p \<noteq> 0"
    and "unat p + Suc (length bs) \<le> unat str \<or> unat str + Suc (length bs) \<le> unat p"
    and "unat p + Suc (length bs) \<le> 2 ^ 64" "unat str + Suc (length bs) \<le> 2 ^ 64"
  shows "\<exists>m'. strdup kmalloc m str = Some (m', p) \<and> cstr m' p bs \<and> cstr m' str bs"
  using mcpy.copy_string[OF assms(1,4-6)] assms(2,3) strlen_cstr[OF assms(1)] by (simp add: strdup_def)

subsection \<open>Numbers\<close>

lemma unat_bit_and1: "unat (ucast (drop_bit b (v :: u64) AND 1) :: u32) = unat v div 2 ^ b mod 2"
proof -
  have "drop_bit b v AND 1 = of_bool (bit v b)"
    by (simp add: and_one_eq mod_2_eq_odd bit_iff_odd_drop_bit)
  moreover have "bit v b = odd (unat v div 2 ^ b)"
  proof -
    have "bit v b = bit (unat v) b" by (simp add: bit_unsigned_iff)
    then show ?thesis by (simp only: bit_iff_odd)
  qed
  ultimately show ?thesis by (simp add: mod_2_eq_odd)
qed

lemma shift_in_bit:
  assumes "unat (r :: u32) < 2 ^ 31" "unat b \<le> 1"
  shows "unat (push_bit 1 r OR b) = 2 * unat r + unat b"
proof -
  have b: "b = 0 \<or> b = 1" using assms(2) by (auto simp: word_unat_eq_iff le_Suc_eq)
  have "push_bit 1 r OR b = push_bit 1 r + b"
  proof (rule disjunctive_add[symmetric])
    fix n
    have "\<not> bit (push_bit 1 r) 0" by (simp only: bit_push_bit_iff) simp
    then show "\<not> bit (push_bit 1 r) n \<or> \<not> bit b n" using b by (cases n) (auto simp: bit_1_iff)
  qed
  moreover have "unat (push_bit 1 r) = 2 * unat r"
    using assms(1) by (simp add: push_bit_eq_mult unat_word_ariths)
  ultimately show ?thesis using assms b by (auto simp: unat_word_ariths)
qed

lemma div_mod_double:
  assumes "0 < (d :: nat)" "b \<le> 1"
  shows "(2 * V + b) div d = 2 * (V div d) + (if d \<le> 2 * (V mod d) + b then 1 else 0)"
    "(2 * V + b) mod d = 2 * (V mod d) + b - (if d \<le> 2 * (V mod d) + b then d else 0)"
proof -
  let ?r = "2 * (V mod d) + b"
  have r: "?r < 2 * d" using assms mod_less_divisor[OF assms(1), of V] by linarith
  have V: "2 * V + b = d * (2 * (V div d)) + ?r"
  proof -
    have "d * (2 * (V div d)) = 2 * (d * (V div d))" by simp
    then show ?thesis using mult_div_mod_eq[of d V] by linarith
  qed
  have "?r div d = (if d \<le> ?r then 1 else 0)" "?r mod d = ?r - (if d \<le> ?r then d else 0)"
    using r assms(1) by (auto simp: div_nat_eqI le_mod_geq)
  then show "(2 * V + b) div d = 2 * (V div d) + (if d \<le> ?r then 1 else 0)"
    "(2 * V + b) mod d = ?r - (if d \<le> ?r then d else 0)"
    unfolding V using assms(1) by simp_all
qed

lemma set_low_bit:
  assumes "unat (q :: u64) = k * 2 ^ Suc b" "b < 64"
  shows "unat (q OR push_bit b 1) = (2 * k + 1) * 2 ^ b"
proof -
  have "\<not> bit q b"
  proof -
    have "bit (unat q) b = odd (unat q div 2 ^ b)" by (simp add: bit_iff_odd)
    also have "unat q div 2 ^ b = 2 * k" using assms(1) by simp
    finally show ?thesis by (simp add: bit_unsigned_iff)
  qed
  then have "q OR push_bit b 1 = q + push_bit b 1"
    by (intro disjunctive_add[symmetric]) (auto simp: bit_simps)
  moreover have p: "unat (push_bit b 1 :: u64) = 2 ^ b"
    using assms(2) by (simp add: push_bit_eq_mult unat_pow2)
  moreover have "unat q + 2 ^ b < 2 ^ 64"
  proof -
    have "k * 2 ^ Suc b < 2 ^ (63 - b) * 2 ^ Suc b"
      using unat64_less[of q] assms by (simp flip: power_add power_Suc)
    then have "k + 1 \<le> 2 ^ (63 - b)" by simp
    then have "(k + 1) * 2 ^ Suc b \<le> 2 ^ (63 - b) * 2 ^ Suc b" by (rule mult_le_mono1)
    also have "\<dots> = 2 ^ 64" using assms(2) by (simp flip: power_add power_Suc)
    finally have "unat q + 2 * 2 ^ b \<le> 2 ^ 64" using assms(1) by (simp add: algebra_simps)
    moreover have "(0 :: nat) < 2 ^ b" by simp
    ultimately show ?thesis by linarith
  qed
  ultimately show ?thesis using assms(1) by (simp add: unat_add_in algebra_simps)
qed

lemma udivmod_bits:
  assumes d: "0 < unat d" "unat d \<le> 2 ^ 31" and "b \<le> 64"
  shows "unat (fst (foldl (udivmod_step v d) (0, 0) (rev [b..<64]))) = unat v div 2 ^ b div unat d * 2 ^ b \<and>
         unat (snd (foldl (udivmod_step v d) (0, 0) (rev [b..<64]))) = unat v div 2 ^ b mod unat d"
  using assms(3)
proof (induction b rule: inc_induct)
  case base
  have "unat v div 2 ^ 64 = 0" using unat64_less[of v] by simp
  then show ?case by simp
next
  case (step b)
  define qr where "qr = foldl (udivmod_step v d) (0, 0) (rev [Suc b..<64])"
  let ?V = "unat v div 2 ^ Suc b" and ?b = "unat v div 2 ^ b mod 2"
  have IH: "unat (fst qr) = ?V div unat d * 2 ^ Suc b" "unat (snd qr) = ?V mod unat d"
    using step.IH by (simp_all add: qr_def)
  have fold: "foldl (udivmod_step v d) (0, 0) (rev [b..<64]) = udivmod_step v d qr b"
    using step.hyps by (simp add: qr_def upt_conv_Cons)
  have small: "unat (snd qr) < 2 ^ 31" using IH(2) d mod_less_divisor[OF d(1), of ?V] by linarith
  define rest where "rest = push_bit 1 (snd qr) OR ucast (drop_bit b v AND 1)"
  have rest: "unat rest = 2 * (?V mod unat d) + ?b"
    unfolding rest_def by (subst shift_in_bit[OF small]) (simp_all add: unat_bit_and1 IH(2))
  have V: "unat v div 2 ^ b = 2 * ?V + ?b"
    by (simp add: div_mult2_eq mult.commute[of 2])
  have bit1: "?b \<le> 1" by linarith
  note D = div_mod_double[OF d(1) bit1, of ?V, folded V]
  have step_eq: "udivmod_step v d qr b =
      (if d \<le> rest then (fst qr OR push_bit b 1, rest - d) else (fst qr, rest))"
    by (simp only: udivmod_step_def rest_def Let_def)
  show ?case
  proof (cases "d \<le> rest")
    case True
    have "unat (rest - d) = unat rest - unat d" using True by (simp add: unat_sub)
    moreover have "unat d \<le> 2 * (?V mod unat d) + ?b" using True rest by (simp add: word_le_nat_alt)
    ultimately show ?thesis
      unfolding fold step_eq using D rest set_low_bit[OF IH(1)] step.hyps True by simp
  next
    case False
    then have "\<not> unat d \<le> 2 * (?V mod unat d) + ?b" using rest by (simp add: word_le_nat_alt)
    then show ?thesis unfolding fold step_eq using D rest IH(1) False by simp
  qed
qed

lemma udivmod_small_nat:
  assumes "0 < unat d" "unat d \<le> 2 ^ 31"
  shows "unat (fst (udivmod_small v d)) = unat v div unat d"
    "unat (snd (udivmod_small v d)) = unat v mod unat d"
  using udivmod_bits[OF assms, of 0 v] by (simp_all add: udivmod_small_def)

fun ndigits :: "nat \<Rightarrow> nat \<Rightarrow> u8 list" where
  "ndigits r n = (if n = 0 \<or> r < 2 then [] else digit_table ! (n mod r) # ndigits r (n div r))"

declare ndigits.simps [simp del]

definition digit_val :: "u8 \<Rightarrow> nat" where
  "digit_val c = (if c \<le> 57 then unat c - 48 else unat c - 87)"

definition num_val :: "nat \<Rightarrow> u8 list \<Rightarrow> nat" where
  "num_val r cs = foldl (\<lambda>n c. n * r + digit_val c) 0 cs"

lemma digits_loop_ndigits:
  assumes "2 \<le> unat r" "unat r \<le> 16"
  shows "digits_loop v r buf = Some (buf @ ndigits (unat r) (unat v))"
proof (induction "unat v" arbitrary: v buf rule: less_induct)
  case less
  note U = udivmod_small_nat[of r v]
  show ?case
  proof (cases "v = 0")
    case True
    then show ?thesis by (simp add: digits_loop.simps ndigits.simps)
  next
    case False
    then have "0 < unat v" by (simp add: unat_gt_0)
    then have "unat (fst (udivmod_small v r)) < unat v" using U assms by simp
    from less[OF this] show ?thesis
      using U assms False \<open>0 < unat v\<close>
      by (subst digits_loop.simps) (simp add: ndigits.simps[of "unat r" "unat v"])
  qed
qed

lemma reverse_loop_nth:
  "j < length buf \<Longrightarrow> length (reverse_loop buf i j) = length buf \<and>
     (\<forall>k < length buf. reverse_loop buf i j ! k = (if i \<le> k \<and> k \<le> j then buf ! (i + j - k) else buf ! k))"
proof (induction buf i j rule: reverse_loop.induct)
  case (1 buf i j)
  show ?case
  proof (cases "i < j")
    case True
    let ?b = "buf[j := buf ! i, i := buf ! j]"
    have IH: "length (reverse_loop ?b (i + 1) (j - 1)) = length buf"
      "\<And>k. k < length buf \<Longrightarrow> reverse_loop ?b (i + 1) (j - 1) ! k =
        (if i + 1 \<le> k \<and> k \<le> j - 1 then ?b ! (i + j - k) else ?b ! k)"
      using 1 True by auto
    have "reverse_loop buf i j = reverse_loop ?b (i + 1) (j - 1)"
      using True by (simp add: reverse_loop.simps[of buf])
    then show ?thesis
      using IH True "1.prems" by (auto simp: nth_list_update)
  next
    case False
    then show ?thesis by (auto simp: reverse_loop.simps[of buf] intro!: arg_cong[of _ _ "(!) buf"])
  qed
qed

lemma reverse_loop_rev: "reverse_loop buf 0 (length buf - 1) = rev buf"
proof (cases "buf = []")
  case True
  then show ?thesis by (simp add: reverse_loop.simps)
next
  case False
  then show ?thesis
    using reverse_loop_nth[of "length buf - 1" buf 0]
    by (auto intro!: nth_equalityI simp: rev_nth)
qed

lemma utoa_helper_digits:
  assumes "2 \<le> unat r" "unat r \<le> 16"
  shows "utoa_helper v r = Some (if v = 0 then [48] else rev (ndigits (unat r) (unat v)))"
  by (simp add: utoa_helper_def digits_loop_ndigits[OF assms] reverse_loop_rev[unfolded One_nat_def])

lemma digit_val_table: "k < 16 \<Longrightarrow> digit_val (digit_table ! k) = k"
proof -
  assume "k < 16"
  then have "k \<in> {0..<16}" by simp
  moreover have "\<forall>k \<in> {0..<16}. digit_val (digit_table ! k) = k" by code_simp
  ultimately show ?thesis by blast
qed

lemma num_val_snoc: "num_val r (cs @ [c]) = num_val r cs * r + digit_val c"
  by (simp add: num_val_def)

lemma num_val_ndigits:
  assumes "2 \<le> r" "r \<le> 16"
  shows "num_val r (rev (ndigits r n)) = n"
proof (induction n rule: less_induct)
  case (less n)
  show ?case
  proof (cases "n = 0")
    case True
    then show ?thesis by (simp add: ndigits.simps num_val_def)
  next
    case False
    then have "n div r < n" using assms by simp
    moreover have "n mod r < 16" using assms mod_less_divisor[of r n] by linarith
    ultimately show ?thesis
      using less[of "n div r"] False assms by (simp add: ndigits.simps[of r n] num_val_snoc digit_val_table)
  qed
qed

lemma ndigits_length: "2 \<le> r \<Longrightarrow> n < r ^ k \<Longrightarrow> length (ndigits r n) \<le> k"
proof (induction k arbitrary: n)
  case 0
  then show ?case by (simp add: ndigits.simps)
next
  case (Suc k)
  have "n div r < r ^ k" using Suc.prems by (simp add: less_mult_imp_div_less mult.commute)
  then show ?case using Suc.IH[of "n div r"] Suc.prems by (subst ndigits.simps) auto
qed

definition signed_text :: "int \<Rightarrow> u8 list" where
  "signed_text i = (if i < 0 then 45 # rev (ndigits 10 (nat (- i)))
                    else if i = 0 then [48] else rev (ndigits 10 (nat i)))"

lemma itoa_helper_digits: "itoa_helper v 10 = Some (signed_text (sint v))"
proof -
  have neg: "v <s 0 \<longleftrightarrow> sint v < 0" by (simp add: word_sless_alt)
  have z: "v = 0 \<longleftrightarrow> sint v = 0" by (simp add: signed_eq_0_iff)
  have range: "- (2 ^ 63) \<le> sint v" "sint v < 2 ^ 63" using sint_ge[of v] sint_lt[of v] by simp_all
  have u: "unat (word_of_int k :: u64) = nat k" if "0 \<le> k" "k < 2 ^ 64" for k
    using that by (simp add: unat_eq_nat_uint uint_word_of_int)
  have m: "unat (- v) = nat (- sint v)" if "sint v < 0"
    using u[of "- sint v"] range that by simp
  have p: "unat v = nat (sint v)" if "0 \<le> sint v"
    using u[of "sint v"] range that by simp
  have D: "digits_loop w 10 [] = Some (ndigits 10 (unat w))" for w
    using digits_loop_ndigits[of 10 w "[]"] by simp
  have "(- (v + 1)) + 1 = - v" by simp
  then show ?thesis
    unfolding itoa_helper_def Let_def neg signed_text_def
    using z m p by (auto simp: D reverse_loop_rev[unfolded One_nat_def])
qed


subsection \<open>Rendering a format\<close>

definition represents :: "nat \<Rightarrow> u8 list \<Rightarrow> vout" where
  "represents cap t = (take cap t, int (length t))"

lemma put_represents: "put cap c (represents cap t) = represents cap (t @ [c])"
  by (auto simp: put_def represents_def)

lemma put_n_represents:
  "put_n cap c n (represents cap t) = represents cap (t @ replicate (nat n) c)"
proof (induction "nat n" arbitrary: n t)
  case 0
  then show ?case by (simp add: put_n.simps)
next
  case (Suc k)
  then have "0 < n" "k = nat (n - 1)" by auto
  then have "replicate (nat n) c = c # replicate (nat (n - 1)) c"
    by (metis Suc.hyps(2) replicate_Suc)
  then show ?case
    using Suc.hyps(1)[OF \<open>k = nat (n - 1)\<close>] \<open>0 < n\<close> by (subst put_n.simps) (simp add: put_represents)
qed

lemma put_str_represents: "put_str cap s (represents cap t) = represents cap (t @ s)"
  by (induction s arbitrary: t) (simp_all add: put_represents)

definition field_text :: "fmt_spec \<Rightarrow> u8 \<Rightarrow> u8 list \<Rightarrow> u8 list" where
  "field_text f pad txt =
     (let n = nat (width f - int (length txt))
      in if left_align f then txt @ replicate n 32 else replicate n pad @ txt)"

definition signed_field :: "fmt_spec \<Rightarrow> u8 \<Rightarrow> u8 list \<Rightarrow> u8 list" where
  "signed_field f pad txt =
     (if \<not> left_align f \<and> pad = 48 \<and> int (length txt) < width f \<and> txt ! 0 = 45
      then 45 # field_text (f\<lparr>width := width f - 1\<rparr>) 48 (drop 1 txt) else field_text f pad txt)"

definition conv_text :: "fmt_spec \<Rightarrow> varg list \<Rightarrow> (u8 list \<times> varg list) option" where
  "conv_text f args =
     (let pad = (if zero_pad f \<and> \<not> left_align f then 48 else 32);
          number = (\<lambda>txt. map_option (\<lambda>(w, args1). (txt w, args1)) (pop_word args));
          unsigned = (\<lambda>r w. let v = unat (arg_unsigned (length_modifier f) w)
                             in if v = 0 then [48] else rev (ndigits r v))
      in if spec f = 99 then number (\<lambda>w. field_text f 32 [ucast w])
         else if spec f = 115 then map_option (\<lambda>(s, args1). (field_text f 32 (conv_string f s), args1)) (pop_str args)
         else if spec f \<in> {100, 105} then
           number (\<lambda>w. signed_field f pad (signed_text (sint (arg_signed (length_modifier f) w))))
         else if spec f = 117 then number (\<lambda>w. field_text f pad (unsigned 10 w))
         else if spec f = 112 then
           number (\<lambda>w. field_text f 32 ([48, 120] @ (if w = 0 then [48] else rev (ndigits 16 (unat w)))))
         else if spec f = 120 then number (\<lambda>w. field_text f pad (unsigned 16 w))
         else if spec f = 88 then number (\<lambda>w. field_text f pad (map upper_hex (unsigned 16 w)))
         else if spec f = 37 then Some ([37], args)
         else Some ([37, spec f], args))"

lemma put_field_represents: "put_field cap f pad txt (represents cap t) = represents cap (t @ field_text f pad txt)"
  by (auto simp: put_field_def field_text_def Let_def put_n_represents put_str_represents)

lemma put_char_represents: "put_char cap f c (represents cap t) = represents cap (t @ field_text f 32 [c])"
  by (auto simp: put_char_def field_text_def Let_def put_n_represents put_represents)

lemma put_signed_represents:
  "txt \<noteq> [] \<Longrightarrow> put_signed cap f pad txt (represents cap t) = represents cap (t @ signed_field f pad txt)"
proof -
  assume "txt \<noteq> []"
  then have "1 + int (length txt - Suc 0) = int (length txt)" by (cases "txt") auto
  then show ?thesis
    by (auto simp: put_signed_def signed_field_def put_field_represents put_represents put_n_represents
        put_str_represents field_text_def Let_def algebra_simps)
qed

lemma put_conv_represents:
  "put_conv cap f args (represents cap t) =
     map_option (\<lambda>(s, args1). (represents cap (t @ s), args1)) (conv_text f args)"
proof -
  have "signed_text i \<noteq> []" for i by (auto simp: signed_text_def ndigits.simps)
  moreover have "arg_unsigned lm w = 0 \<longleftrightarrow> unat (arg_unsigned lm w) = 0" for lm w
    by (simp add: word_unat_eq_iff)
  ultimately show ?thesis
    by (cases "pop_word args"; cases "pop_str args")
      (auto simp: put_conv_def conv_text_def Let_def put_char_represents put_field_represents
        put_signed_represents put_represents itoa_helper_digits utoa_helper_digits)
qed

function render :: "u8 list \<Rightarrow> varg list \<Rightarrow> u8 list option" where
  "render [] args = Some []"
| "render (c # p) args =
     (if c \<noteq> 37 then map_option ((#) c) (render p args)
      else if p = [] then Some []
      else case parse_spec p args of
             None \<Rightarrow> None
           | Some (f, p4, args1) \<Rightarrow>
               (case conv_text f args1 of
                  None \<Rightarrow> None
                | Some (s, args2) \<Rightarrow> if p4 = [] then None else map_option ((@) s) (render (tl p4) args2)))"
  by pat_completeness auto
termination
  by (relation "measure (\<lambda>(p, args). length p)") (auto dest!: parse_spec_shorter)

lemma vsn_loop_represents:
  "vsn_loop cap p args (represents cap t) = map_option (\<lambda>s. represents cap (t @ s)) (render p args)"
proof (induction p args arbitrary: t rule: render.induct)
  case (1 args)
  then show ?case by simp
next
  case (2 c p args)
  then show ?case
    by (auto simp: put_represents put_conv_represents option.map_comp comp_def split: option.splits)
qed

subsection \<open>Properties\<close>

lemma render_append_none: "37 \<notin> set pre \<Longrightarrow> render q args = None \<Longrightarrow> render (pre @ q) args = None"
  by (induction pre) auto

text \<open>C8. \<open>memmove\<close> copies exactly \<open>len\<close> bytes for every overlap of source and destination: each
  byte of the destination range gets the byte that was at the corresponding source address before the
  call, and nothing else changes, whichever direction and word loops the alignment selects.\<close>

theorem memmove_correct:
  assumes "unat d + len \<le> 2 ^ 64" "unat s + len \<le> 2 ^ 64"
  shows "memmove m d s len x = (if unat (x - d) < len then m (s + (x - d)) else m x)"
  using memmove_range[OF assms] by (simp add: copy_range_def)

theorem memmove_correct_witness:
  "memmove ucast 0x1005 0x1001 100 0x1010 = 0x0C \<and> memmove ucast 0x1005 0x1001 100 0x2000 = 0"
  using memmove_correct[of "0x1005" 100 "0x1001" ucast "0x1010"]
    memmove_correct[of "0x1005" 100 "0x1001" ucast "0x2000"] by simp

text \<open>C9. On ranges that do not overlap \<open>memcpy\<close>, with its four-word inner loop, gives the same memory as
  \<open>memmove\<close>.\<close>

theorem memcpy_eq_memmove:
  assumes "unat d + len \<le> unat s \<or> unat s + len \<le> unat d"
    and "unat d + len \<le> 2 ^ 64" "unat s + len \<le> 2 ^ 64"
  shows "memcpy m d s len = memmove m d s len"
proof -
  have "len \<le> 2 ^ 64" using assms(2) by simp
  moreover have "fwd_ok d s len"
    using assms by (auto simp: fwd_ok_def unat_minus_wrap)
  ultimately show ?thesis using memcpy_range memmove_range[OF assms(2,3)] by simp
qed

theorem memcpy_eq_memmove_witness: "memcpy ucast 0x1003 0x2001 70 = memmove ucast 0x1003 0x2001 70"
  using memcpy_eq_memmove[of "0x1003" 70 "0x2001" ucast] by simp

text \<open>C10. \<open>memset\<close> stores the low byte of \<open>val\<close> at every address of the range and nowhere else: the
  replicated word and the three loops agree with the byte-wise definition.\<close>

theorem memset_correct:
  assumes "len \<le> 2 ^ 64"
  shows "memset m d val len x = (if unat (x - d) < len then word_of_int val else m x)"
  using memset_range[OF assms] by (simp add: set_range_def)

theorem memset_correct_witness:
  "memset (\<lambda>_. 7) 0x1003 0x1FF 61 0x103F = 0xFF \<and> memset (\<lambda>_. 7) 0x1003 0x1FF 61 0x1040 = 7"
  using memset_correct[of 61 "\<lambda>_. 7" "0x1003" "0x1FF" "0x103F"]
    memset_correct[of 61 "\<lambda>_. 7" "0x1003" "0x1FF" "0x1040"] by simp

text \<open>C11. \<open>strcmp\<close> of two terminated strings ends and returns 0 exactly when they are equal and a negative
  number exactly when the first is lexicographically smaller by unsigned bytes.\<close>

theorem strcmp_order:
  assumes "cstr m p as" "cstr m q bs"
  shows "\<exists>r. strcmp m p q = Some r \<and> (r = 0 \<longleftrightarrow> as = bs) \<and>
           (r < 0 \<longleftrightarrow> (as, bs) \<in> lexord {(x, y). x < y})"
  by (rule strcmp_cstr[OF assms])

definition demo_mem :: bmem where
  "demo_mem = (\<lambda>x. if unat (x - 0x100) < 8 then [47, 97, 98, 47, 47, 99, 47, 0] ! unat (x - 0x100)
                   else if x = 0x200 then 47 else 0)"

theorem strcmp_order_witness: "\<exists>r. strcmp demo_mem 0x104 0x106 = Some r \<and> 0 < r"
proof -
  have "cstr demo_mem 0x104 [47, 99, 47]" "cstr demo_mem 0x106 [47]" by (simp_all add: demo_mem_def)
  from strcmp_order[OF this] show ?thesis by force
qed

text \<open>C12. One call of \<open>strtok_r\<close> on a terminated string: the leading delimiters are skipped, the token is
  the longest run without delimiters and is terminated in place, the saved pointer is just behind that
  terminator (NULL when the string ended there), and a string of delimiters only gives NULL.\<close>

theorem strtok_r_token:
  assumes "cstr m delim ds" "nonnull delim ds" "cstr m str bs" "nonnull str bs"
  shows "case dropWhile (\<lambda>c. c \<in> set ds) bs of
      [] \<Rightarrow> strtok_r m str delim (Some sv) = Some (m, Some 0, 0)
    | c # cs \<Rightarrow> (\<exists>m' save t. strtok_r m str delim (Some sv) = Some (m', Some save, t) \<and>
        t = str + of_nat (length bs - length (c # cs)) \<and>
        cstr m' t (takeWhile (\<lambda>c. c \<notin> set ds) (c # cs)) \<and>
        (if dropWhile (\<lambda>c. c \<notin> set ds) (c # cs) = [] then save = 0 \<and> m' = m
         else save \<noteq> 0 \<and> cstr m' save (tl (dropWhile (\<lambda>c. c \<notin> set ds) (c # cs)))))"
proof (cases "dropWhile (\<lambda>c. c \<in> set ds) bs")
  case Nil
  show ?thesis unfolding Nil list.case by (rule strtok_r_cstr(1)[OF assms Nil])
next
  case (Cons c cs)
  then have "dropWhile (\<lambda>c. c \<in> set ds) bs \<noteq> []" by simp
  from strtok_r_cstr(2)[OF assms this, of sv] show ?thesis unfolding Cons list.case .
qed

theorem strtok_r_token_witness:
  "\<exists>m' save. strtok_r demo_mem 0x100 0x200 (Some 0) = Some (m', Some save, 0x101) \<and>
     cstr m' 0x101 [97, 98] \<and> cstr m' save [47, 99, 47]"
proof -
  have 1: "cstr demo_mem 0x200 [47]" "cstr demo_mem 0x100 [47, 97, 98, 47, 47, 99, 47]"
    by (simp_all add: demo_mem_def)
  have 2: "nonnull 0x200 [47]" "nonnull 0x100 [47, 97, 98, 47, 47, 99, 47]" by (simp_all add: nonnull_def)
  show ?thesis using strtok_r_token[OF 1(1) 2(1) 1(2) 2(2), of 0] by auto
qed

text \<open>C13. Printing and reading back: in every base from 2 to 16 \<open>utoa_helper\<close> ends, the digits it leaves
  after the in-place reversal denote the value, and there are at most 20 of them in base 10 and 16 in base
  16, so that the 32-byte buffer of \<open>vsnprintf\<close> always has room.\<close>

theorem utoa_roundtrip:
  assumes "2 \<le> unat r" "unat r \<le> 16"
  shows "\<exists>cs. utoa_helper v r = Some cs \<and> num_val (unat r) cs = unat v \<and> cs \<noteq> [] \<and>
           (unat r = 10 \<longrightarrow> length cs \<le> 20) \<and> (unat r = 16 \<longrightarrow> length cs \<le> 16)"
proof -
  let ?cs = "if v = 0 then [48] else rev (ndigits (unat r) (unat v))"
  have v: "unat v < 10 ^ 20" "unat v < 16 ^ 16" using unat64_less[of v] by simp_all
  have "num_val (unat r) ?cs = unat v"
    using num_val_ndigits[OF assms] by (simp add: num_val_def digit_val_def)
  moreover have "?cs \<noteq> []"
    using assms by (simp add: ndigits.simps word_unat_eq_iff)
  moreover have "unat r = 10 \<Longrightarrow> length ?cs \<le> 20" "unat r = 16 \<Longrightarrow> length ?cs \<le> 16"
    using ndigits_length[of 10 "unat v" 20] ndigits_length[of 16 "unat v" 16] v by simp_all
  ultimately show ?thesis using utoa_helper_digits[OF assms, of v] by blast
qed

theorem utoa_roundtrip_witness: "\<exists>cs. utoa_helper 0xDEADBEEF 16 = Some cs \<and> num_val 16 cs = 0xDEADBEEF"
  using utoa_roundtrip[of 16 "0xDEADBEEF"] by auto




end
