(* ===== verification/PhysMem.thy ===== *)
theory PhysMem
  imports KHeap KString
begin

text \<open>
  The physical page allocator of \<open>kernel/memory/physical.c\<close> with the RAM detection of
  \<open>kernel/memory/detect.c\<close>: boot-time reservation in a bitmap, and the run-time allocator that searches
  \<open>page_infos\<close> for a run of free pages and counts references per page. What the platform provides
  (RAM window, linker symbols, DTB address, MMU state) is the record \<open>platform\<close>. The page metadata is the
  list behind \<open>page_infos\<close>; \<open>infos_addr\<close> is the pointer itself. Every operation runs under
  \<open>buddy_lock\<close> in the code and is one step here. Theory \<open>PhysMem_Correct\<close> has the proofs.
\<close>

subsection \<open>State\<close>

record platform =
  ram_start :: u64
  mem_size :: u32
  free_memory_start :: u64
  kernel_end :: u64
  heap_start_sym :: u64
  heap_size_sym :: u64
  dtb_address :: u64
  mmu_enabled :: bool
  direct_map_size :: u64

record page_info =
  used :: bool
  psize :: u64
  reserved :: bool
  refcount :: u16
  pstart :: u64

record physmem =
  bitmap :: "u32 list"
  bitmap_addr :: u64
  total_pages :: u32
  free_pages_cnt :: u32
  start_addr :: u64
  bitmap_pages :: u32
  pages_allocated :: u32
  pages_freed :: u32
  buddy_base :: u64
  infos_addr :: u64
  page_infos :: "page_info list"
  pmem :: bmem

definition ram_end :: "platform \<Rightarrow> u64" where
  "ram_end e = ram_start e + ucast (mem_size e)"

definition phys_in_direct_map :: "platform \<Rightarrow> u64 \<Rightarrow> bool" where
  "phys_in_direct_map e paddr \<longleftrightarrow> paddr - ram_start e < direct_map_size e"

definition MAX_ORDER :: nat where
  "MAX_ORDER = 10"

definition BUDDY_BASE :: u64 where
  "BUDDY_BASE = 0x54010000"

definition sizeof_page_info :: u32 where
  "sizeof_page_info = 20"

subsection \<open>RAM detection\<close>

definition platform_ram_limit :: "u64 \<Rightarrow> u64 \<Rightarrow> u32" where
  "platform_ram_limit rs ds =
     (if rs < ds \<and> ds - rs \<le> 0xFFFFFFFF
      then ucast (ds - rs) else 0xFFFFFFFF)"

text \<open>The first \<open>/memory\<close> bank of the device tree that contains the start of RAM; \<open>layout\<close> is what
  \<open>fdt_read_memory_layout\<close> returned, \<open>None\<close> without a usable device tree.\<close>

definition detect_memory ::
    "u32 \<Rightarrow> u64 \<Rightarrow> u64 \<Rightarrow> u64 \<Rightarrow> (u64 \<times> u64) list option \<Rightarrow> u32" where
  "detect_memory kernel_memory_size rs ds fallback layout =
     (if kernel_memory_size \<noteq> 0 then kernel_memory_size
      else let banks = (case layout of None \<Rightarrow> [] | Some bs \<Rightarrow> bs);
               detected = (case find (\<lambda>(start, sz). start \<le> rs \<and> rs < start + sz) banks of
                             None \<Rightarrow> 0 | Some (start, sz) \<Rightarrow> start + sz - rs);
               detected = (if detected = 0 then fallback else detected);
               limit = ucast (platform_ram_limit rs ds);
               detected = (if limit < detected then limit else detected);
               detected = (if 0xFFFFFFFF < detected then 0xFFFFFFFF else detected)
      in ucast detected)"

subsection \<open>Bitmap\<close>

definition bitmap_bit :: "physmem \<Rightarrow> u32 \<Rightarrow> bool" where
  "bitmap_bit s page_index \<longleftrightarrow> bit (bitmap s ! unat (page_index div 32)) (unat (page_index mod 32))"

definition set_page_used :: "physmem \<Rightarrow> u32 \<Rightarrow> bool \<times> physmem" where
  "set_page_used s page_index =
     (let word_index = unat (page_index div 32); bit_index = unat (page_index mod 32) in
      if (bitmap s ! word_index) AND push_bit bit_index 1 = 0 then
        (True, s\<lparr>bitmap := (bitmap s)[word_index := (bitmap s ! word_index) OR push_bit bit_index 1],
                 free_pages_cnt := free_pages_cnt s - 1\<rparr>)
      else (False, s))"

definition set_page_free :: "physmem \<Rightarrow> u32 \<Rightarrow> physmem" where
  "set_page_free s page_index =
     (let word_index = unat (page_index div 32); bit_index = unat (page_index mod 32) in
      if (bitmap s ! word_index) AND push_bit bit_index 1 \<noteq> 0 then
        s\<lparr>bitmap := (bitmap s)[word_index := (bitmap s ! word_index) AND NOT (push_bit bit_index 1)],
          free_pages_cnt := free_pages_cnt s + 1\<rparr>
      else s)"

definition is_page_free :: "physmem \<Rightarrow> u32 \<Rightarrow> bool" where
  "is_page_free s page_index \<longleftrightarrow>
     (bitmap s ! unat (page_index div 32)) AND push_bit (unat (page_index mod 32)) 1 = 0"

text \<open>The reservation loops walk a physical range page by page. Three of them stop at an index out of
  range, the heap loop skips it (\<open>skip\<close>). Addresses stay far below \<open>2^64\<close>, so the cursor is a \<open>nat\<close>.\<close>

function reserve_loop :: "bool \<Rightarrow> physmem \<Rightarrow> nat \<Rightarrow> nat \<Rightarrow> physmem" where
  "reserve_loop skip s addr stop =
     (if addr < stop then
        let page_index = ucast ((of_nat addr - start_addr s) div 4096) in
        if total_pages s \<le> page_index
        then if skip then reserve_loop skip s (addr + 4096) stop else s
        else reserve_loop skip (snd (set_page_used s page_index)) (addr + 4096) stop
      else s)"
  by pat_completeness auto
termination
  by (relation "measure (\<lambda>(skip, s, addr, stop). stop - addr)") auto

declare reserve_loop.simps [simp del]

definition managed_end :: "physmem \<Rightarrow> u64" where
  "managed_end s = start_addr s + ucast (total_pages s) * 4096"

definition reserve_kernel_pages :: "platform \<Rightarrow> physmem \<Rightarrow> physmem" where
  "reserve_kernel_pages e s =
     (if kernel_end e \<le> start_addr s then s
      else if managed_end s < kernel_end e then s
      else reserve_loop False s (unat (start_addr s)) (unat (align_up (kernel_end e) 4096)))"

definition reserve_dtb_pages :: "platform \<Rightarrow> physmem \<Rightarrow> physmem" where
  "reserve_dtb_pages e s =
     (let dtb_start = dtb_address e; dtb_end = dtb_start + 0x100000 in
      if dtb_start = 0 then s
      else if dtb_end \<le> start_addr s \<or> managed_end s \<le> dtb_start then s
      else let dtb_start = (if dtb_start < start_addr s then start_addr s else dtb_start);
               dtb_end = (if managed_end s < dtb_end then managed_end s else dtb_end);
               dtb_start_page = align_down dtb_start 4096;
               dtb_end_page = align_up dtb_end 4096;
               s1 = s\<lparr>buddy_base := align_up (dtb_end_page + 4096) 4096\<rparr>
      in reserve_loop False s1 (unat dtb_start_page) (unat dtb_end_page))"

definition reserve_bitmap_pages :: "physmem \<Rightarrow> physmem" where
  "reserve_bitmap_pages s =
     (let bitmap_start = bitmap_addr s; bitmap_end = bitmap_start + ucast (bitmap_pages s) * 4096 in
      if bitmap_end \<le> start_addr s \<or> managed_end s \<le> bitmap_start then s
      else let bitmap_start = (if bitmap_start < start_addr s then start_addr s else bitmap_start);
               bitmap_end = (if managed_end s < bitmap_end then managed_end s else bitmap_end)
      in reserve_loop False s (unat bitmap_start) (unat bitmap_end))"

definition reserve_heap_pages :: "kheap \<Rightarrow> physmem \<Rightarrow> physmem" where
  "reserve_heap_pages h s =
     (if heap_base h = 0 \<or> heap_size h = 0 then s
      else let heap_start = heap_base h; heap_end = heap_start + heap_size h in
      if heap_end \<le> start_addr s then s
      else if managed_end s \<le> heap_start then s
      else let heap_start = (if heap_start < start_addr s then start_addr s else heap_start);
               heap_end = (if managed_end s < heap_end then managed_end s else heap_end)
      in reserve_loop True s (unat heap_start) (unat heap_end))"

subsection \<open>Boot\<close>

definition early_alloc :: "physmem \<Rightarrow> u32 \<Rightarrow> u32 \<Rightarrow> physmem \<times> u64" where
  "early_alloc s sz align =
     (let alloc_base = align_up (buddy_base s) (ucast align)
      in (s\<lparr>buddy_base := align_up (alloc_base + ucast sz) 4096\<rparr>, alloc_base))"

definition choose_buddy_base :: "platform \<Rightarrow> physmem \<Rightarrow> u64" where
  "choose_buddy_base e s =
     (let base = align_up (free_memory_start e) 4096;
          base = (if base < start_addr s then align_up (start_addr s) 4096 else base);
          base = (if ram_start e \<le> buddy_base s \<and> buddy_base s < ram_end e \<and> base < buddy_base s
                  then align_up (buddy_base s) 4096 else base);
          base = (if ram_start e \<le> BUDDY_BASE \<and> BUDDY_BASE < ram_end e \<and> base < BUDDY_BASE
                  then align_up BUDDY_BASE 4096 else base);
          base = (if base < ram_start e then ram_start e else base)
      in if ram_end e \<le> base then align_up (free_memory_start e) 4096 else base)"

definition zero_info :: page_info where
  "zero_info = \<lparr>used = False, psize = 0, reserved = False, refcount = 0, pstart = 0\<rparr>"

text \<open>\<open>buddy_init\<close>: place and clear \<open>page_infos\<close>, one entry per page counted free at that point; the
  first word of the arena is cleared for the (otherwise unused) block lists.\<close>

definition buddy_init :: "platform \<Rightarrow> physmem \<Rightarrow> physmem" where
  "buddy_init e s =
     (let s1 = s\<lparr>buddy_base := choose_buddy_base e s\<rparr>;
          page_info_size = free_pages_cnt s1 * sizeof_page_info;
          (s2, region) = early_alloc s1 page_info_size 8;
          infos = align_up region 8;
          base = align_up (buddy_base s2) 4096
      in s2\<lparr>pmem := memset (memset (pmem s2) infos 0 (unat page_info_size)) base 0 8,
            infos_addr := infos,
            page_infos := replicate (unat (free_pages_cnt s1)) zero_info,
            buddy_base := base\<rparr>)"

definition init_memory :: "platform \<Rightarrow> physmem \<times> kheap \<Rightarrow> bool \<times> physmem \<times> kheap" where
  "init_memory e sh =
     (let (s, h) = sh;
          mem_start = ram_start e;
          bitmap_start = align_up (free_memory_start e) 4096;
          re = mem_start + ucast (mem_size e);
          tot = mem_size e div 4096;
          bitmap_size_words = (tot + 31) div 32;
          bitmap_size_bytes = bitmap_size_words * 4;
          bpages = ucast ((ucast bitmap_size_bytes + 4096 - 1 :: u64) div 4096);
          s1 = s\<lparr>total_pages := tot, bitmap_pages := bpages\<rparr>
      in if bitmap_start < mem_start \<or> re \<le> bitmap_start then (False, s1, h)
      else let s2 = s1\<lparr>start_addr := bitmap_start + ucast bpages * 4096\<rparr> in
      if re < start_addr s2 then (False, s2, h)
      else let s3 = s2\<lparr>total_pages := ucast ((re - start_addr s2) div 4096), bitmap_addr := bitmap_start\<rparr> in
      if re < bitmap_addr s3 + ucast bitmap_size_bytes then (False, s3, h)
      else let s4 = s3\<lparr>bitmap := replicate (unat bitmap_size_words) 0, free_pages_cnt := total_pages s3\<rparr>;
               s5 = reserve_bitmap_pages (reserve_kernel_pages e s4);
               (ok, h1) = init_kernel_heap_region h (heap_start_sym e) (heap_size_sym e)
      in if \<not> ok then (False, s5, h1)
      else (True, buddy_init e (reserve_dtb_pages e (reserve_heap_pages h1 s5)), h1))"

subsection \<open>Run-time allocator\<close>

function get_order_loop :: "u64 \<Rightarrow> nat \<Rightarrow> u64 \<Rightarrow> nat" where
  "get_order_loop sz order tot =
     (if order < MAX_ORDER \<and> tot < sz then get_order_loop sz (order + 1) (push_bit 1 tot) else order)"
  by pat_completeness auto
termination
  by (relation "measure (\<lambda>(sz, order, tot). MAX_ORDER - order)") auto

definition get_order :: "u64 \<Rightarrow> nat" where
  "get_order sz = get_order_loop (align_up sz 4096) 0 4096"

definition buddy_of :: "u64 \<Rightarrow> nat \<Rightarrow> u64" where
  "buddy_of addr order = addr XOR push_bit (order + 12) 1"

definition max_pages :: "platform \<Rightarrow> physmem \<Rightarrow> nat" where
  "max_pages e s = unat (ucast ((ram_end e - buddy_base s) div 4096) :: u32)"

definition page_info_array :: "platform \<Rightarrow> physmem \<Rightarrow> page_info list option" where
  "page_info_array e s =
     (if infos_addr s = 0 then None
      else if mmu_enabled e \<and> \<not> phys_in_direct_map e (infos_addr s) then None
      else Some (page_infos s))"

definition account_buddy_alloc :: "physmem \<Rightarrow> u64 \<Rightarrow> physmem" where
  "account_buddy_alloc s pages =
     s\<lparr>free_pages_cnt := (if ucast (free_pages_cnt s) < pages then 0 else free_pages_cnt s - ucast pages),
       pages_allocated := pages_allocated s + ucast pages\<rparr>"

definition account_buddy_free :: "physmem \<Rightarrow> u64 \<Rightarrow> physmem" where
  "account_buddy_free s pages =
     s\<lparr>free_pages_cnt := (if ucast (total_pages s - free_pages_cnt s) < pages then total_pages s
                           else free_pages_cnt s + ucast pages),
       pages_freed := pages_freed s + ucast pages\<rparr>"

text \<open>The search loop: the start of the first run of \<open>num_block\<close> pages that are free and not reserved.\<close>

function buddy_scan :: "page_info list \<Rightarrow> nat \<Rightarrow> nat \<Rightarrow> nat \<Rightarrow> nat \<Rightarrow> nat \<Rightarrow> nat option" where
  "buddy_scan infos num_block maxp index run_start run_length =
     (if index < maxp then
        let free = (\<not> used (infos ! index) \<and> \<not> reserved (infos ! index));
            run_start = (if free \<and> run_length = 0 then index else run_start);
            run_length = (if free then run_length + 1 else 0)
        in if run_length = num_block then Some run_start
           else buddy_scan infos num_block maxp (index + 1) run_start run_length
      else None)"
  by pat_completeness auto
termination
  by (relation "measure (\<lambda>(infos, n, max, index, rs, rl). max - index)") auto

declare buddy_scan.simps [simp del] get_order_loop.simps [simp del]

definition mark_used :: "u64 \<Rightarrow> u64 \<Rightarrow> page_info \<Rightarrow> page_info" where
  "mark_used addr n p = p\<lparr>used := True, pstart := addr, psize := n, refcount := 1\<rparr>"

definition mark_free :: "page_info \<Rightarrow> page_info" where
  "mark_free p = p\<lparr>used := False, psize := 0, refcount := 0\<rparr>"

definition update_run :: "(page_info \<Rightarrow> page_info) \<Rightarrow> page_info list \<Rightarrow> nat \<Rightarrow> nat \<Rightarrow> page_info list" where
  "update_run f infos start n = foldl (\<lambda>xs j. xs[start + j := f (xs ! (start + j))]) infos [0..<n]"

definition buddy_alloc :: "platform \<Rightarrow> physmem \<Rightarrow> u64 \<Rightarrow> physmem \<times> u64" where
  "buddy_alloc e s num_block =
     (if num_block = 0 \<or> max_pages e s < unat num_block then (s, 0)
      else case page_info_array e s of
             None \<Rightarrow> (s, 0)
           | Some infos \<Rightarrow>
               (case buddy_scan infos (unat num_block) (max_pages e s) 0 0 0 of
                  None \<Rightarrow> (s, 0)
                | Some run_start \<Rightarrow>
                    let addr = buddy_base s + of_nat run_start * 4096;
                        s1 = s\<lparr>page_infos := update_run (mark_used addr num_block) infos run_start (unat num_block)\<rparr>;
                        s2 = account_buddy_alloc s1 num_block
                    in if mmu_enabled e \<and> \<not> phys_in_direct_map e addr then (s2, addr)
                       else (s2\<lparr>pmem := memset (pmem s2) addr 0 (unat (num_block * 4096))\<rparr>, addr)))"

definition buddy_free_locked :: "platform \<Rightarrow> physmem \<Rightarrow> u64 \<Rightarrow> physmem" where
  "buddy_free_locked e s addr =
     (if addr = 0 \<or> addr AND 4095 \<noteq> 0 \<or> addr < buddy_base s \<or> ram_end e \<le> addr then s
      else case page_info_array e s of
             None \<Rightarrow> s
           | Some infos \<Rightarrow>
               let index = unat ((addr - buddy_base s) div 4096);
                   block_size = psize (infos ! index)
               in if block_size = 0 \<or> max_pages e s < unat block_size then s
                  else let start = pstart (infos ! index);
                           index = (if start \<noteq> addr then unat ((start - buddy_base s) div 4096) else index);
                           infos1 = update_run mark_free infos index (unat block_size);
                           infos2 = infos1[index := (infos1 ! index)\<lparr>pstart := 0, psize := 0\<rparr>]
                  in account_buddy_free (s\<lparr>page_infos := infos2\<rparr>) block_size)"

definition buddy_free :: "platform \<Rightarrow> physmem \<Rightarrow> u64 \<Rightarrow> physmem" where
  "buddy_free e s ptr = buddy_free_locked e s ptr"

definition buddy_page_info :: "platform \<Rightarrow> physmem \<Rightarrow> u64 \<Rightarrow> nat option" where
  "buddy_page_info e s addr =
     (case page_info_array e s of
        None \<Rightarrow> None
      | Some infos \<Rightarrow>
          if addr = 0 \<or> addr AND 4095 \<noteq> 0 \<or> addr < buddy_base s \<or> ram_end e \<le> addr then None
          else let index = unat (ucast ((addr - buddy_base s) div 4096) :: u32)
          in if max_pages e s \<le> index \<or> reserved (infos ! index) \<or> \<not> used (infos ! index) then None
             else Some index)"

definition page_is_buddy_page :: "platform \<Rightarrow> physmem \<Rightarrow> u64 \<Rightarrow> bool" where
  "page_is_buddy_page e s addr \<longleftrightarrow> buddy_page_info e s addr \<noteq> None"

definition page_ref_count :: "platform \<Rightarrow> physmem \<Rightarrow> u64 \<Rightarrow> u16" where
  "page_ref_count e s addr =
     (case buddy_page_info e s addr of None \<Rightarrow> 0 | Some i \<Rightarrow> refcount (page_infos s ! i))"

definition set_refs :: "physmem \<Rightarrow> nat \<Rightarrow> u16 \<Rightarrow> physmem" where
  "set_refs s i r = s\<lparr>page_infos := (page_infos s)[i := (page_infos s ! i)\<lparr>refcount := r\<rparr>]\<rparr>"

definition page_ref_inc :: "platform \<Rightarrow> physmem \<Rightarrow> u64 \<Rightarrow> unit result \<times> physmem" where
  "page_ref_inc e s addr =
     (case buddy_page_info e s addr of
        None \<Rightarrow> (Inl EPERM, s)
      | Some i \<Rightarrow>
          if refcount (page_infos s ! i) = 0xFFFF then (Inl EPERM, s)
          else (Inr (), set_refs s i (refcount (page_infos s ! i) + 1)))"

definition page_ref_dec :: "platform \<Rightarrow> physmem \<Rightarrow> u64 \<Rightarrow> u16 \<times> physmem" where
  "page_ref_dec e s addr =
     (case buddy_page_info e s addr of
        None \<Rightarrow> (0, s)
      | Some i \<Rightarrow>
          if 0 < refcount (page_infos s ! i)
          then (refcount (page_infos s ! i) - 1, set_refs s i (refcount (page_infos s ! i) - 1))
          else (0, s))"

definition allocate_page :: "platform \<Rightarrow> physmem \<Rightarrow> physmem \<times> u64" where
  "allocate_page e s = buddy_alloc e s 1"

definition allocate_pages :: "platform \<Rightarrow> physmem \<Rightarrow> u32 \<Rightarrow> physmem \<times> u64" where
  "allocate_pages e s num_pages = buddy_alloc e s (ucast num_pages)"

definition free_page :: "platform \<Rightarrow> physmem \<Rightarrow> u64 \<Rightarrow> physmem" where
  "free_page e s page_addr =
     (if page_addr = 0 then s
      else case buddy_page_info e s page_addr of
             None \<Rightarrow> s
           | Some i \<Rightarrow>
               let s1 = (if 0 < refcount (page_infos s ! i)
                         then set_refs s i (refcount (page_infos s ! i) - 1) else s)
               in if refcount (page_infos s1 ! i) = 0 then buddy_free_locked e s1 page_addr else s1)"

definition free_pages :: "platform \<Rightarrow> physmem \<Rightarrow> u64 \<Rightarrow> u32 \<Rightarrow> physmem" where
  "free_pages e s page_addr num_pages = (if page_addr = 0 then s else buddy_free e s page_addr)"

end
