(* ===== verification/PhysMem_Correct.thy ===== *)
theory PhysMem_Correct
  imports PhysMem Allocator KString_Correct
begin

text \<open>
  Correctness of the page allocator of theory \<open>PhysMem\<close>. The invariant \<open>pm_inv e s B\<close> ties the page array to a
  set \<open>B\<close> of live blocks (first page, number of pages): every used page belongs to exactly one block and carries
  that block's start and size. The search loop is shown to be first fit over the array, \<open>buddy_free\<close> to remove
  exactly the block that contains the address, \<open>init_memory\<close> to establish the invariant at boot, and the
  allocator interprets the contract \<open>block_allocator\<close> for a run of pages.
\<close>

definition page_free :: "page_info \<Rightarrow> bool" where
  "page_free p \<longleftrightarrow> \<not> used p \<and> \<not> reserved p"

definition run_free :: "page_info list \<Rightarrow> nat \<Rightarrow> nat \<Rightarrow> bool" where
  "run_free infos r n \<longleftrightarrow> (\<forall>i \<in> {r..<r + n}. page_free (infos ! i))"

definition scan_inv :: "page_info list \<Rightarrow> nat \<Rightarrow> nat \<Rightarrow> nat \<Rightarrow> nat \<Rightarrow> bool" where
  "scan_inv infos n index rs rl \<longleftrightarrow>
     rl < n \<and> rl \<le> index \<and> (0 < rl \<longrightarrow> rs = index - rl) \<and> run_free infos (index - rl) rl \<and>
     (rl < index \<longrightarrow> \<not> page_free (infos ! (index - rl - 1))) \<and>
     (\<forall>r. r + n \<le> index \<longrightarrow> \<not> run_free infos r n)"

lemma scan_inv_free:
  assumes "scan_inv infos n index rs rl" "page_free (infos ! index)" "rl + 1 \<noteq> n"
  shows "scan_inv infos n (index + 1) (if rl = 0 then index else rs) (rl + 1)"
proof -
  have "\<not> run_free infos r n" if r: "r + n \<le> index + 1" for r
  proof (cases "r + n \<le> index")
    case True
    then show ?thesis using assms(1) by (simp add: scan_inv_def)
  next
    case False
    then have "index - rl - 1 \<in> {r..<r + n}" "rl < index"
      using r assms by (auto simp: scan_inv_def)
    then show ?thesis using assms(1) by (auto simp: scan_inv_def run_free_def)
  qed
  moreover have "run_free infos (index - rl) (rl + 1)"
    using assms(1,2) by (auto simp: scan_inv_def run_free_def less_Suc_eq)
  ultimately show ?thesis using assms by (auto simp: scan_inv_def)
qed

lemma scan_inv_busy:
  assumes "scan_inv infos n index rs rl" "\<not> page_free (infos ! index)"
  shows "scan_inv infos n (index + 1) rs 0"
proof -
  have "\<not> run_free infos r n" if "r + n \<le> index + 1" for r
    using that assms by (cases "r + n \<le> index") (auto simp: scan_inv_def run_free_def)
  then show ?thesis using assms by (auto simp: scan_inv_def run_free_def)
qed

lemma buddy_scan_inv:
  "scan_inv infos n index rs rl \<Longrightarrow> index \<le> maxp \<Longrightarrow>
   (case buddy_scan infos n maxp index rs rl of
      None \<Rightarrow> \<forall>r. r + n \<le> maxp \<longrightarrow> \<not> run_free infos r n
    | Some r \<Rightarrow> r + n \<le> maxp \<and> run_free infos r n \<and> (\<forall>r' < r. \<not> run_free infos r' n))"
proof (induction infos n maxp index rs rl rule: buddy_scan.induct)
  case (1 infos n maxp index rs rl)
  show ?case
  proof (cases "index < maxp")
    case True
    show ?thesis
    proof (cases "page_free (infos ! index)")
      case free: True
      show ?thesis
      proof (cases "rl + 1 = n")
        case full: True
        have "buddy_scan infos n maxp index rs rl = Some (index + 1 - n)"
          using True free full "1.prems"(1)
          by (auto simp: buddy_scan.simps[of infos] page_free_def scan_inv_def Let_def)
        moreover have "run_free infos (index + 1 - n) n"
          using "1.prems"(1) free full by (auto simp: scan_inv_def run_free_def less_Suc_eq)
        ultimately show ?thesis
          using True "1.prems"(1) full by (auto simp: scan_inv_def)
      next
        case more: False
        have "buddy_scan infos n maxp index rs rl =
            buddy_scan infos n maxp (index + 1) (if rl = 0 then index else rs) (rl + 1)"
          using True free more by (subst buddy_scan.simps) (auto simp: page_free_def Let_def)
        then show ?thesis
          using "1.IH"[OF True refl refl refl] scan_inv_free[OF "1.prems"(1) free more] free more True
          by (auto simp: page_free_def)
      qed
    next
      case busy: False
      have "buddy_scan infos n maxp index rs rl = buddy_scan infos n maxp (index + 1) rs 0"
        using True busy "1.prems"(1)
        by (subst buddy_scan.simps) (auto simp: page_free_def Let_def scan_inv_def)
      then show ?thesis
        using "1.IH"[OF True refl refl refl] scan_inv_busy[OF "1.prems"(1) busy] busy True "1.prems"(1)
        by (auto simp: page_free_def scan_inv_def)
    qed
  next
    case False
    then show ?thesis using "1.prems" by (auto simp: buddy_scan.simps[of infos] scan_inv_def)
  qed
qed

lemma buddy_scan_first:
  assumes "0 < n"
  shows "case buddy_scan infos n maxp 0 0 0 of
      None \<Rightarrow> \<forall>r. r + n \<le> maxp \<longrightarrow> \<not> run_free infos r n
    | Some r \<Rightarrow> r + n \<le> maxp \<and> run_free infos r n \<and> (\<forall>r' < r. \<not> run_free infos r' n)"
  using assms by (intro buddy_scan_inv) (auto simp: scan_inv_def run_free_def)

lemma update_run_nth:
  "start + n \<le> length infos \<Longrightarrow> length (update_run f infos start n) = length infos \<and>
     (\<forall>i. update_run f infos start n ! i = (if start \<le> i \<and> i < start + n then f (infos ! i) else infos ! i))"
proof (induction n)
  case 0
  then show ?case by (auto simp: update_run_def)
next
  case (Suc n)
  have "update_run f infos start (Suc n) =
      (update_run f infos start n)[start + n := f (update_run f infos start n ! (start + n))]"
    by (simp add: update_run_def)
  then show ?case using Suc by (auto simp: nth_list_update)
qed

lemma page_mask_zero: "addr AND 4095 = 0 \<longleftrightarrow> 4096 dvd unat (addr :: u64)"
proof -
  have "addr AND 4095 = take_bit 12 addr" by (simp add: take_bit_eq_mask mask_numeral)
  moreover have "unat (take_bit 12 addr) = unat addr mod 4096"
    by (simp add: take_bit_eq_mod unat_mod)
  ultimately have "unat (addr AND 4095) = unat addr mod 4096" by (simp only:)
  then show ?thesis by (simp only: word_unat_eq_iff unat_0 dvd_eq_mod_eq_0)
qed

subsection \<open>Geometry of the arena\<close>

definition arena_ok :: "platform \<Rightarrow> physmem \<Rightarrow> bool" where
  "arena_ok e s \<longleftrightarrow>
     0 < unat (buddy_base s) \<and> 4096 dvd unat (buddy_base s) \<and>
     unat (buddy_base s) \<le> unat (ram_end e) \<and>
     (unat (ram_end e) - unat (buddy_base s)) div 4096 < 2 ^ 32 \<and>
     infos_addr s \<noteq> 0 \<and> (mmu_enabled e \<longrightarrow> phys_in_direct_map e (infos_addr s)) \<and>
     max_pages e s \<le> length (page_infos s)"

definition page_addr :: "physmem \<Rightarrow> nat \<Rightarrow> u64" where
  "page_addr s i = buddy_base s + of_nat i * 4096"

lemma max_pages_nat:
  assumes "arena_ok e s"
  shows "max_pages e s = (unat (ram_end e) - unat (buddy_base s)) div 4096"
proof -
  have "unat ((ram_end e - buddy_base s) div 4096) = (unat (ram_end e) - unat (buddy_base s)) div 4096"
    using assms by (simp add: unat_div unat_minus_wrap arena_ok_def)
  then show ?thesis
    using assms by (simp add: max_pages_def unsigned_ucast_eq take_bit_nat_eq_self arena_ok_def)
qed

lemma page_addr_unat:
  assumes "arena_ok e s" "i < max_pages e s"
  shows "unat (page_addr s i) = unat (buddy_base s) + i * 4096"
    "unat (page_addr s i) + 4096 \<le> unat (ram_end e)"
    "4096 dvd unat (page_addr s i)"
    "unat ((page_addr s i - buddy_base s) div 4096) = i"
proof -
  have le: "unat (buddy_base s) + i * 4096 + 4096 \<le> unat (ram_end e)"
    using assms max_pages_nat[OF assms(1)] by (auto simp: arena_ok_def)
  have r: "unat (ram_end e) < 2 ^ 64" by (rule unat64_less)
  have "unat (of_nat i * 4096 :: u64) = i * 4096"
    using le r unat_of_nat64[of "i * 4096"] by simp
  then show u: "unat (page_addr s i) = unat (buddy_base s) + i * 4096"
    unfolding page_addr_def using le r by (subst unat_add_in) auto
  show "unat (page_addr s i) + 4096 \<le> unat (ram_end e)" using u le by simp
  show "4096 dvd unat (page_addr s i)" using u assms(1) by (simp add: arena_ok_def)
  show "unat ((page_addr s i - buddy_base s) div 4096) = i"
    using u by (simp add: unat_div unat_minus_wrap)
qed

subsection \<open>Blocks of pages\<close>

definition block_pages :: "nat \<times> nat \<Rightarrow> nat set" where
  "block_pages b = {fst b..<fst b + snd b}"

definition pm_inv :: "platform \<Rightarrow> physmem \<Rightarrow> (nat \<times> nat) set \<Rightarrow> bool" where
  "pm_inv e s B \<longleftrightarrow> arena_ok e s \<and>
     (\<forall>b \<in> B. 0 < snd b \<and> fst b + snd b \<le> max_pages e s \<and>
        (\<forall>i \<in> block_pages b. used (page_infos s ! i) \<and> psize (page_infos s ! i) = of_nat (snd b) \<and>
           pstart (page_infos s ! i) = page_addr s (fst b))) \<and>
     (\<forall>b \<in> B. \<forall>c \<in> B. b \<noteq> c \<longrightarrow> block_pages b \<inter> block_pages c = {}) \<and>
     (\<forall>i < max_pages e s. \<not> reserved (page_infos s ! i) \<and>
        (used (page_infos s ! i) \<longrightarrow> (\<exists>b \<in> B. i \<in> block_pages b)) \<and>
        (\<not> used (page_infos s ! i) \<longrightarrow> psize (page_infos s ! i) = 0))"

lemma pm_invD:
  assumes "pm_inv e s B"
  shows "arena_ok e s"
    "\<And>b. b \<in> B \<Longrightarrow> 0 < snd b \<and> fst b + snd b \<le> max_pages e s"
    "\<And>b i. b \<in> B \<Longrightarrow> i \<in> block_pages b \<Longrightarrow> used (page_infos s ! i) \<and>
       psize (page_infos s ! i) = of_nat (snd b) \<and> pstart (page_infos s ! i) = page_addr s (fst b)"
    "\<And>b c. b \<in> B \<Longrightarrow> c \<in> B \<Longrightarrow> b \<noteq> c \<Longrightarrow> block_pages b \<inter> block_pages c = {}"
    "\<And>i. i < max_pages e s \<Longrightarrow> \<not> reserved (page_infos s ! i)"
    "\<And>i. i < max_pages e s \<Longrightarrow> used (page_infos s ! i) \<Longrightarrow> \<exists>b \<in> B. i \<in> block_pages b"
    "\<And>i. i < max_pages e s \<Longrightarrow> \<not> used (page_infos s ! i) \<Longrightarrow> psize (page_infos s ! i) = 0"
  using assms unfolding pm_inv_def by blast+

lemma pm_inv_page_free:
  assumes "pm_inv e s B" "i < max_pages e s"
  shows "page_free (page_infos s ! i) \<longleftrightarrow> (\<forall>b \<in> B. i \<notin> block_pages b)"
  unfolding page_free_def using pm_invD(3,5,6)[OF assms(1)] assms(2) by blast

lemma infos_available: "arena_ok e s \<Longrightarrow> page_info_array e s = Some (page_infos s)"
  by (auto simp: arena_ok_def page_info_array_def)

text \<open>A state that differs only in the page metadata, the counters and the memory contents has the same
  geometry.\<close>

definition same_arena :: "physmem \<Rightarrow> physmem \<Rightarrow> bool" where
  "same_arena s s' \<longleftrightarrow> buddy_base s' = buddy_base s \<and> infos_addr s' = infos_addr s \<and>
     length (page_infos s') = length (page_infos s)"

lemma same_arena_geometry:
  assumes "same_arena s s'"
  shows "arena_ok e s' = arena_ok e s" "max_pages e s' = max_pages e s" "page_addr s' = page_addr s"
  using assms by (auto simp: same_arena_def arena_ok_def max_pages_def page_addr_def fun_eq_iff)

lemma pm_inv_insert:
  assumes inv: "pm_inv e s B" and new: "0 < n" "r + n \<le> max_pages e s"
    and free: "run_free (page_infos s) r n" and same: "same_arena s s'"
    and pages: "\<And>i. page_infos s' ! i = (if r \<le> i \<and> i < r + n
       then mark_used (page_addr s r) (of_nat n) (page_infos s ! i) else page_infos s ! i)"
  shows "pm_inv e s' (insert (r, n) B)" "\<And>b. b \<in> B \<Longrightarrow> block_pages b \<inter> block_pages (r, n) = {}"
proof -
  note I = pm_invD[OF inv] and g = same_arena_geometry[OF same]
  show dis: "block_pages b \<inter> block_pages (r, n) = {}" if "b \<in> B" for b
  proof (rule equals0I)
    fix x assume x: "x \<in> block_pages b \<inter> block_pages (r, n)"
    then have "used (page_infos s ! x)" using I(3)[OF that] by blast
    then show False using x free by (auto simp: block_pages_def run_free_def page_free_def)
  qed
  have old: "page_infos s' ! i = page_infos s ! i" if "b \<in> B" "i \<in> block_pages b" for b i
    using dis[OF that(1)] that(2) by (auto simp: pages block_pages_def)
  show "pm_inv e s' (insert (r, n) B)"
    unfolding pm_inv_def g
  proof (intro conjI)
    show "arena_ok e s" by (rule I(1))
    show "\<forall>b \<in> insert (r, n) B. 0 < snd b \<and> fst b + snd b \<le> max_pages e s \<and>
        (\<forall>i \<in> block_pages b. used (page_infos s' ! i) \<and> psize (page_infos s' ! i) = of_nat (snd b) \<and>
           pstart (page_infos s' ! i) = page_addr s (fst b))"
    proof
      fix b assume b: "b \<in> insert (r, n) B"
      show "0 < snd b \<and> fst b + snd b \<le> max_pages e s \<and>
        (\<forall>i \<in> block_pages b. used (page_infos s' ! i) \<and> psize (page_infos s' ! i) = of_nat (snd b) \<and>
           pstart (page_infos s' ! i) = page_addr s (fst b))"
      proof (cases "b \<in> B")
        case True
        then show ?thesis using I(2,3)[OF True] old[OF True] by auto
      next
        case False
        then show ?thesis using b new by (auto simp: pages mark_used_def block_pages_def)
      qed
    qed
    show "\<forall>b \<in> insert (r, n) B. \<forall>c \<in> insert (r, n) B. b \<noteq> c \<longrightarrow> block_pages b \<inter> block_pages c = {}"
      using I(4) dis by (simp add: Int_commute)
    show "\<forall>i < max_pages e s. \<not> reserved (page_infos s' ! i) \<and>
        (used (page_infos s' ! i) \<longrightarrow> (\<exists>b \<in> insert (r, n) B. i \<in> block_pages b)) \<and>
        (\<not> used (page_infos s' ! i) \<longrightarrow> psize (page_infos s' ! i) = 0)"
      using I(5-7) by (auto simp: pages mark_used_def block_pages_def)
  qed
qed

lemma pm_inv_remove:
  assumes inv: "pm_inv e s B" and b: "(r, n) \<in> B" and same: "same_arena s s'"
    and out: "\<And>i. \<not> (r \<le> i \<and> i < r + n) \<Longrightarrow> page_infos s' ! i = page_infos s ! i"
    and inn: "\<And>i. r \<le> i \<and> i < r + n \<Longrightarrow> \<not> used (page_infos s' ! i) \<and> psize (page_infos s' ! i) = 0 \<and>
        reserved (page_infos s' ! i) = reserved (page_infos s ! i)"
  shows "pm_inv e s' (B - {(r, n)})"
proof -
  note I = pm_invD[OF inv] and g = same_arena_geometry[OF same]
  have old: "page_infos s' ! i = page_infos s ! i" if "c \<in> B - {(r, n)}" "i \<in> block_pages c" for c i
  proof (rule out)
    have "block_pages c \<inter> block_pages (r, n) = {}" using I(4)[of c "(r, n)"] that(1) b by blast
    then show "\<not> (r \<le> i \<and> i < r + n)" using that(2) by (auto simp: block_pages_def)
  qed
  show ?thesis
    unfolding pm_inv_def g
  proof (intro conjI)
    show "arena_ok e s" by (rule I(1))
    show "\<forall>b \<in> B - {(r, n)}. 0 < snd b \<and> fst b + snd b \<le> max_pages e s \<and>
        (\<forall>i \<in> block_pages b. used (page_infos s' ! i) \<and> psize (page_infos s' ! i) = of_nat (snd b) \<and>
           pstart (page_infos s' ! i) = page_addr s (fst b))"
      using I(2,3) old by auto
    show "\<forall>b \<in> B - {(r, n)}. \<forall>c \<in> B - {(r, n)}. b \<noteq> c \<longrightarrow> block_pages b \<inter> block_pages c = {}"
      using I(4) by blast
    show "\<forall>i < max_pages e s. \<not> reserved (page_infos s' ! i) \<and>
        (used (page_infos s' ! i) \<longrightarrow> (\<exists>b \<in> B - {(r, n)}. i \<in> block_pages b)) \<and>
        (\<not> used (page_infos s' ! i) \<longrightarrow> psize (page_infos s' ! i) = 0)"
    proof (intro allI impI)
      fix i assume i: "i < max_pages e s"
      show "\<not> reserved (page_infos s' ! i) \<and>
        (used (page_infos s' ! i) \<longrightarrow> (\<exists>b \<in> B - {(r, n)}. i \<in> block_pages b)) \<and>
        (\<not> used (page_infos s' ! i) \<longrightarrow> psize (page_infos s' ! i) = 0)"
      proof (cases "r \<le> i \<and> i < r + n")
        case True
        then show ?thesis using inn[OF True] I(5)[OF i] by simp
      next
        case False
        then have "i \<notin> block_pages (r, n)" by (auto simp: block_pages_def)
        then show ?thesis using out[OF False] I(5-7)[OF i] by auto
      qed
    qed
  qed
qed

lemma max_pages_bound: "arena_ok e s \<Longrightarrow> max_pages e s < 2 ^ 32"
  using max_pages_nat[of e s] by (simp add: arena_ok_def)

lemma unat_max:
  assumes "arena_ok e s" "n \<le> max_pages e s"
  shows "unat (of_nat n :: u64) = n"
  using max_pages_bound[OF assms(1)] assms(2) by (intro unat_of_nat64) simp

lemma account_buddy_alloc_fields [simp]:
  "page_infos (account_buddy_alloc s n) = page_infos s" "buddy_base (account_buddy_alloc s n) = buddy_base s"
  "infos_addr (account_buddy_alloc s n) = infos_addr s" "pmem (account_buddy_alloc s n) = pmem s"
  by (simp_all add: account_buddy_alloc_def)

lemma buddy_alloc_take:
  assumes "arena_ok e s" "n \<noteq> 0" "unat n \<le> max_pages e s"
    and "buddy_scan (page_infos s) (unat n) (max_pages e s) 0 0 0 = Some r"
  defines "s' \<equiv> fst (buddy_alloc e s n)"
  shows "buddy_alloc e s n = (s', page_addr s r)"
    "page_infos s' = update_run (mark_used (page_addr s r) n) (page_infos s) r (unat n)"
    "buddy_base s' = buddy_base s" "infos_addr s' = infos_addr s"
  using assms(2-4) unfolding s'_def
  by (simp_all add: buddy_alloc_def infos_available[OF assms(1)] Let_def page_addr_def not_less)

definition has_run :: "platform \<Rightarrow> physmem \<Rightarrow> nat \<Rightarrow> bool" where
  "has_run e s n \<longleftrightarrow> (\<exists>r. r + n \<le> max_pages e s \<and> run_free (page_infos s) r n)"

lemma buddy_alloc_none:
  assumes "pm_inv e s B" "n \<noteq> 0" "\<not> has_run e s (unat n)"
  shows "buddy_alloc e s n = (s, 0)"
proof -
  note ok = pm_invD(1)[OF assms(1)]
  have pos: "0 < unat n" using assms(2) by (simp add: unat_gt_0)
  note scan = buddy_scan_first[OF pos, where infos = "page_infos s" and maxp = "max_pages e s"]
  have "buddy_scan (page_infos s) (unat n) (max_pages e s) 0 0 0 = None"
    using scan assms(3) by (auto simp: has_run_def split: option.splits)
  then show ?thesis by (simp add: buddy_alloc_def infos_available[OF ok])
qed

lemma buddy_alloc_some:
  assumes inv: "pm_inv e s B" and n: "n \<noteq> 0" and run: "has_run e s (unat n)"
  obtains r s' where "buddy_alloc e s n = (s', page_addr s r)" "page_addr s r \<noteq> 0"
    "r + unat n \<le> max_pages e s" "run_free (page_infos s) r (unat n)"
    "\<forall>r' < r. \<not> run_free (page_infos s) r' (unat n)" "pm_inv e s' (insert (r, unat n) B)" "same_arena s s'"
    "\<And>b. b \<in> B \<Longrightarrow> block_pages b \<inter> block_pages (r, unat n) = {}"
    "\<And>i. page_infos s' ! i = (if r \<le> i \<and> i < r + unat n
       then mark_used (page_addr s r) n (page_infos s ! i) else page_infos s ! i)"
    "buddy_scan (page_infos s) (unat n) (max_pages e s) 0 0 0 = Some r"
proof -
  note ok = pm_invD(1)[OF inv]
  have pos: "0 < unat n" using n by (simp add: unat_gt_0)
  note scan = buddy_scan_first[OF pos, where infos = "page_infos s" and maxp = "max_pages e s"]
  obtain r where r: "buddy_scan (page_infos s) (unat n) (max_pages e s) 0 0 0 = Some r"
    using scan run by (auto simp: has_run_def split: option.splits)
  have free: "r + unat n \<le> max_pages e s" "run_free (page_infos s) r (unat n)"
    "\<forall>r' < r. \<not> run_free (page_infos s) r' (unat n)"
    using scan[unfolded r option.case] by auto
  have len: "r + unat n \<le> length (page_infos s)" using free(1) ok by (auto simp: arena_ok_def)
  note U = update_run_nth[OF len, of "mark_used (page_addr s r) n"]
  have fit: "unat n \<le> max_pages e s" using free(1) by simp
  define s' where "s' = fst (buddy_alloc e s n)"
  note s' = buddy_alloc_take[OF ok n fit r, folded s'_def]
  have same: "same_arena s s'" using s' U by (simp add: same_arena_def)
  have pages: "page_infos s' ! i = (if r \<le> i \<and> i < r + unat n
     then mark_used (page_addr s r) n (page_infos s ! i) else page_infos s ! i)" for i
    using U s'(2) by simp
  then have pages': "page_infos s' ! i = (if r \<le> i \<and> i < r + unat n
     then mark_used (page_addr s r) (of_nat (unat n)) (page_infos s ! i) else page_infos s ! i)" for i by simp
  note ins = pm_inv_insert[OF inv pos free(1,2) same pages']
  have "r < max_pages e s" using free(1) pos by simp
  from page_addr_unat(1)[OF ok this] have "page_addr s r \<noteq> 0"
    using ok by (intro unat_neq) (simp add: arena_ok_def)
  then show thesis using that[OF s'(1) _ free ins(1) same ins(2) pages r] by blast
qed

lemma buddy_free_spec:
  assumes inv: "pm_inv e s B" and b: "(r, n) \<in> B" and i: "i \<in> block_pages (r, n)"
  shows "pm_inv e (buddy_free_locked e s (page_addr s i)) (B - {(r, n)})"
    "same_arena s (buddy_free_locked e s (page_addr s i))"
    "\<And>k. \<not> (r \<le> k \<and> k < r + n) \<Longrightarrow>
       page_infos (buddy_free_locked e s (page_addr s i)) ! k = page_infos s ! k"
    "\<exists>infos. buddy_free_locked e s (page_addr s i) = account_buddy_free (s\<lparr>page_infos := infos\<rparr>) (of_nat n)"
proof -
  note I = pm_invD[OF inv]
  have n: "0 < n" "r + n \<le> max_pages e s" using I(2)[OF b] by auto
  have im: "i < max_pages e s" "r < max_pages e s" using i n by (auto simp: block_pages_def)
  note A = page_addr_unat[OF I(1) im(1)] and R = page_addr_unat[OF I(1) im(2)]
  have f: "psize (page_infos s ! i) = of_nat n" "pstart (page_infos s ! i) = page_addr s r"
    using I(3)[OF b i] by auto
  have un: "unat (of_nat n :: u64) = n" using n by (intro unat_max[OF I(1)]) simp
  have len: "r + n \<le> length (page_infos s)" using n I(1) by (auto simp: arena_ok_def)
  note U = update_run_nth[OF len, of mark_free]
  let ?i1 = "update_run mark_free (page_infos s) r n"
  let ?i2 = "?i1[r := (?i1 ! r)\<lparr>pstart := 0, psize := 0\<rparr>]"
  have guard: "page_addr s i \<noteq> 0" "page_addr s i AND 4095 = 0" "\<not> page_addr s i < buddy_base s"
    "\<not> ram_end e \<le> page_addr s i"
    using A I(1) unat_neq[of "page_addr s i" 0]
    by (auto simp: arena_ok_def page_mask_zero word_less_nat_alt word_le_nat_alt)
  have size: "of_nat n \<noteq> (0 :: u64)" "\<not> max_pages e s < unat (of_nat n :: u64)"
    using n un unat_neq[of "of_nat n :: u64" 0] by auto
  have idx: "(if page_addr s r \<noteq> page_addr s i then unat ((page_addr s r - buddy_base s) div 4096) else i) = r"
    using R(4) A(4) by (metis (full_types))
  have run: "buddy_free_locked e s (page_addr s i) = account_buddy_free (s\<lparr>page_infos := ?i2\<rparr>) (of_nat n)"
    unfolding buddy_free_locked_def Let_def infos_available[OF I(1)] option.case A(4) f un
    using guard size idx un by simp
  then show "\<exists>infos. buddy_free_locked e s (page_addr s i) = account_buddy_free (s\<lparr>page_infos := infos\<rparr>) (of_nat n)"
    by blast
  have nth: "page_infos (buddy_free_locked e s (page_addr s i)) = ?i2"
    by (simp add: run account_buddy_free_def)
  show same: "same_arena s (buddy_free_locked e s (page_addr s i))"
    using U by (simp add: run account_buddy_free_def same_arena_def)
  show out: "page_infos (buddy_free_locked e s (page_addr s i)) ! k = page_infos s ! k"
    if "\<not> (r \<le> k \<and> k < r + n)" for k
    using that U n by (auto simp: nth nth_list_update)
  have rl: "r < length ?i1" using len n U by simp
  show "pm_inv e (buddy_free_locked e s (page_addr s i)) (B - {(r, n)})"
    using inv b same out
  proof (rule pm_inv_remove)
    fix k assume k: "r \<le> k \<and> k < r + n"
    show "\<not> used (page_infos (buddy_free_locked e s (page_addr s i)) ! k) \<and>
        psize (page_infos (buddy_free_locked e s (page_addr s i)) ! k) = 0 \<and>
        reserved (page_infos (buddy_free_locked e s (page_addr s i)) ! k) = reserved (page_infos s ! k)"
      using U k rl by (cases "k = r") (simp_all add: nth mark_free_def)
  qed
qed

lemma buddy_page_info_block:
  assumes inv: "pm_inv e s B" and b: "(r, n) \<in> B" and i: "i \<in> block_pages (r, n)"
  shows "buddy_page_info e s (page_addr s i) = Some i"
proof -
  note I = pm_invD[OF inv]
  have im: "i < max_pages e s" using i I(2)[OF b] by (auto simp: block_pages_def)
  note A = page_addr_unat[OF I(1) im]
  have "i < 2 ^ 32" using im max_pages_nat[OF I(1)] I(1) by (auto simp: arena_ok_def)
  then have "unat (ucast ((page_addr s i - buddy_base s) div 4096) :: u32) = i"
    using A(4) by (simp add: unsigned_ucast_eq take_bit_nat_eq_self)
  moreover have "page_addr s i \<noteq> 0" "page_addr s i AND 4095 = 0" "\<not> page_addr s i < buddy_base s"
    "\<not> ram_end e \<le> page_addr s i"
    using A I(1) unat_neq[of "page_addr s i" 0]
    by (auto simp: arena_ok_def page_mask_zero word_less_nat_alt word_le_nat_alt)
  ultimately show ?thesis
    using im I(3)[OF b i] I(5)[OF im] by (simp add: buddy_page_info_def infos_available[OF I(1)] Let_def)
qed

definition page_block :: "physmem \<Rightarrow> nat \<times> nat \<Rightarrow> block" where
  "page_block s b = (page_addr s (fst b), of_nat (snd b))"

definition page_live :: "platform \<Rightarrow> physmem \<Rightarrow> block list \<Rightarrow> bool" where
  "page_live e s L \<longleftrightarrow> (\<exists>K. distinct K \<and> pm_inv e s (set K) \<and> L = map (page_block s) K)"

definition page_extent :: "block \<Rightarrow> nat set" where
  "page_extent b = {unat (fst b)..<unat (fst b) + unat (snd b) * 4096}"

definition page_arena :: "platform \<Rightarrow> physmem \<Rightarrow> nat set" where
  "page_arena e s = {unat (buddy_base s)..<unat (ram_end e)}"

lemma page_block_extent:
  assumes "pm_inv e s B" "b \<in> B"
  shows "page_extent (page_block s b) =
    {unat (buddy_base s) + fst b * 4096..<unat (buddy_base s) + (fst b + snd b) * 4096}"
    "page_extent (page_block s b) \<subseteq> page_arena e s" "4096 dvd unat (fst (page_block s b))"
proof -
  note I = pm_invD[OF assms(1)]
  have b: "0 < snd b" "fst b + snd b \<le> max_pages e s" using I(2)[OF assms(2)] by auto
  note A = page_addr_unat[OF I(1), of "fst b"] and Z = page_addr_unat[OF I(1), of "fst b + snd b - 1"]
  have n: "unat (of_nat (snd b) :: u64) = snd b" using b by (intro unat_max[OF I(1)]) simp
  show ext: "page_extent (page_block s b) =
    {unat (buddy_base s) + fst b * 4096..<unat (buddy_base s) + (fst b + snd b) * 4096}"
    using A(1) b n by (simp add: page_extent_def page_block_def algebra_simps)
  have "unat (buddy_base s) + (fst b + snd b) * 4096 \<le> unat (ram_end e)"
    using Z(1,2) b by (simp add: algebra_simps)
  then show "page_extent (page_block s b) \<subseteq> page_arena e s" unfolding ext page_arena_def by auto
  show "4096 dvd unat (fst (page_block s b))" using A(3) b by (simp add: page_block_def)
qed

lemma page_extent_disjoint:
  assumes "pm_inv e s B" "b \<in> B" "c \<in> B" "b \<noteq> c"
  shows "page_extent (page_block s b) \<inter> page_extent (page_block s c) = {}"
proof -
  have pos: "0 < snd b" "0 < snd c" using pm_invD(2)[OF assms(1)] assms(2,3) by auto
  have "block_pages b \<inter> block_pages c = {}" by (rule pm_invD(4)[OF assms])
  then have "fst b + snd b \<le> fst c \<or> fst c + snd c \<le> fst b"
    using pos by (auto simp: block_pages_def)
  then have "(fst b + snd b) * 4096 \<le> fst c * 4096 \<or> (fst c + snd c) * 4096 \<le> fst b * 4096" by auto
  then show ?thesis
    unfolding page_block_extent(1)[OF assms(1,2)] page_block_extent(1)[OF assms(1,3)] by auto
qed

lemma same_arena_blocks: "same_arena s s' \<Longrightarrow> page_block s' = page_block s"
  using same_arena_geometry(3)[of s s'] by (auto simp: page_block_def fun_eq_iff)

lemma same_arena_arena: "same_arena s s' \<Longrightarrow> page_arena e s' = page_arena e s"
  by (simp add: page_arena_def same_arena_def)

interpretation pages: block_allocator "page_live e" page_extent "page_arena e" 4096 "\<lambda>_. True"
    "\<lambda>s n. Some (buddy_alloc e s n)" "\<lambda>s p. Some (buddy_free e s p)" for e
proof
  fix s L and n :: u64
  assume "page_live e s L"
  then obtain K where K: "distinct K" "pm_inv e s (set K)" "L = map (page_block s) K"
    unfolding page_live_def by blast
  show "Some (buddy_alloc e s n) = Some (s, 0) \<or> (\<exists>s' p. Some (buddy_alloc e s n) = Some (s', p) \<and> p \<noteq> 0 \<and>
      page_live e s' ((p, n) # L) \<and> page_arena e s' = page_arena e s)"
  proof (cases "n \<noteq> 0 \<and> has_run e s (unat n)")
    case False
    then have "buddy_alloc e s n = (s, 0)"
      using buddy_alloc_none[OF K(2), of n] by (cases "n = 0") (simp_all add: buddy_alloc_def)
    then show ?thesis by simp
  next
    case True
    then have "n \<noteq> 0" "has_run e s (unat n)" by auto
    from buddy_alloc_some[OF K(2) this] obtain r s' where r: "buddy_alloc e s n = (s', page_addr s r)"
      "page_addr s r \<noteq> 0" "pm_inv e s' (insert (r, unat n) (set K))" "same_arena s s'"
      "\<And>b. b \<in> set K \<Longrightarrow> block_pages b \<inter> block_pages (r, unat n) = {}"
      by metis
    have "0 < unat n" using True by (simp add: unat_gt_0)
    then have "(r, unat n) \<notin> set K" using r(5)[of "(r, unat n)"] by (auto simp: block_pages_def)
    then have "page_live e s' ((page_addr s r, n) # L)"
      using K r(3) same_arena_blocks[OF r(4)] unfolding page_live_def
      by (intro exI[of _ "(r, unat n) # K"]) (simp add: page_block_def)
    then show ?thesis using r(1,2) same_arena_arena[OF r(4)] by auto
  qed
next
  fix s xs p n ys
  assume "page_live e s (xs @ (p, n) # ys)"
  then obtain K where K: "distinct K" "pm_inv e s (set K)" "xs @ (p, n) # ys = map (page_block s) K"
    unfolding page_live_def by blast
  from K(3)[symmetric] obtain K1 K0 where "K = K1 @ K0" "xs = map (page_block s) K1"
    "(p, n) # ys = map (page_block s) K0"
    unfolding map_eq_append_conv by (elim exE conjE) (rule that)
  then obtain b K2 where K': "K = K1 @ b # K2" "xs = map (page_block s) K1" "(p, n) = page_block s b"
    "ys = map (page_block s) K2"
    by (cases K0) auto
  obtain r m where b: "b = (r, m)" by (cases b)
  have bK: "(r, m) \<in> set K" "r \<in> block_pages (r, m)" "p = page_addr s r"
    using K' b pm_invD(2)[OF K(2), of b] by (auto simp: block_pages_def page_block_def)
  note F = buddy_free_spec[OF K(2) bK(1,2)]
  have "set K - {(r, m)} = set (K1 @ K2)" using K(1) K'(1) b by auto
  then have "page_live e (buddy_free e s p) (xs @ ys)"
    using F(1) K(1) K' same_arena_blocks[OF F(2)] bK(3) unfolding page_live_def buddy_free_def
    by (intro exI[of _ "K1 @ K2"]) auto
  then show "\<exists>s'. Some (buddy_free e s p) = Some s' \<and> page_live e s' (xs @ ys) \<and> page_arena e s' = page_arena e s"
    using same_arena_arena[OF F(2)] bK(3) by (auto simp: buddy_free_def)
next
  fix s L
  assume "page_live e s L"
  then obtain K where K: "distinct K" "pm_inv e s (set K)" "L = map (page_block s) K"
    unfolding page_live_def by blast
  have "sorted_wrt (\<lambda>b c. page_extent (page_block s b) \<inter> page_extent (page_block s c) = {}) K"
    unfolding sorted_wrt_iff_nth_less
  proof (intro allI impI)
    fix i j assume ij: "i < j" "j < length K"
    then have "K ! i \<noteq> K ! j" using nth_eq_iff_index_eq[OF K(1), of i j] by simp
    then show "page_extent (page_block s (K ! i)) \<inter> page_extent (page_block s (K ! j)) = {}"
      using ij by (intro page_extent_disjoint[OF K(2)]) auto
  qed
  then show "sorted_wrt (\<lambda>b c. page_extent b \<inter> page_extent c = {}) L"
    by (simp add: K(3) sorted_wrt_map)
next
  fix s L b
  assume "page_live e s L" "b \<in> set L"
  then obtain K c where "pm_inv e s (set K)" "c \<in> set K" "b = page_block s c"
    unfolding page_live_def by auto
  then show "4096 dvd unat (fst b) \<and> page_extent b \<subseteq> page_arena e s"
    using page_block_extent(2,3) by blast
qed

subsection \<open>References\<close>

lemma set_refs_inv:
  assumes inv: "pm_inv e s B" and i: "i < max_pages e s"
  shows "pm_inv e (set_refs s i r) B" "same_arena s (set_refs s i r)"
proof -
  show same: "same_arena s (set_refs s i r)" by (simp add: same_arena_def set_refs_def)
  note I = pm_invD[OF inv] and g = same_arena_geometry[OF same]
  have il: "i < length (page_infos s)" using I(1) i by (simp add: arena_ok_def)
  have f: "used (page_infos (set_refs s i r) ! k) = used (page_infos s ! k)"
    "psize (page_infos (set_refs s i r) ! k) = psize (page_infos s ! k)"
    "pstart (page_infos (set_refs s i r) ! k) = pstart (page_infos s ! k)"
    "reserved (page_infos (set_refs s i r) ! k) = reserved (page_infos s ! k)" for k
    using il by (auto simp: set_refs_def nth_list_update)
  show "pm_inv e (set_refs s i r) B" using inv unfolding pm_inv_def g f .
qed

lemma set_refs_refcount:
  "i < length (page_infos s) \<Longrightarrow> refcount (page_infos (set_refs s i r) ! k) = (if k = i then r else refcount (page_infos s ! k))"
  by (simp add: set_refs_def nth_list_update)

text \<open>The page at position \<open>i\<close> of a live block, as \<open>free_page\<close> and the reference operations see it.\<close>

lemma free_page_block:
  assumes inv: "pm_inv e s B" and b: "(r, n) \<in> B" and i: "i \<in> block_pages (r, n)"
  shows "free_page e s (page_addr s i) =
    (if refcount (page_infos s ! i) \<le> 1
     then buddy_free_locked e (if refcount (page_infos s ! i) = 0 then s else set_refs s i 0) (page_addr s i)
     else set_refs s i (refcount (page_infos s ! i) - 1))"
proof -
  note I = pm_invD[OF inv]
  have im: "i < max_pages e s" using i I(2)[OF b] by (auto simp: block_pages_def)
  have il: "i < length (page_infos s)" using I(1) im by (simp add: arena_ok_def)
  have "page_addr s i \<noteq> 0"
    using page_addr_unat(1)[OF I(1) im] I(1) by (intro unat_neq) (simp add: arena_ok_def)
  moreover have "x \<le> 1 \<longleftrightarrow> x = 0 \<or> x = 1" for x :: u16
    by (auto simp: word_le_nat_alt word_unat_eq_iff le_Suc_eq)
  ultimately show ?thesis
    using buddy_page_info_block[OF assms] il
    by (auto simp: free_page_def Let_def set_refs_refcount word_neq_0_conv[symmetric] set_refs_def)
qed

lemma reserve_loop_fields:
  "start_addr (reserve_loop skip s a b) = start_addr s" "total_pages (reserve_loop skip s a b) = total_pages s"
  "buddy_base (reserve_loop skip s a b) = buddy_base s"
proof (induction skip s a b rule: reserve_loop.induct)
  case (1 skip s a b)
  {
    case 1
    then show ?case using "1.IH" by (subst reserve_loop.simps) (auto simp: Let_def set_page_used_def)
  next
    case 2
    then show ?case using "1.IH" by (subst reserve_loop.simps) (auto simp: Let_def set_page_used_def)
  next
    case 3
    then show ?case using "1.IH" by (subst reserve_loop.simps) (auto simp: Let_def set_page_used_def)
  }
qed

lemma reserve_start_addr:
  "start_addr (reserve_kernel_pages e s) = start_addr s" "start_addr (reserve_bitmap_pages s) = start_addr s"
  "start_addr (reserve_heap_pages h s) = start_addr s" "start_addr (reserve_dtb_pages e s) = start_addr s"
  "start_addr (buddy_init e s) = start_addr s"
  by (auto simp: reserve_kernel_pages_def reserve_bitmap_pages_def reserve_heap_pages_def reserve_dtb_pages_def
      buddy_init_def early_alloc_def reserve_loop_fields Let_def)

lemma unat_align_page:
  assumes "unat x + 4095 < 2 ^ 64"
  shows "unat (align_up x 4096 :: u64) = (unat x + 4095) div 4096 * 4096"
  using unat_align_up[of 12 x] assms by auto

lemma align_page_id: "4096 dvd unat x \<Longrightarrow> align_up (x :: u64) 4096 = x"
  using align_up_id[of 12 x] by simp

lemma buddy_init_inv:
  assumes mmu: "\<not> mmu_enabled e" and sz: "unat (ram_end e) < 2 ^ 63"
    and start: "0 < unat (start_addr s)" "4096 dvd unat (start_addr s)" "unat (start_addr s) < unat (ram_end e)"
    and pages: "unat (total_pages s) = (unat (ram_end e) - unat (start_addr s)) div 4096"
    and free: "free_pages_cnt s = total_pages s" "unat (total_pages s) < 2 ^ 20"
    and below: "align_up (free_memory_start e) 4096 \<le> start_addr s" "ram_start e \<le> start_addr s" "buddy_base s = 0"
    and fits: "buddy_base (buddy_init e s) \<le> ram_end e"
  shows "pm_inv e (buddy_init e s) {}"
proof -
  let ?b0 = "choose_buddy_base e s" and ?sz = "free_pages_cnt s * sizeof_page_info"
  define b where "b = (if BUDDY_BASE < ram_end e \<and> start_addr s < BUDDY_BASE then BUDDY_BASE else start_addr s)"
  have start_id: "align_up (start_addr s) 4096 = start_addr s" using start(2) by (rule align_page_id)
  have bb: "align_up BUDDY_BASE 4096 = BUDDY_BASE" by (rule align_page_id) (simp add: BUDDY_BASE_def)
  have b0: "?b0 = b"
    using below start(3) start_id bb
    by (auto simp: choose_buddy_base_def b_def Let_def word_less_nat_alt word_le_nat_alt BUDDY_BASE_def dest: unsigned_word_eqI)
  have b: "4096 dvd unat b" "unat (start_addr s) \<le> unat b" "unat b < unat (ram_end e)"
    using start by (auto simp: b_def BUDDY_BASE_def word_less_nat_alt)
  have szn: "unat ?sz < 2 ^ 25"
    using free by (simp add: unat_word_ariths sizeof_page_info_def)
  have b8: "align_up b 8 = b" using b(1) by (intro align_up_8) (auto intro: dvd_trans[of 8 4096])
  have szu: "unat (ucast ?sz :: u64) = unat ?sz" using szn by (simp add: unsigned_ucast_eq take_bit_nat_eq_self)
  have sum: "unat (b + ucast ?sz) = unat b + unat ?sz"
    using b(3) sz szn szu by (subst unat_add_in) auto
  let ?nb = "align_up (b + ucast ?sz) 4096"
  have nb: "unat ?nb = (unat b + unat ?sz + 4095) div 4096 * 4096"
    using sum b(3) sz szn by (subst unat_align_page) auto
  then have nb': "unat b \<le> unat ?nb" "4096 dvd unat ?nb" by auto
  have nbid: "align_up ?nb 4096 = ?nb" using nb'(2) by (rule align_page_id)
  have init: "buddy_base (buddy_init e s) = ?nb" "infos_addr (buddy_init e s) = b"
    "page_infos (buddy_init e s) = replicate (unat (free_pages_cnt s)) zero_info"
    using b0 b8 nbid by (simp_all add: buddy_init_def early_alloc_def Let_def)
  have le: "unat ?nb \<le> unat (ram_end e)" using fits init(1) by (simp add: word_le_nat_alt)
  have maxp: "max_pages e (buddy_init e s) \<le> unat (total_pages s)"
  proof -
    have "unat ((ram_end e - ?nb) div 4096) = (unat (ram_end e) - unat ?nb) div 4096"
      using le by (simp add: unat_div unat_minus_wrap)
    also have "\<dots> \<le> unat (total_pages s)"
      unfolding pages using nb'(1) b(2) by (intro div_le_mono) simp
    finally show ?thesis
      unfolding max_pages_def init(1) unsigned_ucast_eq
      by (rule order_trans[OF take_bit_nat_less_eq_self])
  qed
  have "(unat (ram_end e) - unat ?nb) div 4096 \<le> unat (total_pages s)"
    unfolding pages using nb'(1) b(2) by (intro div_le_mono) simp
  then have "(unat (ram_end e) - unat ?nb) div 4096 < 2 ^ 32" using free(2) by simp
  moreover have "b \<noteq> 0" using b(2) start(1) by (intro unat_neq) simp
  ultimately have "arena_ok e (buddy_init e s)"
    using le nb' b(2) start(1) mmu maxp free(1) init by (simp add: arena_ok_def)
  then show ?thesis
    using maxp free(1) init(3) by (auto simp: pm_inv_def zero_info_def)
qed

text \<open>What the boot code relies on: the kernel image, the heap region and the device tree lie below the
  linker symbol \<open>__free_memory_start\<close>, RAM does not reach \<open>2^63\<close>, and the MMU is still off.\<close>

definition boot_layout :: "platform \<Rightarrow> bool" where
  "boot_layout e \<longleftrightarrow> \<not> mmu_enabled e \<and> 0 < ram_start e \<and> unat (ram_start e) + unat (mem_size e) < 2 ^ 63 \<and>
     unat (free_memory_start e) < 2 ^ 63 \<and> kernel_end e \<le> free_memory_start e \<and>
     heap_start_sym e + heap_size_sym e \<le> free_memory_start e \<and>
     (dtb_address e = 0 \<or> dtb_address e + 0x100000 \<le> free_memory_start e)"

lemma heap_region_end:
  assumes "init_kernel_heap_region h b sz = (True, h')"
  shows "heap_base h' + heap_size h' = b + sz"
  using assms by (auto simp: init_kernel_heap_region_def Let_def split: if_splits)

lemma reserve_below:
  assumes "kernel_end e \<le> start_addr s" "bitmap_addr s + ucast (bitmap_pages s) * 4096 = start_addr s"
    and "heap_base h + heap_size h \<le> start_addr s"
    and "dtb_address e = 0 \<or> dtb_address e + 0x100000 \<le> start_addr s"
  shows "reserve_dtb_pages e (reserve_heap_pages h (reserve_bitmap_pages (reserve_kernel_pages e s))) = s"
  using assms
  by (auto simp: reserve_kernel_pages_def reserve_bitmap_pages_def reserve_heap_pages_def reserve_dtb_pages_def Let_def)

lemma unat_ram_end: "boot_layout e \<Longrightarrow> unat (ram_end e) = unat (ram_start e) + unat (mem_size e)"
  unfolding boot_layout_def ram_end_def
  by (subst unat_add_in) (auto simp: unat_ucast32)

lemma init_memory_inv:
  assumes lay: "boot_layout e" and base: "buddy_base s = 0"
    and init: "init_memory e (s, h) = (True, s', h')"
    and room: "start_addr s' < ram_end e" "buddy_base s' \<le> ram_end e"
  shows "pm_inv e s' {}"
proof -
  define bs where "bs = align_up (free_memory_start e) 4096"
  have "\<exists>s4 bp. s' = buddy_init e (reserve_dtb_pages e (reserve_heap_pages h' (reserve_bitmap_pages (reserve_kernel_pages e s4)))) \<and>
      ram_start e \<le> bs \<and> bs < ram_end e \<and> bitmap_pages s4 = bp \<and> start_addr s4 = bs + ucast bp * 4096 \<and>
      start_addr s4 \<le> ram_end e \<and> bitmap_addr s4 = bs \<and> buddy_base s4 = 0 \<and>
      total_pages s4 = ucast ((ram_end e - start_addr s4) div 4096) \<and> free_pages_cnt s4 = total_pages s4"
    using init base unfolding init_memory_def bs_def[symmetric] Let_def ram_end_def
    by (auto simp: not_less not_le split: if_splits prod.splits)
  then obtain s4 bp where A: "s' = buddy_init e (reserve_dtb_pages e (reserve_heap_pages h' (reserve_bitmap_pages (reserve_kernel_pages e s4))))"
      "ram_start e \<le> bs" "bs < ram_end e" "bitmap_pages s4 = bp" "start_addr s4 = bs + ucast bp * 4096"
      "start_addr s4 \<le> ram_end e" "bitmap_addr s4 = bs" "buddy_base s4 = 0"
      "total_pages s4 = ucast ((ram_end e - start_addr s4) div 4096)" "free_pages_cnt s4 = total_pages s4"
    by blast
  have heap: "heap_base h' + heap_size h' = heap_start_sym e + heap_size_sym e"
    using init by (intro heap_region_end[of h]) (auto simp: init_memory_def Let_def split: if_splits prod.splits)
  have L: "\<not> mmu_enabled e" "0 < unat (ram_start e)" "unat (free_memory_start e) < 2 ^ 63" "unat (ram_end e) < 2 ^ 63"
    using lay unat_ram_end[OF lay] by (auto simp: boot_layout_def unat_gt_0)
  have bs: "unat bs = (unat (free_memory_start e) + 4095) div 4096 * 4096"
    unfolding bs_def using L(3) by (intro unat_align_page) simp
  have bp: "unat (ucast bp * 4096 :: u64) = unat bp * 4096"
    using unsigned_less[of bp, where 'a = nat] by (subst unat_mult_lem[THEN iffD1]) (auto simp: unat_ucast32)
  have st: "unat (start_addr s4) = unat bs + unat bp * 4096"
    unfolding A(5) using bp A(3) L(4) unsigned_less[of bp, where 'a = nat] by (subst unat_add_in) (auto simp: word_less_nat_alt)
  have "free_memory_start e \<le> bs" using bs by (simp add: word_le_nat_alt)
  then have fms: "free_memory_start e \<le> start_addr s4" "bs \<le> start_addr s4"
    using st by (auto simp: word_le_nat_alt)
  have same: "s' = buddy_init e s4"
    unfolding A(1) using lay A(4,5,7) heap fms(1)
    by (subst reserve_below) (auto simp: boot_layout_def intro: order_trans)
  have lt: "unat (start_addr s4) < unat (ram_end e)"
    using room(1) by (simp add: same reserve_start_addr word_less_nat_alt)
  have d: "(unat (ram_end e) - unat (start_addr s4)) div 4096 < 2 ^ 20"
  proof -
    have "unat (ram_end e) - unat (start_addr s4) < 2 ^ 32"
      using unat_ram_end[OF lay] A(2) st unsigned_less[of "mem_size e", where 'a = nat] by (simp add: word_le_nat_alt)
    then show ?thesis by simp
  qed
  have tot: "unat (total_pages s4) = (unat (ram_end e) - unat (start_addr s4)) div 4096"
    unfolding A(9) using lt d by (simp add: unsigned_ucast_eq unat_div unat_minus_wrap take_bit_nat_eq_self)
  show ?thesis
    unfolding same
  proof (rule buddy_init_inv[OF L(1,4)])
    show "0 < unat (start_addr s4)" using A(2) fms(2) L(2) by (simp add: word_le_nat_alt)
    show "4096 dvd unat (start_addr s4)" using st bs by simp
    show "align_up (free_memory_start e) 4096 \<le> start_addr s4" using fms(2) by (simp add: bs_def)
    show "ram_start e \<le> start_addr s4" using A(2) fms(2) by (rule order_trans)
    show "buddy_base (buddy_init e s4) \<le> ram_end e" using room(2) same by simp
  qed (use A(8,10) lt tot d in auto)
qed


subsection \<open>Properties\<close>

definition demo_boot :: platform where
  "demo_boot = \<lparr>ram_start = 0x40000000, mem_size = 0x40000, free_memory_start = 0x40030000,
     kernel_end = 0x40010000, heap_start_sym = 0x40010000, heap_size_sym = 0x20000, dtb_address = 0,
     mmu_enabled = False, direct_map_size = 0\<rparr>"

definition boot_physmem :: physmem where
  "boot_physmem = \<lparr>bitmap = [], bitmap_addr = 0, total_pages = 0, free_pages_cnt = 0, start_addr = 0,
     bitmap_pages = 0, pages_allocated = 0, pages_freed = 0, buddy_base = 0, infos_addr = 0,
     page_infos = [], pmem = (\<lambda>_. 0)\<rparr>"

definition boot_kheap :: kheap where
  "boot_kheap = \<lparr>heap_base = 0, heap_size = 0, heap_initialized = False, free_list = 0, cells = (\<lambda>_. 0)\<rparr>"
lemma demo_heap_region:
  obtains h where "init_kernel_heap_region boot_kheap 0x40010000 0x20000 = (True, h)"
    "heap_base h = 0x40010000" "heap_size h = 0x20000"
  by (simp add: init_kernel_heap_region_def align_up_def Let_def)

definition demo_reserved :: physmem where
  "demo_reserved = boot_physmem\<lparr>bitmap_pages := 1, start_addr := 0x40031000, total_pages := 15,
     bitmap_addr := 0x40030000, bitmap := replicate 2 0, free_pages_cnt := 15\<rparr>"

lemma demo_boot_fields:
  "ram_start demo_boot = 0x40000000" "mem_size demo_boot = 0x40000" "free_memory_start demo_boot = 0x40030000"
  "kernel_end demo_boot = 0x40010000" "heap_start_sym demo_boot = 0x40010000" "heap_size_sym demo_boot = 0x20000"
  "dtb_address demo_boot = 0" "ram_end demo_boot = 0x40040000"
  by (simp_all add: demo_boot_def ram_end_def)

lemma demo_reserved_fields:
  "bitmap_addr demo_reserved = 0x40030000" "bitmap_pages demo_reserved = 1" "start_addr demo_reserved = 0x40031000"
  "free_pages_cnt demo_reserved = 15" "buddy_base demo_reserved = 0"
  by (simp_all add: demo_reserved_def boot_physmem_def)

lemma demo_init_memory:
  obtains h where "init_memory demo_boot (boot_physmem, boot_kheap) = (True, buddy_init demo_boot demo_reserved, h)"
proof -
  obtain h where h: "init_kernel_heap_region boot_kheap 0x40010000 0x20000 = (True, h)"
    "heap_base h = 0x40010000" "heap_size h = 0x20000" by (rule demo_heap_region)
  have "init_memory demo_boot (boot_physmem, boot_kheap) = (True, buddy_init demo_boot (reserve_dtb_pages demo_boot
     (reserve_heap_pages h (reserve_bitmap_pages (reserve_kernel_pages demo_boot demo_reserved)))), h)"
    using h(1) unfolding init_memory_def demo_boot_fields Let_def demo_reserved_def
    by (simp add: align_up_def)
  also have "reserve_dtb_pages demo_boot (reserve_heap_pages h (reserve_bitmap_pages (reserve_kernel_pages demo_boot demo_reserved))) = demo_reserved"
    by (intro reserve_below) (simp_all add: demo_boot_fields demo_reserved_fields h)
  finally show ?thesis by (rule that)
qed

lemma demo_init_fits:
  "start_addr (buddy_init demo_boot demo_reserved) < ram_end demo_boot"
  "buddy_base (buddy_init demo_boot demo_reserved) \<le> ram_end demo_boot"
proof -
  have b: "choose_buddy_base demo_boot demo_reserved = 0x40031000"
    by (simp add: choose_buddy_base_def demo_boot_fields demo_reserved_fields Let_def align_up_def BUDDY_BASE_def)
  show "start_addr (buddy_init demo_boot demo_reserved) < ram_end demo_boot"
    unfolding reserve_start_addr by (simp add: demo_boot_fields demo_reserved_fields)
  show "buddy_base (buddy_init demo_boot demo_reserved) \<le> ram_end demo_boot"
    by (simp add: buddy_init_def early_alloc_def b Let_def demo_reserved_fields demo_boot_fields align_up_def sizeof_page_info_def)
qed

definition demo_platform :: platform where
  "demo_platform = demo_boot\<lparr>ram_start := 0x1000, mem_size := 0x6000\<rparr>"

definition demo_pages :: physmem where
  "demo_pages = boot_physmem\<lparr>total_pages := 5, free_pages_cnt := 5, start_addr := 0x2000, buddy_base := 0x3000,
     infos_addr := 0x2000, page_infos := replicate 5 zero_info\<rparr>"

lemma demo_max [simp]: "max_pages demo_platform demo_pages = 4"
  by (simp add: max_pages_def demo_platform_def demo_boot_def demo_pages_def boot_physmem_def ram_end_def)

lemma demo_pages_inv: "pm_inv demo_platform demo_pages {}"
  unfolding pm_inv_def arena_ok_def demo_max
  by (auto simp: demo_platform_def demo_boot_def demo_pages_def boot_physmem_def ram_end_def zero_info_def)





text \<open>C18. A page shared \<open>c\<close> times survives \<open>c - 1\<close> calls of \<open>free_page\<close> with its count going down by one each
  time, and the last call returns it to the allocator; no other block changes.\<close>

theorem free_page_last_reference:
  assumes "pm_inv e s B" "(r, 1) \<in> B" "refcount (page_infos s ! r) = of_nat c" "0 < c" "c < 2 ^ 16"
  shows "(\<forall>k < c. pm_inv e (((\<lambda>t. free_page e t (page_addr s r)) ^^ k) s) B \<and>
            page_ref_count e (((\<lambda>t. free_page e t (page_addr s r)) ^^ k) s) (page_addr s r) = of_nat (c - k)) \<and>
         pm_inv e (((\<lambda>t. free_page e t (page_addr s r)) ^^ c) s) (B - {(r, 1)})"
proof -
  let ?f = "\<lambda>t. free_page e t (page_addr s r)"
  have r: "r \<in> block_pages (r, 1)" by (simp add: block_pages_def)
  have rm: "r < max_pages e s" "r < length (page_infos s)"
    using pm_invD(1)[OF assms(1)] pm_invD(2)[OF assms(1,2)] by (auto simp: arena_ok_def)
  have keep: "pm_inv e ((?f ^^ k) s) B \<and> same_arena s ((?f ^^ k) s) \<and>
      refcount (page_infos ((?f ^^ k) s) ! r) = of_nat (c - k)" if "k < c" for k
    using that
  proof (induction k)
    case 0
    then show ?case using assms by (simp add: same_arena_def)
  next
    case (Suc k)
    let ?t = "(?f ^^ k) s"
    have IH: "pm_inv e ?t B" "same_arena s ?t" "refcount (page_infos ?t ! r) = of_nat (c - k)" using Suc by auto
    have "unat (of_nat (c - k) :: u16) = c - k"
      using assms(5) by (subst unsigned_of_nat) (simp add: take_bit_nat_eq_self del: of_nat_diff)
    then have ge: "\<not> refcount (page_infos ?t ! r) \<le> 1"
      unfolding IH(3) word_le_nat_alt using Suc.prems by (simp del: of_nat_diff)
    have step: "?f ?t = set_refs ?t r (of_nat (c - Suc k))"
      using free_page_block[OF IH(1) assms(2) r] same_arena_geometry(3)[OF IH(2)] ge IH(3) Suc.prems
      by (simp add: of_nat_diff diff_diff_eq add.commute)
    have m: "r < max_pages e ?t" using rm same_arena_geometry(2)[OF IH(2)] by simp
    then have l: "r < length (page_infos ?t)" using pm_invD(1)[OF IH(1)] by (simp add: arena_ok_def)
    show ?case
      using set_refs_inv[OF IH(1) m] IH(2) set_refs_refcount[OF l] step by (auto simp: same_arena_def)
  qed
  have cnt: "page_ref_count e ((?f ^^ k) s) (page_addr s r) = of_nat (c - k)" if "k < c" for k
    using keep[OF that] buddy_page_info_block[OF _ assms(2) r, of e "(?f ^^ k) s"]
      same_arena_geometry(3)[of s "(?f ^^ k) s"]
    by (simp add: page_ref_count_def)
  have "pm_inv e ((?f ^^ c) s) (B - {(r, 1)})"
  proof -
    let ?t = "(?f ^^ (c - 1)) s"
    have t: "pm_inv e ?t B" "same_arena s ?t" "refcount (page_infos ?t ! r) = 1"
      using keep[of "c - 1"] assms(4) by auto
    have m: "r < max_pages e ?t" using rm same_arena_geometry(2)[OF t(2)] by simp
    have "(?f ^^ c) s = ?f ?t" using assms(4) by (cases c) auto
    also have "\<dots> = buddy_free_locked e (set_refs ?t r 0) (page_addr s r)"
      using free_page_block[OF t(1) assms(2) r] same_arena_geometry(3)[OF t(2)] t(3) by simp
    finally show ?thesis
      using buddy_free_spec(1)[OF set_refs_inv(1)[OF t(1) m] assms(2) r]
        same_arena_geometry(3)[OF set_refs_inv(2)[OF t(1) m]] same_arena_geometry(3)[OF t(2)] by simp
  qed
  then show ?thesis using keep cnt by blast
qed

definition demo_shared :: physmem where
  "demo_shared = demo_pages\<lparr>page_infos := (page_infos demo_pages)[1 := \<lparr>used = True, psize = 1, reserved = False,
     refcount = 3, pstart = 0x4000\<rparr>]\<rparr>"

lemma demo_shared_inv: "pm_inv demo_platform demo_shared {(1, 1)}"
proof -
  have m: "max_pages demo_platform demo_shared = 4"
    using demo_max by (simp add: max_pages_def demo_shared_def)
  show ?thesis
    unfolding pm_inv_def arena_ok_def m
    by (auto simp: demo_platform_def demo_boot_def demo_shared_def demo_pages_def boot_physmem_def ram_end_def
        zero_info_def block_pages_def page_addr_def nth_list_update nth_Cons split: nat.splits)
qed

theorem free_page_last_reference_witness:
  "page_ref_count demo_platform (free_page demo_platform (free_page demo_platform demo_shared 0x4000) 0x4000) 0x4000 = 1 \<and>
   pm_inv demo_platform (free_page demo_platform (free_page demo_platform (free_page demo_platform demo_shared 0x4000) 0x4000) 0x4000) {}"
proof -
  have "refcount (page_infos demo_shared ! 1) = of_nat 3" "page_addr demo_shared 1 = 0x4000"
    by (simp_all add: demo_shared_def demo_pages_def boot_physmem_def page_addr_def)
  note A = free_page_last_reference[OF demo_shared_inv _ this(1)] and B = this(2)
  have f: "(f ^^ 2) x = f (f x)" "(f ^^ 3) x = f (f (f x))" for f :: "physmem \<Rightarrow> physmem" and x
    by (simp_all add: numeral_2_eq_2 numeral_3_eq_3)
  show ?thesis
    using A[THEN conjunct1, rule_format, of 2] A[THEN conjunct2] unfolding B f by simp
qed

text \<open>C19. A reference taken with \<open>page_ref_inc\<close> and given back with \<open>free_page\<close> leaves the allocator exactly as it
  was; \<open>page_ref_inc\<close> refuses a page that is not allocated and a count that would wrap.\<close>

theorem page_ref_roundtrip:
  assumes "pm_inv e s B" "(r, n) \<in> B" "i \<in> block_pages (r, n)" "0 < refcount (page_infos s ! i)"
  shows "if refcount (page_infos s ! i) = 0xFFFF then page_ref_inc e s (page_addr s i) = (Inl EPERM, s)
    else \<exists>s'. page_ref_inc e s (page_addr s i) = (Inr (), s') \<and>
      page_ref_count e s' (page_addr s i) = page_ref_count e s (page_addr s i) + 1 \<and>
      free_page e s' (page_addr s i) = s"
proof -
  let ?c = "refcount (page_infos s ! i)"
  have m: "i < max_pages e s" using assms(3) pm_invD(2)[OF assms(1,2)] by (auto simp: block_pages_def)
  have l: "i < length (page_infos s)" using m pm_invD(1)[OF assms(1)] by (simp add: arena_ok_def)
  note info = buddy_page_info_block[OF assms(1-3)] and S = set_refs_inv[OF assms(1) m, where r = "?c + 1"]
  note info' = buddy_page_info_block[OF S(1) assms(2,3)] and g = same_arena_geometry(3)[OF S(2)]
  note R = set_refs_refcount[OF l, where r = "?c + 1" and k = i]
  have undo_inc: "set_refs (set_refs s i (?c + 1)) i ?c = s" using l by (simp add: set_refs_def)
  have "\<not> ?c + 1 \<le> 1" if "?c \<noteq> 0xFFFF"
    using that assms(4) word_unat_eq_iff[of ?c "0xFFFF"] unsigned_less[of ?c, where 'a = nat]
    by (simp add: word_le_nat_alt word_less_nat_alt unat_word_ariths)
  then show ?thesis
    using info info' g R free_page_block[OF S(1) assms(2,3)]
    by (auto simp: page_ref_inc_def page_ref_count_def undo_inc)
qed

theorem page_ref_roundtrip_witness:
  "\<exists>s'. page_ref_inc demo_platform demo_shared 0x4000 = (Inr (), s') \<and>
     free_page demo_platform s' 0x4000 = demo_shared"
proof -
  have "refcount (page_infos demo_shared ! 1) = 3" "page_addr demo_shared 1 = 0x4000"
    by (simp_all add: demo_shared_def demo_pages_def boot_physmem_def page_addr_def)
  then show ?thesis
    using page_ref_roundtrip[OF demo_shared_inv, of 1 1 1] by (auto simp: block_pages_def)
qed

end
