(* ===== verification/Mmu.thy ===== *)
theory Mmu
  imports KString
begin

text \<open>
  The ARM64 translation-table code of \<open>arch/arm64/mmu/mmu.c\<close> and the TLB maintenance of
  \<open>arch/arm64/mmu/tlb.c\<close>, qemu-virt build. Tables are pages of byte memory that are read and written as 64-bit
  descriptors (\<open>arm64_mmu_kernel_address\<close> is the identity, so a table pointer is its physical address). The
  translation hardware is the record \<open>mmu\<close>: one TLB per CPU, tagged by ASID, and the registers the code uses.
  Cache cleaning and barriers change no state of this model. Functions return the C result as an \<open>int\<close>.
  Theory \<open>Mmu_Correct\<close> has the proofs.
\<close>

subsection \<open>Translation hardware\<close>

record mmu =
  tlb :: "nat \<Rightarrow> u32 \<Rightarrow> u64 \<Rightarrow> u64 option"
  ttbr0 :: "nat \<Rightarrow> u64"
  sctlr :: u64
  cpus_seen :: "nat list"
  total_count :: u32
  remote_count :: u32
  tlb_gen :: u32
  cpu_ack :: "nat \<Rightarrow> u32"

definition ARM64_TABLE_MASK :: u64 where
  "ARM64_TABLE_MASK = 0x0000FFFFFFFFF000"

definition DESC_VALID :: u64 where "DESC_VALID = 1"
definition DESC_TABLE_PAGE :: u64 where "DESC_TABLE_PAGE = 2"
definition DESC_AF :: u64 where "DESC_AF = 0x400"
definition DESC_NG :: u64 where "DESC_NG = 0x800"
definition DESC_AP_RW_EL0 :: u64 where "DESC_AP_RW_EL0 = 0x40"
definition DESC_AP_RO_EL0 :: u64 where "DESC_AP_RO_EL0 = 0xC0"
definition DESC_SH_OUTER :: u64 where "DESC_SH_OUTER = 0x200"
definition DESC_SH_INNER :: u64 where "DESC_SH_INNER = 0x300"
definition DESC_PXN :: u64 where "DESC_PXN = 0x20000000000000"
definition DESC_UXN :: u64 where "DESC_UXN = 0x40000000000000"

definition DESC_ATTR_INDEX :: "u64 \<Rightarrow> u64" where
  "DESC_ATTR_INDEX n = push_bit 2 n"

definition ARM64_L1_BLOCK_SIZE :: u64 where
  "ARM64_L1_BLOCK_SIZE = 0x40000000"

definition SCTLR_M :: u64 where "SCTLR_M = 1"
definition TTBR_ASID_MAX :: u32 where "TTBR_ASID_MAX = 255"

definition ARM64_USER_PAGE_READ :: u32 where "ARM64_USER_PAGE_READ = 1"
definition ARM64_USER_PAGE_WRITE :: u32 where "ARM64_USER_PAGE_WRITE = 2"
definition ARM64_USER_PAGE_EXEC :: u32 where "ARM64_USER_PAGE_EXEC = 4"

lemmas desc_defs = DESC_VALID_def DESC_TABLE_PAGE_def DESC_AF_def DESC_NG_def DESC_AP_RW_EL0_def
  DESC_AP_RO_EL0_def DESC_SH_OUTER_def DESC_SH_INNER_def DESC_PXN_def DESC_UXN_def DESC_ATTR_INDEX_def
  ARM64_TABLE_MASK_def ARM64_L1_BLOCK_SIZE_def
  ARM64_USER_PAGE_READ_def ARM64_USER_PAGE_WRITE_def ARM64_USER_PAGE_EXEC_def

subsection \<open>Descriptors in memory\<close>

definition table_entry :: "bmem \<Rightarrow> u64 \<Rightarrow> u64 \<Rightarrow> u64" where
  "table_entry m tbl index = load_word m (tbl + index * 8)"

definition set_entry :: "bmem \<Rightarrow> u64 \<Rightarrow> u64 \<Rightarrow> u64 \<Rightarrow> bmem" where
  "set_entry m tbl index d = store_word m (tbl + index * 8) d"

definition clear_table :: "bmem \<Rightarrow> u64 \<Rightarrow> bmem" where
  "clear_table m tbl = foldl (\<lambda>m i. set_entry m tbl (of_nat i) 0) m [0..<512]"

definition l1_index :: "u64 \<Rightarrow> u64" where "l1_index va = drop_bit 30 va AND 0x1FF"
definition l2_index :: "u64 \<Rightarrow> u64" where "l2_index va = drop_bit 21 va AND 0x1FF"
definition l3_index :: "u64 \<Rightarrow> u64" where "l3_index va = drop_bit 12 va AND 0x1FF"

definition table_address_valid :: "u64 \<Rightarrow> bool" where
  "table_address_valid address \<longleftrightarrow> address AND 0xFFF = 0 \<and> address AND NOT ARM64_TABLE_MASK = 0"

definition device_block_descriptor :: "u64 \<Rightarrow> u64" where
  "device_block_descriptor pa =
     (pa AND ARM64_TABLE_MASK) OR DESC_VALID OR DESC_ATTR_INDEX 0 OR DESC_AF OR DESC_SH_OUTER OR
     DESC_PXN OR DESC_UXN"

definition kernel_block_descriptor :: u64 where
  "kernel_block_descriptor = ARM64_L1_BLOCK_SIZE OR DESC_VALID OR DESC_ATTR_INDEX 1 OR DESC_AF OR DESC_SH_INNER"

definition user_page_flags_valid :: "u32 \<Rightarrow> bool" where
  "user_page_flags_valid flags \<longleftrightarrow>
     \<not> (flags AND ARM64_USER_PAGE_READ = 0 \<or>
        flags AND NOT (ARM64_USER_PAGE_READ OR ARM64_USER_PAGE_WRITE OR ARM64_USER_PAGE_EXEC) \<noteq> 0) \<and>
     flags AND (ARM64_USER_PAGE_WRITE OR ARM64_USER_PAGE_EXEC) \<noteq> ARM64_USER_PAGE_WRITE OR ARM64_USER_PAGE_EXEC"

definition user_page_descriptor :: "u64 \<Rightarrow> u32 \<Rightarrow> u64" where
  "user_page_descriptor pa flags =
     (let descriptor = (pa AND ARM64_TABLE_MASK) OR DESC_VALID OR DESC_TABLE_PAGE OR DESC_ATTR_INDEX 1 OR
            DESC_AF OR DESC_NG OR DESC_SH_INNER OR DESC_PXN;
          descriptor = descriptor OR
            (if flags AND ARM64_USER_PAGE_WRITE \<noteq> 0 then DESC_AP_RW_EL0 else DESC_AP_RO_EL0)
      in if flags AND ARM64_USER_PAGE_EXEC = 0 then descriptor OR DESC_UXN else descriptor)"

definition table_descriptor :: "u64 \<Rightarrow> u64" where
  "table_descriptor tbl = (tbl AND ARM64_TABLE_MASK) OR DESC_VALID OR DESC_TABLE_PAGE"

subsection \<open>TLB maintenance\<close>

definition invalidate_user_page :: "mmu \<Rightarrow> u64 \<Rightarrow> u32 \<Rightarrow> mmu" where
  "invalidate_user_page h va asid =
     h\<lparr>tlb := (\<lambda>cpu a p. if a = asid \<and> p = drop_bit 12 va then None else tlb h cpu a p)\<rparr>"

definition complete_broadcast :: "mmu \<Rightarrow> mmu" where
  "complete_broadcast h =
     (let next = tlb_gen h + 1; participants = length (cpus_seen h)
      in h\<lparr>tlb_gen := next, total_count := total_count h + 1,
           cpu_ack := (\<lambda>cpu. if cpu \<in> set (cpus_seen h) then next else cpu_ack h cpu),
           remote_count := (if 1 < participants then remote_count h + of_nat (participants - 1)
                            else remote_count h)\<rparr>)"

definition tlb_shootdown_all :: "mmu \<Rightarrow> mmu" where
  "tlb_shootdown_all h = complete_broadcast (h\<lparr>tlb := (\<lambda>cpu a p. None)\<rparr>)"

definition tlb_shootdown_page :: "mmu \<Rightarrow> u64 \<Rightarrow> mmu" where
  "tlb_shootdown_page h va =
     complete_broadcast (h\<lparr>tlb := (\<lambda>cpu a p. if p = drop_bit 12 va then None else tlb h cpu a p)\<rparr>)"

definition tlb_shootdown_page_asid :: "mmu \<Rightarrow> u64 \<Rightarrow> u32 \<Rightarrow> mmu" where
  "tlb_shootdown_page_asid h va asid = complete_broadcast (invalidate_user_page h va asid)"

definition tlb_shootdown_asid :: "mmu \<Rightarrow> u32 \<Rightarrow> mmu" where
  "tlb_shootdown_asid h asid =
     complete_broadcast (h\<lparr>tlb := (\<lambda>cpu a p. if a = asid then None else tlb h cpu a p)\<rparr>)"

subsection \<open>Kernel and user roots\<close>

definition populate_identity_l1 :: "bmem \<Rightarrow> u64 \<Rightarrow> bmem" where
  "populate_identity_l1 m tbl =
     set_entry (set_entry (clear_table m tbl) tbl 0 (device_block_descriptor 0)) tbl 1 kernel_block_descriptor"

definition populate_kernel_l1 :: "bmem \<Rightarrow> u64 \<Rightarrow> bmem" where
  "populate_kernel_l1 m tbl =
     set_entry (set_entry (clear_table m tbl) tbl 0 (device_block_descriptor 0)) tbl 1 kernel_block_descriptor"

definition arm64_mmu_prepare_user_ttbr0 :: "bmem \<Rightarrow> u64 \<Rightarrow> int \<times> bmem" where
  "arm64_mmu_prepare_user_ttbr0 m l1 =
     (if \<not> table_address_valid l1 then (-1, m)
      else (0, set_entry (clear_table m l1) l1 1 kernel_block_descriptor))"

definition arm64_mmu_switch_ttbr0 :: "mmu \<Rightarrow> nat \<Rightarrow> u64 \<Rightarrow> int \<times> mmu" where
  "arm64_mmu_switch_ttbr0 h cpu tbl =
     (if \<not> table_address_valid tbl then (-1, h)
      else if sctlr h AND SCTLR_M = 0 then (-2, h)
      else (0, h\<lparr>ttbr0 := (ttbr0 h)(cpu := tbl), tlb := (tlb h)(cpu := (\<lambda>a p. None))\<rparr>))"

definition switch_user_ttbr0 :: "mmu \<Rightarrow> nat \<Rightarrow> u64 \<Rightarrow> u32 \<Rightarrow> bool \<Rightarrow> int \<times> mmu" where
  "switch_user_ttbr0 h cpu tbl asid invalidate =
     (if \<not> table_address_valid tbl \<or> asid = 0 \<or> TTBR_ASID_MAX < asid then (-1, h)
      else if sctlr h AND SCTLR_M = 0 then (-2, h)
      else let operand = push_bit 48 (ucast asid);
               h1 = (if invalidate
                     then h\<lparr>tlb := (tlb h)(cpu := (\<lambda>a p. if a = asid then None else tlb h cpu a p))\<rparr>
                     else h)
      in (0, h1\<lparr>ttbr0 := (ttbr0 h1)(cpu := operand OR tbl)\<rparr>))"

definition arm64_mmu_switch_user_ttbr0 :: "mmu \<Rightarrow> nat \<Rightarrow> u64 \<Rightarrow> u32 \<Rightarrow> int \<times> mmu" where
  "arm64_mmu_switch_user_ttbr0 h cpu tbl asid = switch_user_ttbr0 h cpu tbl asid True"

definition arm64_mmu_switch_user_ttbr0_preserve :: "mmu \<Rightarrow> nat \<Rightarrow> u64 \<Rightarrow> u32 \<Rightarrow> int \<times> mmu" where
  "arm64_mmu_switch_user_ttbr0_preserve h cpu tbl asid = switch_user_ttbr0 h cpu tbl asid False"

subsection \<open>User tables\<close>

definition user_table_is_empty :: "bmem \<Rightarrow> u64 \<Rightarrow> bool" where
  "user_table_is_empty m tbl \<longleftrightarrow>
     list_all (\<lambda>i. table_entry m tbl (of_nat i) AND DESC_VALID = 0) [0..<512]"

definition remove_user_table :: "bmem \<Rightarrow> mmu \<Rightarrow> u64 \<Rightarrow> u64 \<Rightarrow> u64 \<Rightarrow> u64 \<Rightarrow> u32 \<Rightarrow> int \<times> bmem \<times> mmu" where
  "remove_user_table m h parent child parent_index va asid =
     (let descriptor = table_entry m parent parent_index in
      if descriptor AND (DESC_VALID OR DESC_TABLE_PAGE) \<noteq> DESC_VALID OR DESC_TABLE_PAGE \<or>
         descriptor AND ARM64_TABLE_MASK \<noteq> child then (-1, m, h)
      else if \<not> user_table_is_empty m child then (-2, m, h)
      else (0, set_entry m parent parent_index 0, invalidate_user_page h va asid))"

definition arm64_mmu_prepare_user_page :: "bmem \<Rightarrow> u64 \<Rightarrow> u64 \<Rightarrow> u64 \<Rightarrow> u64 \<Rightarrow> u64 \<Rightarrow> u32 \<Rightarrow> int \<times> bmem" where
  "arm64_mmu_prepare_user_page m l1 l2 l3 va pa flags =
     (if \<not> table_address_valid l1 \<or> \<not> table_address_valid l2 \<or> \<not> table_address_valid l3 \<or>
         l1 = l2 \<or> l1 = l3 \<or> l2 = l3 \<or> va AND 0xFFF \<noteq> 0 \<or> pa AND 0xFFF \<noteq> 0 \<or>
         push_bit 39 1 \<le> va \<or> \<not> user_page_flags_valid flags then (-1, m)
      else let m1 = clear_table (clear_table (clear_table m l1) l2) l3;
               m2 = set_entry m1 l1 (l1_index va) (table_descriptor l2);
               m3 = set_entry m2 l2 (l2_index va) (table_descriptor l3)
      in (0, set_entry m3 l3 (l3_index va) (user_page_descriptor pa flags)))"

definition arm64_mmu_prepare_user_l3_page :: "bmem \<Rightarrow> u64 \<Rightarrow> u64 \<Rightarrow> u64 \<Rightarrow> u32 \<Rightarrow> int \<times> bmem" where
  "arm64_mmu_prepare_user_l3_page m l3 va pa flags =
     (if \<not> table_address_valid l3 \<or> va AND 0xFFF \<noteq> 0 \<or> pa AND 0xFFF \<noteq> 0 \<or>
         push_bit 39 1 \<le> va \<or> \<not> user_page_flags_valid flags then (-1, m)
      else (0, set_entry m l3 (l3_index va) (user_page_descriptor pa flags)))"

definition arm64_mmu_install_user_l2 :: "bmem \<Rightarrow> u64 \<Rightarrow> u64 \<Rightarrow> u64 \<Rightarrow> int \<times> bmem" where
  "arm64_mmu_install_user_l2 m l1 l2 va =
     (if \<not> table_address_valid l1 \<or> \<not> table_address_valid l2 \<or> l1 = l2 \<or> push_bit 39 1 \<le> va then (-1, m)
      else if table_entry m l1 (l1_index va) AND DESC_VALID \<noteq> 0 then (-2, m)
      else (0, set_entry (clear_table m l2) l1 (l1_index va) (table_descriptor l2)))"

definition arm64_mmu_install_user_l3 :: "bmem \<Rightarrow> u64 \<Rightarrow> u64 \<Rightarrow> u64 \<Rightarrow> int \<times> bmem" where
  "arm64_mmu_install_user_l3 m l2 l3 va =
     (if \<not> table_address_valid l2 \<or> \<not> table_address_valid l3 \<or> l2 = l3 \<or> push_bit 39 1 \<le> va then (-1, m)
      else if table_entry m l2 (l2_index va) AND DESC_VALID \<noteq> 0 then (-2, m)
      else (0, set_entry (clear_table m l3) l2 (l2_index va) (table_descriptor l3)))"

definition arm64_mmu_map_user_l3_page :: "bmem \<Rightarrow> mmu \<Rightarrow> u64 \<Rightarrow> u64 \<Rightarrow> u64 \<Rightarrow> u32 \<Rightarrow> u32 \<Rightarrow> int \<times> bmem \<times> mmu" where
  "arm64_mmu_map_user_l3_page m h l3 va pa flags asid =
     (if \<not> table_address_valid l3 \<or> va AND 0xFFF \<noteq> 0 \<or> pa AND 0xFFF \<noteq> 0 \<or> push_bit 39 1 \<le> va \<or>
         \<not> user_page_flags_valid flags \<or> asid = 0 \<or> TTBR_ASID_MAX < asid then (-1, m, h)
      else if table_entry m l3 (l3_index va) AND DESC_VALID \<noteq> 0 then (-2, m, h)
      else (0, set_entry m l3 (l3_index va) (user_page_descriptor pa flags), invalidate_user_page h va asid))"

text \<open>The unmapped page is the second component; 0 where the code leaves \<open>*physical_address\<close> untouched.\<close>

definition arm64_mmu_unmap_user_l3_page :: "bmem \<Rightarrow> mmu \<Rightarrow> u64 \<Rightarrow> u64 \<Rightarrow> u32 \<Rightarrow> int \<times> u64 \<times> bmem \<times> mmu" where
  "arm64_mmu_unmap_user_l3_page m h l3 va asid =
     (if \<not> table_address_valid l3 \<or> va AND 0xFFF \<noteq> 0 \<or> push_bit 39 1 \<le> va \<or> asid = 0 \<or>
         TTBR_ASID_MAX < asid then (-1, 0, m, h)
      else let descriptor = table_entry m l3 (l3_index va) in
      if descriptor AND (DESC_VALID OR DESC_TABLE_PAGE) \<noteq> DESC_VALID OR DESC_TABLE_PAGE then (-2, 0, m, h)
      else (0, descriptor AND ARM64_TABLE_MASK, set_entry m l3 (l3_index va) 0, invalidate_user_page h va asid))"

definition arm64_mmu_remove_user_l3 :: "bmem \<Rightarrow> mmu \<Rightarrow> u64 \<Rightarrow> u64 \<Rightarrow> u64 \<Rightarrow> u32 \<Rightarrow> int \<times> bmem \<times> mmu" where
  "arm64_mmu_remove_user_l3 m h l2 l3 va asid =
     (if \<not> table_address_valid l2 \<or> \<not> table_address_valid l3 \<or> l2 = l3 \<or> va AND 0xFFF \<noteq> 0 \<or>
         push_bit 39 1 \<le> va \<or> asid = 0 \<or> TTBR_ASID_MAX < asid then (-1, m, h)
      else remove_user_table m h l2 l3 (l2_index va) va asid)"

definition arm64_mmu_remove_user_l2 :: "bmem \<Rightarrow> mmu \<Rightarrow> u64 \<Rightarrow> u64 \<Rightarrow> u64 \<Rightarrow> u32 \<Rightarrow> int \<times> bmem \<times> mmu" where
  "arm64_mmu_remove_user_l2 m h l1 l2 va asid =
     (if \<not> table_address_valid l1 \<or> \<not> table_address_valid l2 \<or> l1 = l2 \<or> va AND 0xFFF \<noteq> 0 \<or>
         push_bit 39 1 \<le> va \<or> asid = 0 \<or> TTBR_ASID_MAX < asid then (-1, m, h)
      else remove_user_table m h l1 l2 (l1_index va) va asid)"

end
