(* ===== verification/UserVM.thy ===== *)
theory UserVM
  imports Mmu PhysMem "HOL-Library.Monad_Syntax"
begin

text \<open>
  ARM64 user address spaces: \<open>arch/arm64/mmu/user_vm.c\<close> (translation-table ownership, resident mappings, ASID
  pool) and the registry and page operations of \<open>arch/arm64/mmu/virtual.c\<close>. The record \<open>machine\<close> is the state
  these files share with the page allocator, the kernel heap and the translation hardware; an address space is
  an object at a heap address in \<open>vms\<close>. The growable arrays of an address space are lists (count = length)
  with their capacity and heap block; \<open>None\<close> is a heap walk that never ends. Operations on one address space
  take and return its record. The CPU that runs the code is the parameter \<open>cpu\<close>. Each operation that the code
  brackets by a lock is one step.
\<close>

subsection \<open>State\<close>

record vma =
  vma_start :: u64
  vma_end :: u64
  vma_flags :: u32
  shm_id :: u32
  release_fn :: u64
  release_cookie :: u64
  vma_ptr :: u64

record vm_space =
  pgdir :: u64
  pgdir_alloc :: u64
  vma_list :: "vma list"
  arch_private :: u64
  heap_start :: u64
  heap_end :: u64
  brk :: u64
  stack_start :: u64
  space_asid :: u32

record user_vm_mapping =
  virtual_address :: u64
  physical_address :: u64
  mflags :: u32

record user_vm_l2_table =
  l2_l1 :: u64
  l2_table :: u64

record user_vm_l3_table =
  l3_l1 :: u64
  l3_l2 :: u64
  l3_table :: u64

record arm64_user_vm =
  space :: vm_space
  magic :: u32
  l1 :: u64
  asid :: u32
  mapping_capacity :: u32
  l2_table_capacity :: u32
  l3_table_capacity :: u32
  tlb_generation :: u32
  l2_tables :: "user_vm_l2_table list"
  l3_tables :: "user_vm_l3_table list"
  mappings :: "user_vm_mapping list"
  l2_ptr :: u64
  l3_ptr :: u64
  mappings_ptr :: u64
  vm_self :: u64

record shm_object =
  shm_used :: bool
  shm_unlinked :: bool
  shm_obj_id :: u32
  shm_name :: "u8 list"
  shm_size :: u64
  shm_phys :: "u64 list"
  shm_capacity :: u32
  shm_phys_ptr :: u64
  shm_mappings :: u32
  shm_handles :: u32

record machine =
  phys :: physmem
  kheap :: kheap
  hw :: mmu
  asid_bitmap :: "u8 list"
  asid_slot_generation :: "u32 list"
  asid_generation :: u32
  next_tlb_generation :: u32
  tlb_flush_count :: u64
  tlb_preserve_count :: u64
  asid_residency :: "nat \<Rightarrow> u32 \<Rightarrow> u64 \<times> u32"
  asid_active_vm :: "nat \<Rightarrow> u64"
  asid_rollovers :: u32
  vms :: "u64 \<Rightarrow> arm64_user_vm option"
  vm_registry :: "u64 list"
  shm_objects :: "shm_object list"
  shm_next_id :: u32
  shm_global_pages :: u32

definition ARMOS_MAX_CPUS :: nat where "ARMOS_MAX_CPUS = 4"
definition ARM64_ASID_COUNT :: u32 where "ARM64_ASID_COUNT = 256"
definition ARM64_USER_VM_MAGIC :: u32 where "ARM64_USER_VM_MAGIC = 0x41564D36"

definition VMA_READ :: u32 where "VMA_READ = 1"
definition VMA_WRITE :: u32 where "VMA_WRITE = 2"
definition VMA_EXEC :: u32 where "VMA_EXEC = 4"
definition VMA_KERNEL :: u32 where "VMA_KERNEL = 8"
definition VMA_SHARED :: u32 where "VMA_SHARED = 16"
definition VMA_LAZY :: u32 where "VMA_LAZY = 32"
definition VMA_DONTFORK :: u32 where "VMA_DONTFORK = 64"
definition VMA_EXTERNAL :: u32 where "VMA_EXTERNAL = 128"

lemmas vma_flag_defs = VMA_READ_def VMA_WRITE_def VMA_EXEC_def VMA_KERNEL_def VMA_SHARED_def VMA_LAZY_def
  VMA_DONTFORK_def VMA_EXTERNAL_def

definition PAGE_MASK :: u64 where "PAGE_MASK = NOT 0xFFF"
definition PAGE_OFFSET_MASK :: u64 where "PAGE_OFFSET_MASK = 0xFFF"

definition USER_HEAP_START :: u64 where "USER_HEAP_START = 0x108000000"
definition USER_SHM_START :: u64 where "USER_SHM_START = 0x4000000000"
definition USER_SHM_END :: u64 where "USER_SHM_END = 0x4400000000"
definition USER_STACK_TOP :: u64 where "USER_STACK_TOP = 0x7F00000000"
definition USER_STACK_BOTTOM :: u64 where "USER_STACK_BOTTOM = USER_STACK_TOP - 0x800000"
definition USER_HEAP_END :: u64 where "USER_HEAP_END = USER_SHM_START"
definition USER_SPACE_END :: u64 where "USER_SPACE_END = 0x7FFFF00000"

definition get_split_boundary :: u64 where
  "get_split_boundary = USER_SPACE_END"

definition empty_space :: vm_space where
  "empty_space = \<lparr>pgdir = 0, pgdir_alloc = 0, vma_list = [], arch_private = 0, heap_start = 0, heap_end = 0,
     brk = 0, stack_start = 0, space_asid = 0\<rparr>"

definition empty_vm :: "u64 \<Rightarrow> arm64_user_vm" where
  "empty_vm self = \<lparr>space = empty_space, magic = 0, l1 = 0, asid = 0, mapping_capacity = 0,
     l2_table_capacity = 0, l3_table_capacity = 0, tlb_generation = 0, l2_tables = [], l3_tables = [],
     mappings = [], l2_ptr = 0, l3_ptr = 0, mappings_ptr = 0, vm_self = self\<rparr>"

subsection \<open>Pages\<close>

definition arm64_vm_alloc_pages :: "platform \<Rightarrow> machine \<Rightarrow> u32 \<Rightarrow> int \<times> u64 \<times> machine" where
  "arm64_vm_alloc_pages e s count =
     (let (ph, pages) = allocate_pages e (phys s) count in
      if pages = 0 then (-1, 0, s\<lparr>phys := ph\<rparr>)
      else (0, pages, s\<lparr>phys := ph\<lparr>pmem := memset (pmem ph) pages 0 (unat count * 4096)\<rparr>\<rparr>))"

definition arm64_vm_free_pages :: "platform \<Rightarrow> machine \<Rightarrow> u64 \<Rightarrow> u32 \<Rightarrow> int \<times> machine" where
  "arm64_vm_free_pages e s address count = (0, s\<lparr>phys := free_pages e (phys s) address count\<rparr>)"

definition arm64_vm_release_user_page :: "platform \<Rightarrow> machine \<Rightarrow> u64 \<Rightarrow> machine" where
  "arm64_vm_release_user_page e s address = s\<lparr>phys := free_page e (phys s) address\<rparr>"

text \<open>Running a table operation of \<open>mmu.c\<close> on the machine.\<close>

definition set_pmem :: "machine \<Rightarrow> bmem \<Rightarrow> machine" where
  "set_pmem s m = s\<lparr>phys := (phys s)\<lparr>pmem := m\<rparr>\<rparr>"

definition set_mem_hw :: "machine \<Rightarrow> bmem \<times> mmu \<Rightarrow> machine" where
  "set_mem_hw s mh = (set_pmem s (fst mh))\<lparr>hw := snd mh\<rparr>"

subsection \<open>ASID pool\<close>

definition allocate_tlb_generation :: "machine \<Rightarrow> u32 \<times> machine" where
  "allocate_tlb_generation s =
     (let generation = next_tlb_generation s; next = generation + 1 in
      if generation = 0 then
        (let generation = next; next = next + 1
         in (if generation = 0 then 1 else generation, s\<lparr>next_tlb_generation := next\<rparr>))
      else (generation, s\<lparr>next_tlb_generation := next\<rparr>))"

definition asid_is_allocated :: "u8 list \<Rightarrow> u32 \<Rightarrow> bool" where
  "asid_is_allocated b a \<longleftrightarrow> b ! unat (drop_bit 3 a) AND push_bit (unat (a AND 7)) 1 \<noteq> 0"

definition asid_set_bit :: "u8 list \<Rightarrow> u32 \<Rightarrow> u8 list" where
  "asid_set_bit b a =
     b[unat (drop_bit 3 a) := b ! unat (drop_bit 3 a) OR push_bit (unat (a AND 7)) 1]"

definition asid_clear_bit :: "u8 list \<Rightarrow> u32 \<Rightarrow> u8 list" where
  "asid_clear_bit b a =
     b[unat (drop_bit 3 a) := b ! unat (drop_bit 3 a) AND NOT (push_bit (unat (a AND 7)) 1)]"

definition arm64_asid_hw :: "u32 \<Rightarrow> u32" where
  "arm64_asid_hw a = a AND (ARM64_ASID_COUNT - 1)"

definition arm64_asid_make :: "u32 \<Rightarrow> u32 \<Rightarrow> u32" where
  "arm64_asid_make generation hardware_asid = push_bit 8 generation OR arm64_asid_hw hardware_asid"

definition take_asid :: "machine \<Rightarrow> u32 \<Rightarrow> machine" where
  "take_asid s a =
     s\<lparr>asid_bitmap := asid_set_bit (asid_bitmap s) a,
       asid_slot_generation := (asid_slot_generation s)[unat a := asid_generation s]\<rparr>"

text \<open>The scan for a free slot, which the code runs before and after a rollover.\<close>

definition allocate_free_asid :: "machine \<Rightarrow> (u32 \<times> machine) option" where
  "allocate_free_asid s =
     (case find (\<lambda>a. \<not> asid_is_allocated (asid_bitmap s) a) (map of_nat [1..<256]) of
        None \<Rightarrow> None
      | Some a \<Rightarrow> Some (arm64_asid_make (asid_generation s) a, take_asid s a))"

text \<open>One CPU of the loop that keeps running address spaces in their slot over a rollover.\<close>

definition reserve_active_asid :: "machine \<Rightarrow> nat \<Rightarrow> machine" where
  "reserve_active_asid s cpu =
     (if asid_active_vm s cpu = 0 then s
      else case vms s (asid_active_vm s cpu) of
             None \<Rightarrow> s
           | Some active \<Rightarrow>
               let hardware_asid = arm64_asid_hw (asid active) in
               if hardware_asid = 0 then s
               else let s1 = take_asid s hardware_asid;
                        a = arm64_asid_make (asid_generation s1) hardware_asid
               in s1\<lparr>vms := (vms s1)(asid_active_vm s cpu \<mapsto>
                      active\<lparr>asid := a, space := (space active)\<lparr>space_asid := a\<rparr>\<rparr>)\<rparr>)"

definition asid_rollover :: "machine \<Rightarrow> machine" where
  "asid_rollover s =
     (let g = asid_generation s + 1; g = (if g = 0 then 1 else g);
          s1 = s\<lparr>asid_generation := g, asid_bitmap := replicate 32 0, asid_slot_generation := replicate 256 0,
                 asid_residency := (\<lambda>cpu a. (0, 0)), hw := tlb_shootdown_all (hw s),
                 asid_rollovers := asid_rollovers s + 1\<rparr>
      in foldl reserve_active_asid s1 [0..<ARMOS_MAX_CPUS])"

definition allocate_asid_locked :: "machine \<Rightarrow> u32 \<times> machine" where
  "allocate_asid_locked s =
     (case allocate_free_asid s of
        Some r \<Rightarrow> r
      | None \<Rightarrow> let s1 = asid_rollover s in
          (case allocate_free_asid s1 of Some r \<Rightarrow> r | None \<Rightarrow> (0, s1)))"

definition allocate_asid :: "machine \<Rightarrow> u32 \<times> machine" where
  "allocate_asid s = allocate_asid_locked s"

definition release_asid_locked :: "machine \<Rightarrow> u32 \<Rightarrow> machine" where
  "release_asid_locked s a =
     (let hardware_asid = arm64_asid_hw a; generation = drop_bit 8 a in
      if 0 < hardware_asid \<and> asid_slot_generation s ! unat hardware_asid = generation
      then s\<lparr>hw := tlb_shootdown_asid (hw s) hardware_asid,
             asid_bitmap := asid_clear_bit (asid_bitmap s) hardware_asid,
             asid_slot_generation := (asid_slot_generation s)[unat hardware_asid := 0],
             asid_residency := (\<lambda>cpu b. if cpu < ARMOS_MAX_CPUS \<and> b = hardware_asid then (0, 0)
                                  else asid_residency s cpu b)\<rparr>
      else s)"

definition release_asid :: "machine \<Rightarrow> u32 \<Rightarrow> machine" where
  "release_asid s a = release_asid_locked s a"

definition publish_targeted_generation :: "machine \<Rightarrow> arm64_user_vm \<Rightarrow> machine" where
  "publish_targeted_generation s vm =
     (let hardware_asid = asid vm AND (ARM64_ASID_COUNT - 1) in
      s\<lparr>asid_residency := (\<lambda>cpu a.
          if cpu < ARMOS_MAX_CPUS \<and> a = hardware_asid \<and> fst (asid_residency s cpu a) = l1 vm
          then (l1 vm, tlb_generation vm) else asid_residency s cpu a)\<rparr>)"

text \<open>The pair of statements that ends every change of a mapping.\<close>

definition new_tlb_generation :: "arm64_user_vm \<Rightarrow> machine \<Rightarrow> arm64_user_vm \<times> machine" where
  "new_tlb_generation vm s =
     (let (g, s1) = allocate_tlb_generation s; vm1 = vm\<lparr>tlb_generation := g\<rparr>
      in (vm1, publish_targeted_generation s1 vm1))"

subsection \<open>Inventories\<close>

definition find_l2 :: "arm64_user_vm \<Rightarrow> u64 \<Rightarrow> user_vm_l2_table option" where
  "find_l2 vm va = find (\<lambda>t. l2_l1 t = l1_index va) (l2_tables vm)"

definition find_l3 :: "arm64_user_vm \<Rightarrow> u64 \<Rightarrow> user_vm_l3_table option" where
  "find_l3 vm va = find (\<lambda>t. l3_l1 t = l1_index va \<and> l3_l2 t = l2_index va) (l3_tables vm)"

text \<open>The position of the mapping of a page, or the count when there is none.\<close>

definition mapping_index :: "arm64_user_vm \<Rightarrow> u64 \<Rightarrow> nat" where
  "mapping_index vm va = length (takeWhile (\<lambda>m. virtual_address m \<noteq> va) (mappings vm))"

text \<open>The doubling loop of the inventories: \<open>None\<close> when it would run for ever (capacity 0), \<open>Some None\<close> when
  the capacity would overflow.\<close>

partial_function (option) grow_capacity :: "u32 \<Rightarrow> u32 \<Rightarrow> u32 option option" where
  "grow_capacity capacity required =
     (if capacity < required then
        if 0x7FFFFFFF < capacity then Some None else grow_capacity (capacity * 2) required
      else Some (Some capacity))"

text \<open>Growing one inventory: the new block and capacity, or a failure. The items move along unchanged.\<close>

definition grow_inventory :: "kheap \<Rightarrow> u32 \<Rightarrow> u32 \<Rightarrow> u64 \<Rightarrow> ((u64 \<times> u32) option \<times> kheap) option" where
  "grow_inventory h capacity required item_size =
     do {
       c \<leftarrow> grow_capacity capacity required;
       case c of
         None \<Rightarrow> Some (None, h)
       | Some capacity \<Rightarrow> do {
           (h1, p) \<leftarrow> kmalloc h (ucast capacity * item_size);
           Some (if p = 0 then None else Some (p, capacity), h1)
         }
     }"

definition reserve_mappings :: "arm64_user_vm \<Rightarrow> machine \<Rightarrow> u32 \<Rightarrow> (int \<times> arm64_user_vm \<times> machine) option" where
  "reserve_mappings vm s required =
     (if required \<le> mapping_capacity vm then Some (0, vm, s)
      else do {
        (r, h1) \<leftarrow> grow_inventory (kheap s) (if mapping_capacity vm \<noteq> 0 then mapping_capacity vm else 32) required 24;
        case r of
          None \<Rightarrow> Some (-1, vm, s\<lparr>kheap := h1\<rparr>)
        | Some (p, capacity) \<Rightarrow> do {
            h2 \<leftarrow> kfree h1 (mappings_ptr vm);
            Some (0, vm\<lparr>mappings_ptr := p, mapping_capacity := capacity\<rparr>, s\<lparr>kheap := h2\<rparr>)
          }
      })"

definition reserve_l2_tables :: "arm64_user_vm \<Rightarrow> machine \<Rightarrow> u32 \<Rightarrow> (int \<times> arm64_user_vm \<times> machine) option" where
  "reserve_l2_tables vm s required =
     (if required \<le> l2_table_capacity vm then Some (0, vm, s)
      else do {
        (r, h1) \<leftarrow> grow_inventory (kheap s) (if l2_table_capacity vm \<noteq> 0 then l2_table_capacity vm else 4) required 16;
        case r of
          None \<Rightarrow> Some (-1, vm, s\<lparr>kheap := h1\<rparr>)
        | Some (p, capacity) \<Rightarrow> do {
            h2 \<leftarrow> kfree h1 (l2_ptr vm);
            Some (0, vm\<lparr>l2_ptr := p, l2_table_capacity := capacity\<rparr>, s\<lparr>kheap := h2\<rparr>)
          }
      })"

definition reserve_l3_tables :: "arm64_user_vm \<Rightarrow> machine \<Rightarrow> u32 \<Rightarrow> (int \<times> arm64_user_vm \<times> machine) option" where
  "reserve_l3_tables vm s required =
     (if required \<le> l3_table_capacity vm then Some (0, vm, s)
      else do {
        (r, h1) \<leftarrow> grow_inventory (kheap s) (if l3_table_capacity vm \<noteq> 0 then l3_table_capacity vm else 4) required 16;
        case r of
          None \<Rightarrow> Some (-1, vm, s\<lparr>kheap := h1\<rparr>)
        | Some (p, capacity) \<Rightarrow> do {
            h2 \<leftarrow> kfree h1 (l3_ptr vm);
            Some (0, vm\<lparr>l3_ptr := p, l3_table_capacity := capacity\<rparr>, s\<lparr>kheap := h2\<rparr>)
          }
      })"

definition l3_has_mapping :: "arm64_user_vm \<Rightarrow> u64 \<Rightarrow> u64 \<Rightarrow> bool" where
  "l3_has_mapping vm i j \<longleftrightarrow>
     list_ex (\<lambda>m. physical_address m \<noteq> 0 \<and> l1_index (virtual_address m) = i \<and> l2_index (virtual_address m) = j)
       (mappings vm)"

definition l2_has_l3 :: "arm64_user_vm \<Rightarrow> u64 \<Rightarrow> bool" where
  "l2_has_l3 vm i \<longleftrightarrow> list_ex (\<lambda>t. l3_l1 t = i) (l3_tables vm)"

text \<open>Removing an entry of an array by moving the last one into its place.\<close>

definition swap_remove :: "'a list \<Rightarrow> nat \<Rightarrow> 'a list" where
  "swap_remove xs i = butlast (xs[i := last xs])"

definition index_where :: "('a \<Rightarrow> bool) \<Rightarrow> 'a list \<Rightarrow> nat" where
  "index_where P xs = length (takeWhile (\<lambda>x. \<not> P x) xs)"

definition reclaim_l3 :: "platform \<Rightarrow> arm64_user_vm \<Rightarrow> machine \<Rightarrow> u64 \<Rightarrow> int \<times> arm64_user_vm \<times> machine" where
  "reclaim_l3 e vm s va =
     (case find_l3 vm va of
        None \<Rightarrow> (0, vm, s)
      | Some l3 \<Rightarrow>
          if l3_has_mapping vm (l1_index va) (l2_index va) then (0, vm, s)
          else case find_l2 vm va of
                 None \<Rightarrow> (-1, vm, s)
               | Some l2 \<Rightarrow>
                   let (r, mh) = arm64_mmu_remove_user_l3 (pmem (phys s)) (hw s) (l2_table l2) (l3_table l3) va
                                   (arm64_asid_hw (asid vm));
                       s1 = set_mem_hw s mh
                   in if r \<noteq> 0 then (-1, vm, s1)
                      else let tbl = l3_table l3; (r, s2) = arm64_vm_free_pages e s1 tbl 1 in
                      if r \<noteq> 0 then (-2, vm, s2)
                      else let index = index_where (\<lambda>t. l3_table t = tbl) (l3_tables vm) in
                      if index = length (l3_tables vm) then (-3, vm, s2)
                      else (0, vm\<lparr>l3_tables := swap_remove (l3_tables vm) index\<rparr>, s2))"

definition reclaim_l2 :: "platform \<Rightarrow> arm64_user_vm \<Rightarrow> machine \<Rightarrow> u64 \<Rightarrow> int \<times> arm64_user_vm \<times> machine" where
  "reclaim_l2 e vm s va =
     (case find_l2 vm va of
        None \<Rightarrow> (0, vm, s)
      | Some l2 \<Rightarrow>
          if l2_has_l3 vm (l1_index va) then (0, vm, s)
          else let tbl = l2_table l2;
                   (r, mh) = arm64_mmu_remove_user_l2 (pmem (phys s)) (hw s) (l1 vm) tbl va
                               (arm64_asid_hw (asid vm));
                   s1 = set_mem_hw s mh
               in if r \<noteq> 0 then (-4, vm, s1)
                  else let (r, s2) = arm64_vm_free_pages e s1 tbl 1 in
                  if r \<noteq> 0 then (-5, vm, s2)
                  else let index = index_where (\<lambda>t. l2_table t = tbl) (l2_tables vm) in
                  if index = length (l2_tables vm) then (-6, vm, s2)
                  else (0, vm\<lparr>l2_tables := swap_remove (l2_tables vm) index\<rparr>, s2))"

definition reclaim_empty_tables :: "platform \<Rightarrow> arm64_user_vm \<Rightarrow> machine \<Rightarrow> u64 \<Rightarrow> int \<times> arm64_user_vm \<times> machine" where
  "reclaim_empty_tables e vm s va =
     (let (r, vm1, s1) = reclaim_l3 e vm s va in
      if r \<noteq> 0 then (r, vm1, s1) else reclaim_l2 e vm1 s1 va)"

subsection \<open>Validation\<close>

fun l2_tables_ok :: "u64 \<Rightarrow> user_vm_l2_table list \<Rightarrow> bool" where
  "l2_tables_ok root [] \<longleftrightarrow> True"
| "l2_tables_ok root (t # ts) \<longleftrightarrow>
     \<not> (512 \<le> l2_l1 t \<or> l2_table t = 0 \<or> l2_table t AND PAGE_OFFSET_MASK \<noteq> 0 \<or> l2_table t = root) \<and>
     list_all (\<lambda>u. \<not> (l2_l1 t = l2_l1 u \<or> l2_table t = l2_table u)) ts \<and> l2_tables_ok root ts"

fun l3_tables_ok :: "u64 \<Rightarrow> user_vm_l2_table list \<Rightarrow> user_vm_l3_table list \<Rightarrow> bool" where
  "l3_tables_ok root l2s [] \<longleftrightarrow> True"
| "l3_tables_ok root l2s (t # ts) \<longleftrightarrow>
     \<not> (512 \<le> l3_l1 t \<or> 512 \<le> l3_l2 t \<or> l3_table t = 0 \<or> l3_table t AND PAGE_OFFSET_MASK \<noteq> 0 \<or> l3_table t = root) \<and>
     list_ex (\<lambda>u. l2_l1 u = l3_l1 t) l2s \<and>
     list_all (\<lambda>u. \<not> (l3_l1 t = l3_l1 u \<and> l3_l2 t = l3_l2 u) \<and> l3_table t \<noteq> l3_table u) ts \<and>
     list_all (\<lambda>u. l3_table t \<noteq> l2_table u) l2s \<and> l3_tables_ok root l2s ts"

definition item_count :: "'a list \<Rightarrow> u32" where
  "item_count xs = of_nat (length xs)"

definition validate_tables :: "arm64_user_vm \<Rightarrow> bool" where
  "validate_tables vm \<longleftrightarrow>
     \<not> (l2_table_capacity vm < item_count (l2_tables vm) \<or> l3_table_capacity vm < item_count (l3_tables vm) \<or>
        (l2_table_capacity vm = 0) \<noteq> (l2_ptr vm = 0) \<or> (l3_table_capacity vm = 0) \<noteq> (l3_ptr vm = 0)) \<and>
     l2_tables_ok (l1 vm) (l2_tables vm) \<and> l3_tables_ok (l1 vm) (l2_tables vm) (l3_tables vm)"

definition arm64_user_vm_flags_valid :: "u32 \<Rightarrow> bool" where
  "arm64_user_vm_flags_valid flags \<longleftrightarrow>
     \<not> (flags AND VMA_READ = 0 \<or>
        flags AND NOT (VMA_READ OR VMA_WRITE OR VMA_EXEC OR VMA_SHARED OR VMA_LAZY OR VMA_DONTFORK OR
                       VMA_EXTERNAL) \<noteq> 0) \<and>
     flags AND (VMA_WRITE OR VMA_EXEC) \<noteq> VMA_WRITE OR VMA_EXEC"

definition validate_residents :: "arm64_user_vm \<Rightarrow> bool" where
  "validate_residents vm \<longleftrightarrow>
     \<not> (mapping_capacity vm < item_count (mappings vm) \<or> (mapping_capacity vm = 0 \<and> mappings_ptr vm \<noteq> 0) \<or>
        (mapping_capacity vm \<noteq> 0 \<and> mappings_ptr vm = 0)) \<and>
     list_all (\<lambda>m. \<not> (virtual_address m AND PAGE_OFFSET_MASK \<noteq> 0 \<or> physical_address m = 0 \<or>
        physical_address m AND PAGE_OFFSET_MASK \<noteq> 0 \<or> \<not> arm64_user_vm_flags_valid (mflags m))) (mappings vm)"

definition validate_fields :: "arm64_user_vm \<Rightarrow> bool" where
  "validate_fields vm \<longleftrightarrow>
     \<not> (magic vm \<noteq> ARM64_USER_VM_MAGIC \<or> l1 vm = 0 \<or> asid vm = 0 \<or> pgdir (space vm) = 0 \<or>
        pgdir_alloc (space vm) = 0 \<or> space_asid (space vm) \<noteq> asid vm \<or> pgdir (space vm) \<noteq> l1 vm \<or>
        pgdir_alloc (space vm) \<noteq> l1 vm \<or> \<not> validate_tables vm \<or> \<not> validate_residents vm)"

definition arm64_user_vm_validate_identity :: "arm64_user_vm \<Rightarrow> bool" where
  "arm64_user_vm_validate_identity vm \<longleftrightarrow> validate_fields vm \<and> arch_private (space vm) = vm_self vm"

definition arm64_user_vm_rebind_space :: "arm64_user_vm \<Rightarrow> int \<times> arm64_user_vm" where
  "arm64_user_vm_rebind_space vm =
     (if magic vm \<noteq> ARM64_USER_VM_MAGIC \<or> l1 vm = 0 \<or> asid vm = 0 \<or>
         mapping_capacity vm < item_count (mappings vm) \<or> \<not> validate_tables vm then (-1, vm)
      else let vm1 = vm\<lparr>space := (space vm)\<lparr>arch_private := vm_self vm\<rparr>\<rparr>
           in (if arm64_user_vm_validate_identity vm1 then 0 else -1, vm1))"

definition arm64_user_vm_from_space :: "machine \<Rightarrow> u64 \<Rightarrow> u64" where
  "arm64_user_vm_from_space s p =
     (case vms s p of
        None \<Rightarrow> 0
      | Some vm \<Rightarrow> if arch_private (space vm) = 0 then 0
                   else if arch_private (space vm) \<noteq> p \<or> \<not> arm64_user_vm_validate_identity vm then 0 else p)"

subsection \<open>Operations on an address space\<close>

definition ensure_l2 :: "platform \<Rightarrow> arm64_user_vm \<Rightarrow> machine \<Rightarrow> u64 \<Rightarrow> (int \<times> u64 \<times> arm64_user_vm \<times> machine) option" where
  "ensure_l2 e vm s va =
     (case find_l2 vm va of
        Some l2 \<Rightarrow> Some (0, l2_table l2, vm, s)
      | None \<Rightarrow> do {
          (r, vm1, s1) \<leftarrow> reserve_l2_tables vm s (item_count (l2_tables vm) + 1);
          if r \<noteq> 0 then Some (-1, 0, vm1, s1)
          else let (r, tbl, s2) = arm64_vm_alloc_pages e s1 1 in
          if r \<noteq> 0 then Some (-1, 0, vm1, s2)
          else let (r, m) = arm64_mmu_install_user_l2 (pmem (phys s2)) (l1 vm1) tbl va; s3 = set_pmem s2 m in
          if r \<noteq> 0 then Some (-2, 0, vm1, snd (arm64_vm_free_pages e s3 tbl 1))
          else Some (0, tbl, vm1\<lparr>l2_tables := l2_tables vm1 @ [\<lparr>l2_l1 = l1_index va, l2_table = tbl\<rparr>]\<rparr>, s3)
        })"

definition ensure_l3 :: "platform \<Rightarrow> arm64_user_vm \<Rightarrow> machine \<Rightarrow> u64 \<Rightarrow> (int \<times> u64 \<times> arm64_user_vm \<times> machine) option" where
  "ensure_l3 e vm s va =
     (case find_l3 vm va of
        Some l3 \<Rightarrow> Some (0, l3_table l3, vm, s)
      | None \<Rightarrow> do {
          (r, l2, vm1, s1) \<leftarrow> ensure_l2 e vm s va;
          if r \<noteq> 0 then Some (r, 0, vm1, s1)
          else do {
            (r, vm2, s2) \<leftarrow> reserve_l3_tables vm1 s1 (item_count (l3_tables vm1) + 1);
            if r \<noteq> 0 then Some (-3, 0, vm2, s2)
            else let (r, tbl, s3) = arm64_vm_alloc_pages e s2 1 in
            if r \<noteq> 0 then Some (-3, 0, vm2, s3)
            else let (r, m) = arm64_mmu_install_user_l3 (pmem (phys s3)) l2 tbl va; s4 = set_pmem s3 m in
            if r \<noteq> 0 then Some (-4, 0, vm2, snd (arm64_vm_free_pages e s4 tbl 1))
            else Some (0, tbl, vm2\<lparr>l3_tables := l3_tables vm2 @
                         [\<lparr>l3_l1 = l1_index va, l3_l2 = l2_index va, l3_table = tbl\<rparr>]\<rparr>, s4)
          }
        })"

definition vm_initialize_user_layout :: "vm_space \<Rightarrow> vm_space" where
  "vm_initialize_user_layout sp =
     sp\<lparr>vma_list := [], heap_start := USER_HEAP_START, heap_end := USER_HEAP_END, brk := USER_HEAP_START,
        stack_start := USER_STACK_TOP\<rparr>"

definition arm64_user_vm_init :: "platform \<Rightarrow> u64 \<Rightarrow> machine \<Rightarrow> int \<times> arm64_user_vm \<times> machine" where
  "arm64_user_vm_init e self s =
     (let vm = empty_vm self; (a, s1) = allocate_asid s in
      if a = 0 then (-2, vm, s1)
      else let (r, table_pages, s2) = arm64_vm_alloc_pages e s1 1 in
      if r \<noteq> 0 then (-3, vm, release_asid s2 a)
      else let (r, m) = arm64_mmu_prepare_user_ttbr0 (pmem (phys s2)) table_pages; s3 = set_pmem s2 m in
      if r \<noteq> 0 then (-4, vm, release_asid (snd (arm64_vm_free_pages e s3 table_pages 1)) a)
      else let (g, s4) = allocate_tlb_generation s3;
               sp = (vm_initialize_user_layout ((space vm)\<lparr>pgdir := table_pages, pgdir_alloc := table_pages,
                       arch_private := self\<rparr>))\<lparr>space_asid := a\<rparr>
           in (0, vm\<lparr>l1 := table_pages, asid := a, tlb_generation := g, space := sp,
                     magic := ARM64_USER_VM_MAGIC\<rparr>, s4))"

definition arm64_user_vm_map_new_page ::
    "platform \<Rightarrow> arm64_user_vm \<Rightarrow> machine \<Rightarrow> u64 \<Rightarrow> u32 \<Rightarrow> (int \<times> u64 \<times> arm64_user_vm \<times> machine) option" where
  "arm64_user_vm_map_new_page e vm s va flags =
     (if \<not> arm64_user_vm_validate_identity vm \<or> va AND PAGE_OFFSET_MASK \<noteq> 0 \<or> push_bit 39 1 \<le> va \<or>
         \<not> arm64_user_vm_flags_valid flags \<or> flags AND VMA_LAZY \<noteq> 0 then Some (-1, 0, vm, s)
      else if mapping_index vm va \<noteq> length (mappings vm) then Some (-2, 0, vm, s)
      else do {
        (r, vm1, s1) \<leftarrow> reserve_mappings vm s (item_count (mappings vm) + 1);
        if r \<noteq> 0 then Some (-3, 0, vm1, s1)
        else do {
          (r, l3, vm2, s2) \<leftarrow> ensure_l3 e vm1 s1 va;
          if r \<noteq> 0 then let (_, vm3, s3) = reclaim_empty_tables e vm2 s2 va in Some (-4, 0, vm3, s3)
          else let (r, page, s3) = arm64_vm_alloc_pages e s2 1 in
          if r \<noteq> 0 then let (_, vm3, s4) = reclaim_empty_tables e vm2 s3 va in Some (-5, 0, vm3, s4)
          else let (r, mh) = arm64_mmu_map_user_l3_page (pmem (phys s3)) (hw s3) l3 va page
                               (flags AND (VMA_READ OR VMA_WRITE OR VMA_EXEC)) (arm64_asid_hw (asid vm2));
                   s4 = set_mem_hw s3 mh in
          if r \<noteq> 0 then
            let (_, vm3, s5) = reclaim_empty_tables e vm2 (arm64_vm_release_user_page e s4 page) va
            in Some (-6, 0, vm3, s5)
          else let vm3 = vm2\<lparr>mappings := mappings vm2 @
                           [\<lparr>virtual_address = va, physical_address = page, mflags = flags\<rparr>]\<rparr>;
                   (vm4, s5) = new_tlb_generation vm3 s4
               in Some (0, page, vm4, s5)
        }
      })"

definition arm64_user_vm_map_page ::
    "platform \<Rightarrow> arm64_user_vm \<Rightarrow> machine \<Rightarrow> u64 \<Rightarrow> u64 \<Rightarrow> u32 \<Rightarrow> (int \<times> arm64_user_vm \<times> machine) option" where
  "arm64_user_vm_map_page e vm s va pa flags =
     (let flags = flags AND NOT VMA_LAZY in
      if \<not> arm64_user_vm_validate_identity vm \<or> va AND PAGE_OFFSET_MASK \<noteq> 0 \<or> pa AND PAGE_OFFSET_MASK \<noteq> 0 \<or>
         \<not> arm64_user_vm_flags_valid flags then Some (-1, vm, s)
      else let index = mapping_index vm va in
      if index < length (mappings vm) \<and> physical_address (mappings vm ! index) \<noteq> 0 then Some (-2, vm, s)
      else do {
        (r, vm1, s1) \<leftarrow> (if index = length (mappings vm) then reserve_mappings vm s (item_count (mappings vm) + 1)
                         else Some (0, vm, s));
        if r \<noteq> 0 then Some (-3, vm1, s1)
        else do {
          (r, l3, vm2, s2) \<leftarrow> ensure_l3 e vm1 s1 va;
          if r \<noteq> 0 then let (_, vm3, s3) = reclaim_empty_tables e vm2 s2 va in Some (-4, vm3, s3)
          else let (r, mh) = arm64_mmu_map_user_l3_page (pmem (phys s2)) (hw s2) l3 va pa
                               (flags AND (VMA_READ OR VMA_WRITE OR VMA_EXEC)) (arm64_asid_hw (asid vm2));
                   s3 = set_mem_hw s2 mh in
          if r \<noteq> 0 then let (_, vm3, s4) = reclaim_empty_tables e vm2 s3 va in Some (-5, vm3, s4)
          else let m = \<lparr>virtual_address = va, physical_address = pa, mflags = flags\<rparr>;
                   vm3 = vm2\<lparr>mappings := (if index = length (mappings vm2) then mappings vm2 @ [m]
                                          else (mappings vm2)[index := m])\<rparr>
               in Some (0, new_tlb_generation vm3 s3)
        }
      })"

definition arm64_user_vm_protect_page ::
    "arm64_user_vm \<Rightarrow> machine \<Rightarrow> u64 \<Rightarrow> u32 \<Rightarrow> int \<times> arm64_user_vm \<times> machine" where
  "arm64_user_vm_protect_page vm s va flags =
     (let flags = flags AND NOT VMA_LAZY in
      if \<not> arm64_user_vm_validate_identity vm \<or> \<not> arm64_user_vm_flags_valid flags then (-1, vm, s)
      else let va = va AND PAGE_MASK; index = mapping_index vm va in
      case find_l3 vm va of
        None \<Rightarrow> (-2, vm, s)
      | Some l3 \<Rightarrow>
          if index = length (mappings vm) then (-2, vm, s)
          else let physical = physical_address (mappings vm ! index) in
          if physical = 0 then (-3, vm, s)
          else let (r, unmapped, mh) = arm64_mmu_unmap_user_l3_page (pmem (phys s)) (hw s) (l3_table l3) va
                                         (arm64_asid_hw (asid vm));
                   s1 = set_mem_hw s mh in
          if r \<noteq> 0 \<or> unmapped \<noteq> physical then (-3, vm, s1)
          else let (r, mh) = arm64_mmu_map_user_l3_page (pmem (phys s1)) (hw s1) (l3_table l3) va physical
                               (flags AND (VMA_READ OR VMA_WRITE OR VMA_EXEC)) (arm64_asid_hw (asid vm));
                   s2 = set_mem_hw s1 mh in
          if r \<noteq> 0 then (-4, vm, s2)
          else let vm1 = vm\<lparr>mappings := (mappings vm)[index := (mappings vm ! index)\<lparr>mflags := flags\<rparr>]\<rparr>
               in (0, new_tlb_generation vm1 s2))"

definition arm64_user_vm_unmap_page ::
    "platform \<Rightarrow> arm64_user_vm \<Rightarrow> machine \<Rightarrow> u64 \<Rightarrow> int \<times> arm64_user_vm \<times> machine" where
  "arm64_user_vm_unmap_page e vm s va =
     (if \<not> arm64_user_vm_validate_identity vm \<or> va AND PAGE_OFFSET_MASK \<noteq> 0 then (-1, vm, s)
      else let index = mapping_index vm va in
      if index = length (mappings vm) then (-2, vm, s)
      else if physical_address (mappings vm ! index) = 0 then
        let vm1 = vm\<lparr>mappings := swap_remove (mappings vm) index\<rparr>
        in (if arm64_user_vm_validate_identity vm1 then 0 else -1, vm1, s)
      else case find_l3 vm va of
        None \<Rightarrow> (-3, vm, s)
      | Some l3 \<Rightarrow>
          let (r, physical, mh) = arm64_mmu_unmap_user_l3_page (pmem (phys s)) (hw s) (l3_table l3) va
                                    (arm64_asid_hw (asid vm));
              s1 = set_mem_hw s mh in
          if r \<noteq> 0 then (-4, vm, s1)
          else if physical \<noteq> physical_address (mappings vm ! index) then (-5, vm, s1)
          else let vm1 = vm\<lparr>mappings := swap_remove (mappings vm) index\<rparr>;
                   (vm2, s2) = new_tlb_generation vm1 s1;
                   (r, vm3, s3) = reclaim_empty_tables e vm2 s2 va
               in if r \<noteq> 0 then (-7, vm3, s3)
                  else (if arm64_user_vm_validate_identity vm3 then 0 else -1, vm3, s3))"

definition arm64_user_vm_lookup :: "arm64_user_vm \<Rightarrow> u64 \<Rightarrow> int \<times> u64 \<times> u32" where
  "arm64_user_vm_lookup vm va =
     (if \<not> arm64_user_vm_validate_identity vm then (-1, 0, 0)
      else let index = mapping_index vm (va AND PAGE_MASK) in
      if index = length (mappings vm) then (-2, 0, 0)
      else (0, physical_address (mappings vm ! index), mflags (mappings vm ! index)))"

definition arm64_user_vm_destroy ::
    "platform \<Rightarrow> nat \<Rightarrow> arm64_user_vm \<Rightarrow> machine \<Rightarrow> (int \<times> arm64_user_vm \<times> machine) option" where
  "arm64_user_vm_destroy e cpu vm s =
     (if \<not> arm64_user_vm_validate_identity vm then Some (-1, vm, s)
      else if ttbr0 (hw s) cpu AND ARM64_TABLE_MASK = l1 vm then Some (-2, vm, s)
      else let s1 = foldl (\<lambda>s m. if physical_address m \<noteq> 0 \<and> mflags m AND VMA_EXTERNAL = 0
                                 then arm64_vm_release_user_page e s (physical_address m) else s) s (mappings vm)
      in do {
        h1 \<leftarrow> kfree (kheap s1) (mappings_ptr vm);
        let s2 = foldl (\<lambda>s t. snd (arm64_vm_free_pages e s (l3_table t) 1)) (s1\<lparr>kheap := h1\<rparr>) (l3_tables vm);
        let s3 = foldl (\<lambda>s t. snd (arm64_vm_free_pages e s (l2_table t) 1)) s2 (l2_tables vm);
        h2 \<leftarrow> kfree (kheap s3) (l3_ptr vm);
        h3 \<leftarrow> kfree h2 (l2_ptr vm);
        let s4 = snd (arm64_vm_free_pages e (s3\<lparr>kheap := h3\<rparr>) (l1 vm) 1);
        Some (0, vm\<lparr>mappings := [], mappings_ptr := 0, mapping_capacity := 0, l1 := 0, asid := 0,
                    space := (space vm)\<lparr>pgdir := 0, pgdir_alloc := 0, space_asid := 0\<rparr>,
                    l2_tables := [], l2_ptr := 0, l2_table_capacity := 0,
                    l3_tables := [], l3_ptr := 0, l3_table_capacity := 0, magic := 0\<rparr>,
              release_asid s4 (asid vm))
      })"

subsection \<open>Activation\<close>

definition set_asid :: "machine \<Rightarrow> u64 \<Rightarrow> u32 \<Rightarrow> machine" where
  "set_asid s p a =
     (case vms s p of
        None \<Rightarrow> s
      | Some vm \<Rightarrow> s\<lparr>vms := (vms s)(p \<mapsto> vm\<lparr>asid := a, space := (space vm)\<lparr>space_asid := a\<rparr>\<rparr>)\<rparr>)"

text \<open>\<open>arm64_user_vm_activate\<close> after the generation check: switch TTBR0, with or without a local flush.\<close>

definition activate_current :: "machine \<Rightarrow> nat \<Rightarrow> u64 \<Rightarrow> arm64_user_vm \<Rightarrow> int \<times> machine" where
  "activate_current s cpu p vm =
     (let hardware_asid = arm64_asid_hw (asid vm) in
      if asid_residency s cpu hardware_asid = (l1 vm, tlb_generation vm) then
        (let (r, h) = arm64_mmu_switch_user_ttbr0_preserve (hw s) cpu (l1 vm) hardware_asid in
         if r = 0 then (r, s\<lparr>hw := h, tlb_preserve_count := tlb_preserve_count s + 1,
                             asid_active_vm := (asid_active_vm s)(cpu := p)\<rparr>)
         else (r, s\<lparr>hw := h\<rparr>))
      else
        (let (r, h) = arm64_mmu_switch_user_ttbr0 (hw s) cpu (l1 vm) hardware_asid in
         if r = 0 then (r, s\<lparr>hw := h, tlb_flush_count := tlb_flush_count s + 1,
                             asid_residency := (asid_residency s)(cpu := (asid_residency s cpu)
                               (hardware_asid := (l1 vm, tlb_generation vm))),
                             asid_active_vm := (asid_active_vm s)(cpu := p)\<rparr>)
         else (r, s\<lparr>hw := h\<rparr>)))"

definition arm64_user_vm_activate :: "machine \<Rightarrow> nat \<Rightarrow> u64 \<Rightarrow> int \<times> machine" where
  "arm64_user_vm_activate s cpu p =
     (case vms s p of
        None \<Rightarrow> (-1, s)
      | Some vm \<Rightarrow>
          if \<not> arm64_user_vm_validate_identity vm then (-1, s)
          else if ARMOS_MAX_CPUS \<le> cpu then (-2, s)
          else if drop_bit 8 (asid vm) \<noteq> asid_generation s then
            (let (a, s1) = allocate_asid_locked s in
             if a = 0 then (-3, s1)
             else let s2 = set_asid s1 p a in
             (case vms s2 p of None \<Rightarrow> (-1, s2) | Some vm \<Rightarrow> activate_current s2 cpu p vm))
          else activate_current s cpu p vm)"

definition arm64_user_vm_activate_space :: "machine \<Rightarrow> nat \<Rightarrow> u64 \<Rightarrow> int \<times> machine" where
  "arm64_user_vm_activate_space s cpu sp =
     (let p = arm64_user_vm_from_space s sp in
      if p = 0 then (-1, s) else arm64_user_vm_activate s cpu p)"

definition arm64_user_vm_deactivate_cpu :: "machine \<Rightarrow> nat \<Rightarrow> machine" where
  "arm64_user_vm_deactivate_cpu s cpu =
     (if ARMOS_MAX_CPUS \<le> cpu then s else s\<lparr>asid_active_vm := (asid_active_vm s)(cpu := 0)\<rparr>)"

subsection \<open>Registry and page operations by root\<close>

definition register_backend :: "machine \<Rightarrow> u64 \<Rightarrow> bool \<times> machine" where
  "register_backend s p =
     (if p \<in> set (vm_registry s) then (False, s) else (True, s\<lparr>vm_registry := p # vm_registry s\<rparr>))"

definition unregister_backend :: "machine \<Rightarrow> u64 \<Rightarrow> machine" where
  "unregister_backend s p = s\<lparr>vm_registry := remove1 p (vm_registry s)\<rparr>"

definition backend_for_pgdir :: "machine \<Rightarrow> u64 \<Rightarrow> u64 option" where
  "backend_for_pgdir s pd =
     find (\<lambda>p. case vms s p of None \<Rightarrow> False | Some vm \<Rightarrow> pgdir (space vm) = pd) (vm_registry s)"

definition backend :: "machine \<Rightarrow> u64 \<Rightarrow> u64" where
  "backend s sp = (if sp = 0 then 0 else case vms s sp of None \<Rightarrow> 0 | Some vm \<Rightarrow> arch_private (space vm))"

definition put_vm :: "machine \<Rightarrow> u64 \<Rightarrow> arm64_user_vm \<Rightarrow> machine" where
  "put_vm s p vm = s\<lparr>vms := (vms s)(p \<mapsto> vm)\<rparr>"

text \<open>\<open>cur\<close> is \<open>task->process->vm\<close> of the running task, 0 when one of the links is NULL.\<close>

definition map_user_page :: "platform \<Rightarrow> u64 \<Rightarrow> machine \<Rightarrow> u64 \<Rightarrow> u64 \<Rightarrow> u64 \<Rightarrow> u32 \<Rightarrow> u32 \<Rightarrow> (int \<times> machine) option" where
  "map_user_page e cur s pd va pa flags a =
     (let current = (case vms s cur of
                       None \<Rightarrow> 0
                     | Some vm \<Rightarrow> if cur \<noteq> 0 \<and> pgdir (space vm) = pd then backend s cur else 0);
          p = (if current \<noteq> 0 then current else case backend_for_pgdir s pd of None \<Rightarrow> 0 | Some p \<Rightarrow> p) in
      case vms s p of
        None \<Rightarrow> Some (-1, s)
      | Some vm \<Rightarrow>
          if p = 0 \<or> asid vm \<noteq> a then Some (-1, s)
          else do {
            (r, vm1, s1) \<leftarrow> arm64_user_vm_map_page e vm s (va AND PAGE_MASK) (pa AND PAGE_MASK) flags;
            Some (r, put_vm s1 p vm1)
          })"

definition map_user_page_readonly :: "platform \<Rightarrow> u64 \<Rightarrow> machine \<Rightarrow> u64 \<Rightarrow> u64 \<Rightarrow> u64 \<Rightarrow> u32 \<Rightarrow> u32 \<Rightarrow> (int \<times> machine) option" where
  "map_user_page_readonly e cur s pd va pa flags a =
     map_user_page e cur s pd va pa ((flags OR VMA_READ) AND NOT VMA_WRITE) a"

definition unmap_user_page :: "platform \<Rightarrow> machine \<Rightarrow> u64 \<Rightarrow> u64 \<Rightarrow> u32 \<Rightarrow> int \<times> machine" where
  "unmap_user_page e s pd va a =
     (case backend_for_pgdir s pd of
        None \<Rightarrow> (-1, s)
      | Some p \<Rightarrow> (case vms s p of
          None \<Rightarrow> (-1, s)
        | Some vm \<Rightarrow>
            if asid vm \<noteq> a then (-1, s)
            else let (r, vm1, s1) = arm64_user_vm_unmap_page e vm s (va AND PAGE_MASK) in (r, put_vm s1 p vm1)))"

definition remap_user_page :: "platform \<Rightarrow> u64 \<Rightarrow> machine \<Rightarrow> u64 \<Rightarrow> u64 \<Rightarrow> u64 \<Rightarrow> u32 \<Rightarrow> u32 \<Rightarrow> (int \<times> machine) option" where
  "remap_user_page e cur s pd va pa flags a =
     map_user_page e cur (snd (unmap_user_page e s pd va a)) pd va pa flags a"

definition arm64_user_vm_activate_identity :: "machine \<Rightarrow> nat \<Rightarrow> u64 \<Rightarrow> u32 \<Rightarrow> int \<times> u32 \<times> machine" where
  "arm64_user_vm_activate_identity s cpu tbl a =
     (case backend_for_pgdir s tbl of
        None \<Rightarrow> (-1, 0, s)
      | Some p \<Rightarrow> (case vms s p of
          None \<Rightarrow> (-1, 0, s)
        | Some vm \<Rightarrow>
            if a = 0 then (-1, 0, s)
            else if asid vm \<noteq> a \<and> drop_bit 8 a = drop_bit 8 (asid vm) then (-1, 0, s)
            else let (r, s1) = arm64_user_vm_activate s cpu p in
              (r, if r = 0 then (case vms s1 p of None \<Rightarrow> 0 | Some vm \<Rightarrow> asid vm) else 0, s1)))"

definition get_physical_address :: "machine \<Rightarrow> u64 \<Rightarrow> u64 \<Rightarrow> u64" where
  "get_physical_address s pd va =
     (case backend_for_pgdir s pd of
        None \<Rightarrow> 0
      | Some p \<Rightarrow> (case vms s p of
          None \<Rightarrow> 0
        | Some vm \<Rightarrow>
            let (r, physical, _) = arm64_user_vm_lookup vm (va AND PAGE_MASK) in
            if r \<noteq> 0 then 0 else if physical \<noteq> 0 then physical + (va AND PAGE_OFFSET_MASK) else 0))"

definition protect_user_page :: "machine \<Rightarrow> u64 \<Rightarrow> u64 \<Rightarrow> u32 \<Rightarrow> (u32 \<Rightarrow> u32) \<Rightarrow> int \<times> machine" where
  "protect_user_page s pd va a change =
     (case backend_for_pgdir s pd of
        None \<Rightarrow> (-1, s)
      | Some p \<Rightarrow> (case vms s p of
          None \<Rightarrow> (-1, s)
        | Some vm \<Rightarrow>
            let (r, _, flags) = arm64_user_vm_lookup vm (va AND PAGE_MASK) in
            if asid vm \<noteq> a \<or> r \<noteq> 0 then (-1, s)
            else let (r, vm1, s1) = arm64_user_vm_protect_page vm s va (change flags) in (r, put_vm s1 p vm1)))"

definition set_user_page_readonly :: "machine \<Rightarrow> u64 \<Rightarrow> u64 \<Rightarrow> u32 \<Rightarrow> int \<times> machine" where
  "set_user_page_readonly s pd va a =
     protect_user_page s pd va a (\<lambda>flags. (flags OR VMA_READ) AND NOT VMA_WRITE)"

definition set_user_page_writable :: "machine \<Rightarrow> u64 \<Rightarrow> u64 \<Rightarrow> u32 \<Rightarrow> int \<times> machine" where
  "set_user_page_writable s pd va a =
     protect_user_page s pd va a (\<lambda>flags. flags OR VMA_READ OR VMA_WRITE)"

definition switch_to_vm_space :: "machine \<Rightarrow> nat \<Rightarrow> u64 \<Rightarrow> machine" where
  "switch_to_vm_space s cpu sp = (if sp = 0 then s else snd (arm64_user_vm_activate_space s cpu sp))"

definition vm_resident_kb :: "machine \<Rightarrow> u64 \<Rightarrow> u32" where
  "vm_resident_kb s sp =
     (case vms s (backend s sp) of
        None \<Rightarrow> 0
      | Some vm \<Rightarrow> of_nat (length (filter (\<lambda>m. physical_address m \<noteq> 0) (mappings vm))) * (4096 div 1024))"

definition vm_page_table_count :: "machine \<Rightarrow> u64 \<Rightarrow> u32" where
  "vm_page_table_count s sp =
     (case vms s (backend s sp) of
        None \<Rightarrow> 0
      | Some vm \<Rightarrow> 1 + item_count (l2_tables vm) + item_count (l3_tables vm))"

subsection \<open>Boot\<close>

text \<open>The static state of \<open>user_vm.c\<close>, \<open>tlb.c\<close> and \<open>shm.c\<close> at boot, with the allocators as memory initialisation left them.\<close>

definition boot_mmu :: mmu where
  "boot_mmu = \<lparr>tlb = (\<lambda>_ _ _. None), ttbr0 = (\<lambda>_. 0), sctlr = 0, cpus_seen = [], total_count = 0, remote_count = 0,
     tlb_gen = 0, cpu_ack = (\<lambda>_. 0)\<rparr>"

definition SHM_MAX_OBJECTS :: nat where "SHM_MAX_OBJECTS = 32"

definition zero_shm :: shm_object where
  "zero_shm = \<lparr>shm_used = False, shm_unlinked = False, shm_obj_id = 0, shm_name = [], shm_size = 0, shm_phys = [],
     shm_capacity = 0, shm_phys_ptr = 0, shm_mappings = 0, shm_handles = 0\<rparr>"

definition boot_machine :: "physmem \<Rightarrow> kheap \<Rightarrow> machine" where
  "boot_machine ph h = \<lparr>phys = ph, kheap = h, hw = boot_mmu, asid_bitmap = replicate 32 0,
     asid_slot_generation = replicate 256 0, asid_generation = 1, next_tlb_generation = 1, tlb_flush_count = 0,
     tlb_preserve_count = 0, asid_residency = (\<lambda>_ _. (0, 0)), asid_active_vm = (\<lambda>_. 0), asid_rollovers = 0,
     vms = (\<lambda>_. None), vm_registry = [], shm_objects = replicate SHM_MAX_OBJECTS zero_shm, shm_next_id = 1, shm_global_pages = 0\<rparr>"

end
