(* ===== verification/Mmu_Correct.thy ===== *)
theory Mmu_Correct
  imports Mmu KString_Correct
begin

text \<open>
  Translation tables as arrays of descriptors: what a read returns after a write, after clearing a table and
  after zeroing a page; the fields of the descriptors the code builds; and the table walk of the hardware
  (\<open>user_walk\<close>), which the later theories compare with the kernel's own records.
\<close>

subsection \<open>Words in memory\<close>

lemma word64_bytes_eq:
  fixes v w :: u64
  assumes "\<And>k. k < 8 \<Longrightarrow> (ucast (drop_bit (8 * k) v) :: u8) = ucast (drop_bit (8 * k) w)"
  shows "v = w"
proof (rule bit_word_eqI)
  fix n assume n: "n < LENGTH(64)"
  have b: "bit (ucast (drop_bit (8 * (n div 8)) x) :: u8) (n mod 8) = bit x n" for x :: u64
    using n by (simp add: bit_simps)
  have "n div 8 < 8" using n by simp
  then show "bit v n = bit w n" using assms[of "n div 8"] b[of v] b[of w] by simp
qed

lemma load_word_cong: "(\<And>k. k < 8 \<Longrightarrow> m (a + of_nat k) = m' (a + of_nat k)) \<Longrightarrow> load_word m a = load_word m' a"
  by (rule word64_bytes_eq) (simp add: load_word_byte)

lemma load_store_same [simp]: "load_word (store_word m a w) a = w"
  by (rule word64_bytes_eq) (simp add: load_word_byte store_word_def unat_of_nat64)

definition page :: "u64 \<Rightarrow> bool" where
  "page t \<longleftrightarrow> 4096 dvd unat t"

definition in_page :: "u64 \<Rightarrow> u64 \<Rightarrow> bool" where
  "in_page t x \<longleftrightarrow> unat (x - t) < 4096"

lemma in_page_div: "page t \<Longrightarrow> in_page t x \<longleftrightarrow> unat x div 4096 = unat t div 4096"
proof -
  assume "page t"
  then obtain q where q: "unat t = 4096 * q" by (auto simp: page_def)
  have "q < 2 ^ 52" using q unat64_less[of t] by simp
  then show ?thesis
    unfolding in_page_def unat_minus_wrap q using unat64_less[of x] by auto
qed

lemma pages_apart: "page t \<Longrightarrow> page t' \<Longrightarrow> in_page t x \<Longrightarrow> in_page t' x \<Longrightarrow> t = t'"
  by (auto simp: in_page_div page_def word_unat_eq_iff)

lemma entry_unat:
  assumes "page t" "i < 512"
  shows "unat (t + i * 8) = unat t + unat i * 8"
proof -
  obtain q where q: "unat t = 4096 * q" using assms(1) by (auto simp: page_def)
  have b: "q < 2 ^ 52" using q unat64_less[of t] by simp
  have i: "unat i < 512" using assms(2) by (simp add: word_less_nat_alt)
  have "unat (i * 8) = unat i * 8" using i by (subst unat_mult_lem[THEN iffD1]) auto
  then show ?thesis using q b i by (subst unat_add_in) auto
qed

lemma entry_byte_unat:
  assumes "page t" "i < 512" "k < 8"
  shows "unat (t + i * 8 + of_nat k) = unat t + unat i * 8 + k"
proof -
  obtain q where q: "unat t = 4096 * q" using assms(1) by (auto simp: page_def)
  have b: "q < 2 ^ 52" using q unat64_less[of t] by simp
  have i: "unat i < 512" using assms(2) by (simp add: word_less_nat_alt)
  show ?thesis using entry_unat[OF assms(1,2)] q b i assms(3) by (subst unat_ptr_add) auto
qed

lemma entry_in_page:
  assumes "page t" "i < 512" "k < 8"
  shows "in_page t (t + i * 8 + of_nat k)"
proof -
  have "unat i < 512" using assms(2) by (simp add: word_less_nat_alt)
  then show ?thesis
    using entry_byte_unat[OF assms] assms(1,3) by (auto simp: in_page_div page_def)
qed

subsection \<open>Descriptors in tables\<close>

lemma entry_set:
  assumes "page t" "page t'" "i < 512" "j < 512"
  shows "table_entry (set_entry m t i d) t' j = (if t = t' \<and> i = j then d else table_entry m t' j)"
proof (cases "t = t' \<and> i = j")
  case True
  then show ?thesis by (simp add: table_entry_def set_entry_def)
next
  case False
  have bij: "unat i < 512" "unat j < 512" using assms(3,4) by (simp_all add: word_less_nat_alt)
  obtain q q' where q: "unat t = 4096 * q" "unat t' = 4096 * q'" using assms(1,2) by (auto simp: page_def elim!: dvdE)
  have "q < 2 ^ 52" using q unat64_less[of t] by simp
  then have top: "unat t + 4096 \<le> 2 ^ 64" unfolding q by simp
  have "\<not> unat (t' + j * 8 + of_nat k - (t + i * 8)) < 8" if "k < 8" for k
  proof -
    have "512 * q + unat i \<noteq> 512 * q' + unat j"
    proof
      assume "512 * q + unat i = 512 * q' + unat j"
      then have "(512 * q + unat i) mod 512 = (512 * q' + unat j) mod 512" "(512 * q + unat i) div 512 = (512 * q' + unat j) div 512"
        by simp_all
      then have "unat i = unat j" "q = q'" using bij by simp_all
      then show False using False q by (auto simp: word_unat_eq_iff)
    qed
    then have "unat t' + unat j * 8 + 8 \<le> unat t + unat i * 8 \<or> unat t + unat i * 8 + 8 \<le> unat t' + unat j * 8"
      unfolding q by arith
    then show ?thesis
      unfolding unat_minus_wrap entry_unat[OF assms(1,3)] entry_byte_unat[OF assms(2,4) that]
      using that top bij by auto
  qed
  then show ?thesis using False unfolding table_entry_def set_entry_def
    by (auto intro!: load_word_cong simp: store_word_def)
qed

lemma set_entry_outside:
  assumes "page t" "i < 512" "\<not> in_page t x"
  shows "set_entry m t i d x = m x"
proof -
  have "\<not> unat (x - (t + i * 8)) < 8"
  proof
    assume k: "unat (x - (t + i * 8)) < 8"
    have "x = t + i * 8 + of_nat (unat (x - (t + i * 8)))" by simp
    then show False using entry_in_page[OF assms(1,2) k] assms(3) by simp
  qed
  then show ?thesis by (simp add: set_entry_def store_word_def)
qed

lemma entry_cong:
  assumes "page t" "i < 512" "\<And>x. in_page t x \<Longrightarrow> m x = m' x"
  shows "table_entry m t i = table_entry m' t i"
  unfolding table_entry_def using entry_in_page[OF assms(1,2)] assms(3) by (intro load_word_cong) blast

lemma load_zero: "(\<And>k. k < 8 \<Longrightarrow> m (a + of_nat k) = 0) \<Longrightarrow> load_word m a = 0"
  using load_word_cong[of m a "\<lambda>_. 0"] by (simp add: load_word_def)

lemma entry_zero_page:
  assumes "page p" "page t" "i < 512"
  shows "table_entry (set_range m p 4096 0) t i = (if t = p then 0 else table_entry m t i)"
proof (cases "t = p")
  case True
  then show ?thesis
    using entry_in_page[OF assms(2,3)]
    by (auto simp: table_entry_def in_page_def set_range_def intro!: load_zero)
next
  case False
  then have "set_range m p 4096 0 x = m x" if "in_page t x" for x
    using pages_apart[OF assms(1,2), of x] that by (auto simp: set_range_def in_page_def)
  then show ?thesis using False by (simp add: entry_cong[OF assms(2,3), of "set_range m p 4096 0" m])
qed

lemma clear_prefix:
  assumes "page p" "page t" "i < 512" "n \<le> 512"
  shows "table_entry (foldl (\<lambda>m i. set_entry m p (of_nat i) 0) m [0..<n]) t i =
    (if t = p \<and> unat i < n then 0 else table_entry m t i)"
  using assms(4)
proof (induction n)
  case 0
  then show ?case by simp
next
  case (Suc n)
  have n: "(of_nat n :: u64) < 512" "unat (of_nat n :: u64) = n"
    using Suc.prems by (simp_all add: word_less_nat_alt unat_of_nat64)
  then have "of_nat n = i \<longleftrightarrow> unat i = n" by auto
  then show ?case using Suc n assms(1-3) by (auto simp: entry_set)
qed

lemma entry_clear:
  assumes "page p" "page t" "i < 512"
  shows "table_entry (clear_table m p) t i = (if t = p then 0 else table_entry m t i)"
  using clear_prefix[OF assms, of 512 m] assms(3) by (simp add: clear_table_def word_less_nat_alt)

lemma clear_table_outside:
  assumes "page t" "\<not> in_page t x"
  shows "clear_table m t x = m x"
proof -
  have "foldl (\<lambda>m i. set_entry m t (of_nat i) 0) m [0..<n] x = m x" if "n \<le> 512" for n
    using that
  proof (induction n)
    case (Suc n)
    then have "(of_nat n :: u64) < 512" by (simp add: word_less_nat_alt unat_of_nat64)
    then show ?case using Suc assms by (simp add: set_entry_outside)
  qed simp
  then show ?thesis by (simp add: clear_table_def)
qed

lemma and_1FF: "(x :: u64) AND 0x1FF = take_bit 9 x"
  by (simp add: take_bit_eq_mask mask_eq_exp_minus_1)

lemma index_less [simp]: "l1_index va < 512" "l2_index va < 512" "l3_index va < 512"
  using take_bit_nat_less_exp[of 9]
  by (simp_all add: l1_index_def l2_index_def l3_index_def and_1FF word_less_nat_alt unsigned_take_bit_eq)

subsection \<open>Descriptor fields\<close>

lemma page_mask: "page t \<longleftrightarrow> t AND 0xFFF = 0"
proof -
  have "t AND 0xFFF = take_bit 12 t" by (simp add: take_bit_eq_mask mask_eq_exp_minus_1)
  moreover have "take_bit 12 t = 0 \<longleftrightarrow> unat t mod 4096 = 0"
    by (simp add: word_unat_eq_iff take_bit_eq_mod unat_mod)
  ultimately show ?thesis by (simp add: page_def dvd_eq_mod_eq_0)
qed

lemma valid_page: "table_address_valid t \<Longrightarrow> page t"
  by (simp add: table_address_valid_def page_mask)

lemma valid_masked: "table_address_valid t \<longleftrightarrow> t AND ARM64_TABLE_MASK = t"
proof
  assume "table_address_valid t"
  then have "t AND NOT ARM64_TABLE_MASK = 0" by (simp add: table_address_valid_def)
  moreover have "t = (t AND ARM64_TABLE_MASK) OR (t AND NOT ARM64_TABLE_MASK)"
    by (rule bit_word_eqI) (auto simp: bit_simps)
  ultimately show "t AND ARM64_TABLE_MASK = t" by simp
next
  assume t: "t AND ARM64_TABLE_MASK = t"
  have "(t AND ARM64_TABLE_MASK) AND 0xFFF = 0" "(t AND ARM64_TABLE_MASK) AND NOT ARM64_TABLE_MASK = 0"
    by (simp_all add: ARM64_TABLE_MASK_def and.assoc)
  then show "table_address_valid t" by (simp add: t table_address_valid_def)
qed

lemma table_descriptor_fields:
  assumes "table_address_valid t"
  shows "table_descriptor t AND 3 = 3" "table_descriptor t AND ARM64_TABLE_MASK = t" "table_descriptor t AND DESC_VALID \<noteq> 0"
    "table_descriptor t AND (DESC_VALID OR DESC_TABLE_PAGE) = DESC_VALID OR DESC_TABLE_PAGE"
  using assms unfolding valid_masked
  by (simp_all add: table_descriptor_def desc_defs and.assoc bit.conj_disj_distrib2)

lemma user_page_descriptor_fields:
  "user_page_descriptor pa f AND 3 = 3" "user_page_descriptor pa f AND DESC_VALID \<noteq> 0"
  "user_page_descriptor pa f AND (DESC_VALID OR DESC_TABLE_PAGE) = DESC_VALID OR DESC_TABLE_PAGE"
  "user_page_descriptor pa f AND ARM64_TABLE_MASK = pa AND ARM64_TABLE_MASK"
  by (simp_all add: user_page_descriptor_def desc_defs Let_def and.assoc bit.conj_disj_distrib2)

end
