(* ===== verification/UserVM_Tables.thy ===== *)
theory UserVM_Tables
  imports UserVM Mmu_Correct
begin

text \<open>
  The tables of one user address space in memory against its inventories (\<open>arch/arm64/mmu/user_vm.c\<close>): what it
  means that the three levels of tables say exactly what the recorded mappings say, that the hardware walk then
  yields the recorded mapping of every user address, and how one write into one table changes that.
\<close>

subsection \<open>The hardware walk and the recorded mappings\<close>

text \<open>The three-level walk of the ARMv8 MMU with a 4 KiB granule and 39-bit addresses, for a page mapping:
  descriptors whose low bits are not \<open>11\<close> end the walk.\<close>

definition user_walk :: "bmem \<Rightarrow> u64 \<Rightarrow> u64 \<Rightarrow> u64 option" where
  "user_walk m root va =
     (let d1 = table_entry m root (l1_index va) in
      if d1 AND 3 \<noteq> 3 then None
      else let d2 = table_entry m (d1 AND ARM64_TABLE_MASK) (l2_index va) in
      if d2 AND 3 \<noteq> 3 then None
      else let d3 = table_entry m (d2 AND ARM64_TABLE_MASK) (l3_index va) in
      if d3 AND 3 \<noteq> 3 then None else Some d3)"

definition tables_of :: "arm64_user_vm \<Rightarrow> u64 list" where
  "tables_of vm = l1 vm # map l2_table (l2_tables vm) @ map l3_table (l3_tables vm)"

definition l3_key :: "user_vm_l3_table \<Rightarrow> u64 \<times> u64" where
  "l3_key t = (l3_l1 t, l3_l2 t)"

definition va_key :: "u64 \<Rightarrow> u64 \<times> u64" where
  "va_key va = (l1_index va, l2_index va)"

definition prot :: "u32 \<Rightarrow> u32" where
  "prot flags = flags AND (VMA_READ OR VMA_WRITE OR VMA_EXEC)"

definition mapping_desc :: "user_vm_mapping \<Rightarrow> u64" where
  "mapping_desc mp = user_page_descriptor (physical_address mp) (prot (mflags mp))"

definition user_va :: "u64 \<Rightarrow> bool" where
  "user_va va \<longleftrightarrow> page va \<and> unat va < 2 ^ 39"

text \<open>The records of an address space on their own.\<close>

definition mapping_ok :: "user_vm_mapping \<Rightarrow> bool" where
  "mapping_ok mp \<longleftrightarrow> user_va (virtual_address mp) \<and> physical_address mp \<noteq> 0 \<and>
     table_address_valid (physical_address mp) \<and> arm64_user_vm_flags_valid (mflags mp)"

definition records_ok :: "arm64_user_vm \<Rightarrow> bool" where
  "records_ok vm \<longleftrightarrow> distinct (tables_of vm) \<and> (\<forall>t \<in> set (tables_of vm). t \<noteq> 0 \<and> table_address_valid t) \<and>
     distinct (map l2_l1 (l2_tables vm)) \<and> (\<forall>t \<in> set (l2_tables vm). l2_l1 t < 512) \<and>
     distinct (map l3_key (l3_tables vm)) \<and>
     (\<forall>t \<in> set (l3_tables vm). l3_l1 t < 512 \<and> l3_l2 t < 512 \<and> l3_l1 t \<in> l2_l1 ` set (l2_tables vm)) \<and>
     distinct (map virtual_address (mappings vm)) \<and>
     (\<forall>mp \<in> set (mappings vm). mapping_ok mp \<and> va_key (virtual_address mp) \<in> l3_key ` set (l3_tables vm))"

text \<open>The translation tables in memory say exactly what the records say.\<close>

definition tables_ok :: "bmem \<Rightarrow> arm64_user_vm \<Rightarrow> bool" where
  "tables_ok m vm \<longleftrightarrow>
     (\<forall>t \<in> set (l2_tables vm). table_entry m (l1 vm) (l2_l1 t) = table_descriptor (l2_table t)) \<and>
     (\<forall>i < 512. i \<notin> l2_l1 ` set (l2_tables vm) \<longrightarrow> table_entry m (l1 vm) i AND 3 \<noteq> 3) \<and>
     (\<forall>u \<in> set (l2_tables vm). \<forall>t \<in> set (l3_tables vm). l3_l1 t = l2_l1 u \<longrightarrow>
        table_entry m (l2_table u) (l3_l2 t) = table_descriptor (l3_table t)) \<and>
     (\<forall>u \<in> set (l2_tables vm). \<forall>j < 512. (l2_l1 u, j) \<notin> l3_key ` set (l3_tables vm) \<longrightarrow>
        table_entry m (l2_table u) j = 0) \<and>
     (\<forall>t \<in> set (l3_tables vm). \<forall>mp \<in> set (mappings vm). va_key (virtual_address mp) = l3_key t \<longrightarrow>
        table_entry m (l3_table t) (l3_index (virtual_address mp)) = mapping_desc mp) \<and>
     (\<forall>t \<in> set (l3_tables vm). \<forall>k < 512.
        (\<forall>mp \<in> set (mappings vm). \<not> (va_key (virtual_address mp) = l3_key t \<and> l3_index (virtual_address mp) = k)) \<longrightarrow>
        table_entry m (l3_table t) k = 0)"

lemma tables_okD:
  assumes "tables_ok m vm"
  shows "\<And>t. t \<in> set (l2_tables vm) \<Longrightarrow> table_entry m (l1 vm) (l2_l1 t) = table_descriptor (l2_table t)"
    "\<And>i. i < 512 \<Longrightarrow> i \<notin> l2_l1 ` set (l2_tables vm) \<Longrightarrow> table_entry m (l1 vm) i AND 3 \<noteq> 3"
    "\<And>u t. u \<in> set (l2_tables vm) \<Longrightarrow> t \<in> set (l3_tables vm) \<Longrightarrow> l3_l1 t = l2_l1 u \<Longrightarrow>
       table_entry m (l2_table u) (l3_l2 t) = table_descriptor (l3_table t)"
    "\<And>u j. u \<in> set (l2_tables vm) \<Longrightarrow> j < 512 \<Longrightarrow> (l2_l1 u, j) \<notin> l3_key ` set (l3_tables vm) \<Longrightarrow>
       table_entry m (l2_table u) j = 0"
    "\<And>t mp. t \<in> set (l3_tables vm) \<Longrightarrow> mp \<in> set (mappings vm) \<Longrightarrow> va_key (virtual_address mp) = l3_key t \<Longrightarrow>
       table_entry m (l3_table t) (l3_index (virtual_address mp)) = mapping_desc mp"
    "\<And>t k. t \<in> set (l3_tables vm) \<Longrightarrow> k < 512 \<Longrightarrow>
       (\<And>mp. mp \<in> set (mappings vm) \<Longrightarrow> va_key (virtual_address mp) = l3_key t \<Longrightarrow> l3_index (virtual_address mp) \<noteq> k) \<Longrightarrow>
       table_entry m (l3_table t) k = 0"
  using assms unfolding tables_ok_def by blast+

lemma records_okD:
  assumes "records_ok vm"
  shows "distinct (tables_of vm)" "\<And>t. t \<in> set (tables_of vm) \<Longrightarrow> t \<noteq> 0 \<and> table_address_valid t"
    "distinct (map l2_l1 (l2_tables vm))" "\<And>t. t \<in> set (l2_tables vm) \<Longrightarrow> l2_l1 t < 512"
    "distinct (map l3_key (l3_tables vm))"
    "\<And>t. t \<in> set (l3_tables vm) \<Longrightarrow> l3_l1 t < 512 \<and> l3_l2 t < 512 \<and> l3_l1 t \<in> l2_l1 ` set (l2_tables vm)"
    "distinct (map virtual_address (mappings vm))" "\<And>mp. mp \<in> set (mappings vm) \<Longrightarrow> mapping_ok mp"
    "\<And>mp. mp \<in> set (mappings vm) \<Longrightarrow> va_key (virtual_address mp) \<in> l3_key ` set (l3_tables vm)"
  using assms unfolding records_ok_def by blast+

lemma va_index_inj:
  assumes "user_va a" "user_va b" "va_key a = va_key b" "l3_index a = l3_index b"
  shows "a = b"
proof (rule bit_word_eqI)
  fix n assume n: "n < LENGTH(64)"
  have low: "\<not> bit x n" if "user_va x" "n < 12" for x :: u64
  proof -
    have "take_bit 12 x = 0" using that(1) by (simp add: user_va_def page_mask take_bit_eq_mask mask_eq_exp_minus_1)
    then have "\<not> bit (take_bit 12 x) n" by simp
    then show ?thesis using that(2) by (simp add: bit_take_bit_iff)
  qed
  have high: "\<not> bit x n" if "user_va x" "39 \<le> n" for x :: u64
  proof -
    have "unat x < 2 ^ 39" using that(1) by (simp add: user_va_def)
    then have "take_bit 39 x = x" by (simp add: word_unat_eq_iff unsigned_take_bit_eq take_bit_nat_eq_self)
    then have "bit x n = bit (take_bit 39 x) n" by simp
    then show ?thesis using that(2) by (simp add: bit_take_bit_iff)
  qed
  have part: "bit x n = bit (take_bit 9 (drop_bit k x)) (n - k)" if "k \<le> n" "n < k + 9" for x :: u64 and k
    using that by (auto simp: bit_take_bit_iff bit_drop_bit_eq)
  consider "n < 12" | "12 \<le> n" "n < 21" | "21 \<le> n" "n < 30" | "30 \<le> n" "n < 39" | "39 \<le> n" by linarith
  then show "bit a n = bit b n"
  proof cases
    case 1 then show ?thesis using low assms(1,2) by blast
  next
    case 2 then show ?thesis using part[of 12] assms(4) by (simp add: l3_index_def and_1FF)
  next
    case 3 then show ?thesis using part[of 21] assms(3) by (simp add: va_key_def l2_index_def and_1FF)
  next
    case 4 then show ?thesis using part[of 30] assms(3) by (simp add: va_key_def l1_index_def and_1FF)
  next
    case 5 then show ?thesis using high assms(1,2) by blast
  qed
qed

lemma index_page_mask [simp]: "l1_index (va AND PAGE_MASK) = l1_index va" "l2_index (va AND PAGE_MASK) = l2_index va"
    "l3_index (va AND PAGE_MASK) = l3_index va"
proof -
  have "drop_bit k (va AND PAGE_MASK) = drop_bit k va" if "12 \<le> k" for k
  proof -
    have "va AND PAGE_MASK = va AND NOT (mask 12)" by (simp add: PAGE_MASK_def mask_eq_exp_minus_1)
    then show ?thesis using that by (intro bit_word_eqI) (auto simp: bit_simps dest: bit_imp_le_length)
  qed
  then show "l1_index (va AND PAGE_MASK) = l1_index va" "l2_index (va AND PAGE_MASK) = l2_index va"
    "l3_index (va AND PAGE_MASK) = l3_index va"
    by (simp_all add: l1_index_def l2_index_def l3_index_def)
qed

definition lookup_map :: "arm64_user_vm \<Rightarrow> u64 \<Rightarrow> user_vm_mapping option" where
  "lookup_map vm va = find (\<lambda>mp. virtual_address mp = va) (mappings vm)"

lemma lookup_map_Some:
  assumes "records_ok vm"
  shows "lookup_map vm va = Some mp \<longleftrightarrow> mp \<in> set (mappings vm) \<and> virtual_address mp = va"
proof -
  have d: "distinct (map virtual_address (mappings vm))" by (rule records_okD(7)[OF assms])
  have inj: "mp' = mp" if "mp \<in> set (mappings vm)" "mp' \<in> set (mappings vm)" "virtual_address mp = virtual_address mp'" for mp'
    using d that by (auto simp: distinct_map inj_on_def)
  have sel: "mp' \<in> set (mappings vm) \<and> virtual_address mp' = va" if "lookup_map vm va = Some mp'" for mp'
    using that by (auto simp: lookup_map_def find_Some_iff)
  show ?thesis
  proof
    assume r: "mp \<in> set (mappings vm) \<and> virtual_address mp = va"
    then have "lookup_map vm va \<noteq> None" by (auto simp: lookup_map_def find_None_iff)
    then obtain mp' where mp': "lookup_map vm va = Some mp'" by blast
    have "mp' = mp" using sel[OF mp'] r by (intro inj) auto
    then show "lookup_map vm va = Some mp" using mp' by blast
  qed (rule sel)
qed

lemma walk_agrees:
  assumes R: "records_ok vm" and T: "tables_ok m vm" and va: "user_va va"
  shows "user_walk m (l1 vm) va = map_option mapping_desc (lookup_map vm va)"
proof (cases "\<exists>t \<in> set (l3_tables vm). l3_key t = va_key va")
  case True
  then obtain t where t: "t \<in> set (l3_tables vm)" "l3_l1 t = l1_index va" "l3_l2 t = l2_index va"
    by (auto simp: l3_key_def va_key_def)
  obtain u where u: "u \<in> set (l2_tables vm)" "l2_l1 u = l3_l1 t" using records_okD(6)[OF R t(1)] by auto
  have valid: "table_address_valid (l2_table u)" "table_address_valid (l3_table t)"
    using records_okD(2)[OF R] t(1) u(1) by (auto simp: tables_of_def)
  have e: "table_entry m (l1 vm) (l1_index va) = table_descriptor (l2_table u)"
    "table_entry m (l2_table u) (l2_index va) = table_descriptor (l3_table t)"
    using tables_okD(1)[OF T u(1)] tables_okD(3)[OF T u(1) t(1)] u(2) t by auto
  have w: "user_walk m (l1 vm) va = (let d = table_entry m (l3_table t) (l3_index va) in if d AND 3 \<noteq> 3 then None else Some d)"
    by (simp add: user_walk_def e table_descriptor_fields[OF valid(1)] table_descriptor_fields[OF valid(2)])
  show ?thesis
  proof (cases "lookup_map vm va")
    case None
    have "table_entry m (l3_table t) (l3_index va) = 0"
    proof (rule tables_okD(6)[OF T t(1)])
      fix mp assume mp: "mp \<in> set (mappings vm)" "va_key (virtual_address mp) = l3_key t"
      have "virtual_address mp \<noteq> va" using None mp(1) lookup_map_Some[OF R, of va mp] by auto
      then show "l3_index (virtual_address mp) \<noteq> l3_index va"
        using va_index_inj[of "virtual_address mp" va] records_okD(8)[OF R mp(1)] va mp(2) t
        by (auto simp: mapping_ok_def va_key_def l3_key_def)
    qed simp
    then show ?thesis using w None by simp
  next
    case (Some mp)
    then have mp: "mp \<in> set (mappings vm)" "virtual_address mp = va" using lookup_map_Some[OF R] by auto
    then have "table_entry m (l3_table t) (l3_index va) = mapping_desc mp"
      using tables_okD(5)[OF T t(1) mp(1)] t by (simp add: va_key_def l3_key_def)
    then show ?thesis using w Some user_page_descriptor_fields(1) by (simp add: mapping_desc_def)
  qed
next
  case False
  then have none: "lookup_map vm va = None"
    using records_okD(9)[OF R] lookup_map_Some[OF R, of va] by (cases "lookup_map vm va") force+
  show ?thesis
  proof (cases "l1_index va \<in> l2_l1 ` set (l2_tables vm)")
    case True
    then obtain u where u: "u \<in> set (l2_tables vm)" "l2_l1 u = l1_index va" by auto
    have valid: "table_address_valid (l2_table u)" using records_okD(2)[OF R] u(1) by (auto simp: tables_of_def)
    have "va_key va \<notin> l3_key ` set (l3_tables vm)" using False by (metis imageE)
    then have "table_entry m (l2_table u) (l2_index va) = 0"
      using tables_okD(4)[OF T u(1), of "l2_index va"] u(2) by (simp add: va_key_def)
    moreover have "table_entry m (l1 vm) (l1_index va) = table_descriptor (l2_table u)"
      using tables_okD(1)[OF T u(1)] u(2) by simp
    ultimately show ?thesis using none by (simp add: user_walk_def table_descriptor_fields[OF valid])
  next
    case F: False
    then show ?thesis using none tables_okD(2)[OF T _ F] by (simp add: user_walk_def)
  qed
qed

subsection \<open>Changing one table\<close>

definition vm_ok :: "bmem \<Rightarrow> arm64_user_vm \<Rightarrow> bool" where
  "vm_ok m vm \<longleftrightarrow> records_ok vm \<and> tables_ok m vm"

lemma table_ne:
  assumes "records_ok vm"
  shows "u \<in> set (l2_tables vm) \<Longrightarrow> l1 vm \<noteq> l2_table u" "t \<in> set (l3_tables vm) \<Longrightarrow> l1 vm \<noteq> l3_table t"
    "u \<in> set (l2_tables vm) \<Longrightarrow> t \<in> set (l3_tables vm) \<Longrightarrow> l2_table u \<noteq> l3_table t"
  using records_okD(1)[OF assms] by (auto simp: tables_of_def)

lemma table_inj:
  assumes "records_ok vm"
  shows "u \<in> set (l2_tables vm) \<Longrightarrow> u' \<in> set (l2_tables vm) \<Longrightarrow> l2_table u = l2_table u' \<Longrightarrow> u = u'"
    "u \<in> set (l2_tables vm) \<Longrightarrow> u' \<in> set (l2_tables vm) \<Longrightarrow> l2_l1 u = l2_l1 u' \<Longrightarrow> u = u'"
    "t \<in> set (l3_tables vm) \<Longrightarrow> t' \<in> set (l3_tables vm) \<Longrightarrow> l3_table t = l3_table t' \<Longrightarrow> t = t'"
    "t \<in> set (l3_tables vm) \<Longrightarrow> t' \<in> set (l3_tables vm) \<Longrightarrow> l3_key t = l3_key t' \<Longrightarrow> t = t'"
  using records_okD(1,3,5)[OF assms] by (auto simp: tables_of_def distinct_map inj_on_def)

lemma table_page:
  assumes "records_ok vm"
  shows "page (l1 vm)" "u \<in> set (l2_tables vm) \<Longrightarrow> page (l2_table u)" "t \<in> set (l3_tables vm) \<Longrightarrow> page (l3_table t)"
  using records_okD(2)[OF assms] valid_page by (auto simp: tables_of_def)

lemma tables_ok_cong:
  assumes R: "records_ok vm" and T: "tables_ok m vm"
    and eq: "\<And>t i. t \<in> set (tables_of vm) \<Longrightarrow> i < 512 \<Longrightarrow> table_entry m' t i = table_entry m t i"
  shows "tables_ok m' vm"
proof -
  have "table_entry m' (l1 vm) i = table_entry m (l1 vm) i" if "i < 512" for i
    using that by (intro eq) (simp_all add: tables_of_def)
  moreover have "table_entry m' (l2_table u) i = table_entry m (l2_table u) i" if "i < 512" "u \<in> set (l2_tables vm)" for i u
    using that by (intro eq) (simp_all add: tables_of_def)
  moreover have "table_entry m' (l3_table t) i = table_entry m (l3_table t) i" if "i < 512" "t \<in> set (l3_tables vm)" for i t
    using that by (intro eq) (simp_all add: tables_of_def)
  ultimately show ?thesis
    using T records_okD(4,6)[OF R] unfolding tables_ok_def by simp
qed

lemma vm_ok_outside:
  assumes "vm_ok m vm" "\<And>t x. t \<in> set (tables_of vm) \<Longrightarrow> in_page t x \<Longrightarrow> m' x = m x"
  shows "vm_ok m' vm"
proof -
  have R: "records_ok vm" and T: "tables_ok m vm" using assms(1) by (auto simp: vm_ok_def)
  have "table_entry m' t i = table_entry m t i" if "t \<in> set (tables_of vm)" "i < 512" for t i
    using assms(2)[OF that(1)] records_okD(2)[OF R that(1)] that(2) by (intro entry_cong) (auto intro: valid_page)
  then show ?thesis using tables_ok_cong[OF R T] R by (simp add: vm_ok_def)
qed

lemma add_mapping:
  assumes ok: "vm_ok m vm" and t: "t \<in> set (l3_tables vm)" "l3_key t = va_key (virtual_address mp)"
    and mp: "mapping_ok mp" "\<And>q. q \<in> set (mappings vm) \<Longrightarrow> virtual_address q \<noteq> virtual_address mp"
    and ms: "set ms = insert mp (set (mappings vm))" "distinct (map virtual_address ms)"
  shows "vm_ok (set_entry m (l3_table t) (l3_index (virtual_address mp)) (mapping_desc mp)) (vm\<lparr>mappings := ms\<rparr>)"
proof -
  have R: "records_ok vm" and T: "tables_ok m vm" using ok by (auto simp: vm_ok_def)
  let ?k = "l3_index (virtual_address mp)" and ?vm = "vm\<lparr>mappings := ms\<rparr>"
  let ?m = "set_entry m (l3_table t) ?k (mapping_desc mp)"
  note pg = table_page[OF R] and ne = table_ne[OF R] and inj = table_inj[OF R] and TD = tables_okD[OF T]
  have "va_key (virtual_address mp) \<in> l3_key ` set (l3_tables vm)" using t by (metis imageI)
  then have R': "records_ok ?vm"
    using R mp(1) ms unfolding records_ok_def by (auto simp: tables_of_def)
  have e1: "table_entry ?m (l1 vm) i = table_entry m (l1 vm) i" if "i < 512" for i
    using that pg t(1) ne(2)[OF t(1)] by (simp add: entry_set)
  have e2: "table_entry ?m (l2_table u) i = table_entry m (l2_table u) i" if "i < 512" "u \<in> set (l2_tables vm)" for i u
    using that pg t(1) ne(3)[OF that(2) t(1)] by (simp add: entry_set)
  have e3: "table_entry ?m (l3_table w) i = (if w = t \<and> i = ?k then mapping_desc mp else table_entry m (l3_table w) i)"
    if "i < 512" "w \<in> set (l3_tables vm)" for i w
    using that pg t(1) inj(3)[OF that(2) t(1)] by (auto simp: entry_set)
  have diff: "l3_index (virtual_address q) \<noteq> ?k" if "q \<in> set (mappings vm)" "va_key (virtual_address q) = l3_key t" for q
    using va_index_inj[of "virtual_address q" "virtual_address mp"] records_okD(8)[OF R that(1)] mp that t(2)
    by (auto simp: mapping_ok_def)
  have sel: "l1 ?vm = l1 vm" "l2_tables ?vm = l2_tables vm" "l3_tables ?vm = l3_tables vm" "mappings ?vm = ms" by simp_all
  have "tables_ok ?m ?vm"
    unfolding tables_ok_def sel ms(1)
  proof (intro conjI ballI allI impI)
    fix w q assume w: "w \<in> set (l3_tables vm)" "q \<in> insert mp (set (mappings vm))" "va_key (virtual_address q) = l3_key w"
    show "table_entry ?m (l3_table w) (l3_index (virtual_address q)) = mapping_desc q"
    proof (cases "q = mp")
      case True
      then have "w = t" using w t by (intro inj(4)) auto
      then show ?thesis using True e3[OF _ w(1)] by simp
    next
      case False
      then have q: "q \<in> set (mappings vm)" using w(2) by simp
      then show ?thesis using e3[OF _ w(1)] TD(5)[OF w(1) q w(3)] diff[OF q] w(3) by auto
    qed
  next
    fix w k assume w: "w \<in> set (l3_tables vm)" "k < 512"
      "\<forall>q \<in> insert mp (set (mappings vm)). \<not> (va_key (virtual_address q) = l3_key w \<and> l3_index (virtual_address q) = k)"
    then show "table_entry ?m (l3_table w) k = 0"
      using e3[OF w(2,1)] TD(6)[OF w(1,2)] t(2) by auto
  qed (use TD(1-4) records_okD(4,6)[OF R] e1 e2 in auto)
  then show ?thesis using R' by (simp add: vm_ok_def)
qed

lemma del_mapping:
  assumes ok: "vm_ok m vm" and t: "t \<in> set (l3_tables vm)" "l3_key t = va_key (virtual_address mp)"
    and mp: "mp \<in> set (mappings vm)" and ms: "set ms = set (mappings vm) - {mp}" "distinct (map virtual_address ms)"
  shows "vm_ok (set_entry m (l3_table t) (l3_index (virtual_address mp)) 0) (vm\<lparr>mappings := ms\<rparr>)"
proof -
  have R: "records_ok vm" and T: "tables_ok m vm" using ok by (auto simp: vm_ok_def)
  let ?k = "l3_index (virtual_address mp)" and ?vm = "vm\<lparr>mappings := ms\<rparr>"
  let ?m = "set_entry m (l3_table t) ?k 0"
  note pg = table_page[OF R] and ne = table_ne[OF R] and inj = table_inj[OF R] and TD = tables_okD[OF T]
  have R': "records_ok ?vm" using R ms unfolding records_ok_def by (auto simp: tables_of_def)
  have e1: "table_entry ?m (l1 vm) i = table_entry m (l1 vm) i" if "i < 512" for i
    using that pg t(1) ne(2)[OF t(1)] by (simp add: entry_set)
  have e2: "table_entry ?m (l2_table u) i = table_entry m (l2_table u) i" if "i < 512" "u \<in> set (l2_tables vm)" for i u
    using that pg t(1) ne(3)[OF that(2) t(1)] by (simp add: entry_set)
  have e3: "table_entry ?m (l3_table w) i = (if w = t \<and> i = ?k then 0 else table_entry m (l3_table w) i)"
    if "i < 512" "w \<in> set (l3_tables vm)" for i w
    using that pg t(1) inj(3)[OF that(2) t(1)] by (auto simp: entry_set)
  have diff: "l3_index (virtual_address q) \<noteq> ?k"
    if "q \<in> set (mappings vm)" "q \<noteq> mp" "va_key (virtual_address q) = l3_key t" for q
  proof -
    have "virtual_address q \<noteq> virtual_address mp"
      using records_okD(7)[OF R] that(1,2) mp by (auto simp: distinct_map inj_on_def)
    then show ?thesis
      using va_index_inj[of "virtual_address q" "virtual_address mp"] records_okD(8)[OF R] mp that t(2)
      by (auto simp: mapping_ok_def)
  qed
  have sel: "l1 ?vm = l1 vm" "l2_tables ?vm = l2_tables vm" "l3_tables ?vm = l3_tables vm" "mappings ?vm = ms" by simp_all
  have "tables_ok ?m ?vm"
    unfolding tables_ok_def sel ms(1)
  proof (intro conjI ballI allI impI)
    fix w q assume w: "w \<in> set (l3_tables vm)" "q \<in> set (mappings vm) - {mp}" "va_key (virtual_address q) = l3_key w"
    then have q: "q \<in> set (mappings vm)" "q \<noteq> mp" by auto
    show "table_entry ?m (l3_table w) (l3_index (virtual_address q)) = mapping_desc q"
      using e3[OF _ w(1)] TD(5)[OF w(1) q(1) w(3)] diff[OF q] w(3) by auto
  next
    fix w k assume w: "w \<in> set (l3_tables vm)" "k < 512"
      "\<forall>q \<in> set (mappings vm) - {mp}. \<not> (va_key (virtual_address q) = l3_key w \<and> l3_index (virtual_address q) = k)"
    show "table_entry ?m (l3_table w) k = 0"
    proof (cases "w = t \<and> k = ?k")
      case False
      have "l3_index (virtual_address q) \<noteq> k" if q: "q \<in> set (mappings vm)" "va_key (virtual_address q) = l3_key w" for q
      proof (cases "q = mp")
        case True
        then show ?thesis using inj(4)[OF w(1) t(1)] t(2) q(2) False by auto
      qed (use w(3) q in auto)
      then show ?thesis using e3[OF w(2,1)] TD(6)[OF w(1,2)] False by auto
    qed (use e3[OF w(2,1)] in simp)
  qed (use TD(1-4) records_okD(4,6)[OF R] e1 e2 in auto)
  then show ?thesis using R' by (simp add: vm_ok_def)
qed

lemma add_l3:
  assumes ok: "vm_ok m vm" and u: "u \<in> set (l2_tables vm)" "l2_l1 u = i" and j: "j < 512"
    and new: "(i, j) \<notin> l3_key ` set (l3_tables vm)" and p: "table_address_valid p" "p \<noteq> 0" "p \<notin> set (tables_of vm)"
  shows "vm_ok (set_entry (clear_table m p) (l2_table u) j (table_descriptor p))
    (vm\<lparr>l3_tables := l3_tables vm @ [\<lparr>l3_l1 = i, l3_l2 = j, l3_table = p\<rparr>]\<rparr>)"
proof -
  have R: "records_ok vm" and T: "tables_ok m vm" using ok by (auto simp: vm_ok_def)
  let ?n = "\<lparr>l3_l1 = i, l3_l2 = j, l3_table = p\<rparr>"
  let ?vm = "vm\<lparr>l3_tables := l3_tables vm @ [?n]\<rparr>" and ?m = "set_entry (clear_table m p) (l2_table u) j (table_descriptor p)"
  note pg = table_page[OF R] and inj = table_inj[OF R] and TD = tables_okD[OF T]
  have pp: "page p" using p(1) by (rule valid_page)
  have pn: "p \<noteq> l1 vm" "\<And>w. w \<in> set (l2_tables vm) \<Longrightarrow> l2_table w \<noteq> p" "\<And>w. w \<in> set (l3_tables vm) \<Longrightarrow> l3_table w \<noteq> p"
    using p(3) by (auto simp: tables_of_def)
  have i: "i < 512" "i \<in> l2_l1 ` set (l2_tables vm)" using records_okD(4)[OF R u(1)] u by auto
  have R': "records_ok ?vm"
    using R p new j i unfolding records_ok_def by (auto simp: tables_of_def l3_key_def)
  have e1: "table_entry ?m (l1 vm) k = table_entry m (l1 vm) k" if "k < 512" for k
    using that pg u(1) pp pn table_ne(1)[OF R u(1)] j by (simp add: entry_set entry_clear)
  have e2: "table_entry ?m (l2_table w) k = (if w = u \<and> k = j then table_descriptor p else table_entry m (l2_table w) k)"
    if "k < 512" "w \<in> set (l2_tables vm)" for k w
    using that pg u(1) pp pn inj(1)[OF that(2) u(1)] j by (auto simp: entry_set entry_clear)
  have e3: "table_entry ?m (l3_table w) k = table_entry m (l3_table w) k" if "k < 512" "w \<in> set (l3_tables vm)" for k w
    using that pg u(1) pp pn table_ne(3)[OF R u(1) that(2)] j by (simp add: entry_set entry_clear)
  have e4: "table_entry ?m p k = 0" if "k < 512" for k
    using that pg u(1) pp pn(2)[OF u(1)] j by (simp add: entry_set entry_clear)
  have key: "va_key (virtual_address q) \<noteq> (i, j)" if "q \<in> set (mappings vm)" for q
    using records_okD(9)[OF R that] new by auto
  have sel: "l1 ?vm = l1 vm" "l2_tables ?vm = l2_tables vm" "l3_tables ?vm = l3_tables vm @ [?n]" "mappings ?vm = mappings vm" by simp_all
  have "tables_ok ?m ?vm"
    unfolding tables_ok_def sel
  proof (intro conjI ballI allI impI)
    fix w t assume w: "w \<in> set (l2_tables vm)" "t \<in> set (l3_tables vm @ [?n])" "l3_l1 t = l2_l1 w"
    show "table_entry ?m (l2_table w) (l3_l2 t) = table_descriptor (l3_table t)"
    proof (cases "t = ?n")
      case True
      then have "w = u" using inj(2)[OF w(1) u(1)] w(3) u(2) by simp
      then show ?thesis using True e2[OF j w(1)] by simp
    next
      case False
      then have t: "t \<in> set (l3_tables vm)" using w(2) by auto
      then have "l3_key t \<noteq> (i, j)" using new by force
      then show ?thesis using e2[OF _ w(1)] TD(3)[OF w(1) t w(3)] records_okD(6)[OF R t] w(3) u(2) by (auto simp: l3_key_def)
    qed
  next
    fix w k assume w: "w \<in> set (l2_tables vm)" "k < 512" "(l2_l1 w, k) \<notin> l3_key ` set (l3_tables vm @ [?n])"
    then have "(l2_l1 w, k) \<notin> l3_key ` set (l3_tables vm)" "(l2_l1 w, k) \<noteq> (i, j)" by (auto simp: l3_key_def)
    then show "table_entry ?m (l2_table w) k = 0" using e2[OF w(2,1)] TD(4)[OF w(1,2)] u(2) by auto
  next
    fix t q assume t: "t \<in> set (l3_tables vm @ [?n])" "q \<in> set (mappings vm)" "va_key (virtual_address q) = l3_key t"
    then have "t \<in> set (l3_tables vm)" using key[OF t(2)] by (auto simp: l3_key_def)
    then show "table_entry ?m (l3_table t) (l3_index (virtual_address q)) = mapping_desc q"
      using e3 TD(5)[OF _ t(2,3)] by simp
  next
    fix t k assume t: "t \<in> set (l3_tables vm @ [?n])" "k < 512"
      "\<forall>q \<in> set (mappings vm). \<not> (va_key (virtual_address q) = l3_key t \<and> l3_index (virtual_address q) = k)"
    show "table_entry ?m (l3_table t) k = 0"
    proof (cases "t = ?n")
      case False
      then have "t \<in> set (l3_tables vm)" using t(1) by auto
      then show ?thesis using e3[OF t(2)] TD(6)[OF _ t(2)] t(3) by auto
    qed (use e4[OF t(2)] in simp)
  qed (use TD(1,2) records_okD(4)[OF R] e1 in auto)
  then show ?thesis using R' by (simp add: vm_ok_def)
qed

lemma add_l2:
  assumes ok: "vm_ok m vm" and i: "i < 512" "i \<notin> l2_l1 ` set (l2_tables vm)"
    and p: "table_address_valid p" "p \<noteq> 0" "p \<notin> set (tables_of vm)"
  shows "vm_ok (set_entry (clear_table m p) (l1 vm) i (table_descriptor p))
    (vm\<lparr>l2_tables := l2_tables vm @ [\<lparr>l2_l1 = i, l2_table = p\<rparr>]\<rparr>)"
proof -
  have R: "records_ok vm" and T: "tables_ok m vm" using ok by (auto simp: vm_ok_def)
  let ?n = "\<lparr>l2_l1 = i, l2_table = p\<rparr>"
  let ?vm = "vm\<lparr>l2_tables := l2_tables vm @ [?n]\<rparr>" and ?m = "set_entry (clear_table m p) (l1 vm) i (table_descriptor p)"
  note pg = table_page[OF R] and TD = tables_okD[OF T]
  have pp: "page p" using p(1) by (rule valid_page)
  have pn: "p \<noteq> l1 vm" "\<And>w. w \<in> set (l2_tables vm) \<Longrightarrow> l2_table w \<noteq> p" "\<And>w. w \<in> set (l3_tables vm) \<Longrightarrow> l3_table w \<noteq> p"
    using p(3) by (auto simp: tables_of_def)
  have R': "records_ok ?vm"
    using R p i unfolding records_ok_def by (auto simp: tables_of_def)
  have e1: "table_entry ?m (l1 vm) k = (if k = i then table_descriptor p else table_entry m (l1 vm) k)" if "k < 512" for k
    using that pg pp pn i by (auto simp: entry_set entry_clear)
  have e2: "table_entry ?m (l2_table w) k = table_entry m (l2_table w) k" if "k < 512" "w \<in> set (l2_tables vm)" for k w
    using that pg pp pn table_ne(1)[OF R that(2)] i by (simp add: entry_set entry_clear)
  have e3: "table_entry ?m (l3_table w) k = table_entry m (l3_table w) k" if "k < 512" "w \<in> set (l3_tables vm)" for k w
    using that pg pp pn table_ne(2)[OF R that(2)] i by (simp add: entry_set entry_clear)
  have e4: "table_entry ?m p k = 0" if "k < 512" for k
    using that pg pp pn(1) i by (simp add: entry_set entry_clear)
  have l3: "l3_l1 t \<noteq> i" if "t \<in> set (l3_tables vm)" for t using records_okD(6)[OF R that] i(2) by auto
  have sel: "l1 ?vm = l1 vm" "l2_tables ?vm = l2_tables vm @ [?n]" "l3_tables ?vm = l3_tables vm" "mappings ?vm = mappings vm" by simp_all
  have "tables_ok ?m ?vm"
    unfolding tables_ok_def sel
  proof (intro conjI ballI allI impI)
    fix t assume "t \<in> set (l2_tables vm @ [?n])"
    then show "table_entry ?m (l1 vm) (l2_l1 t) = table_descriptor (l2_table t)"
      using e1 i TD(1) records_okD(4)[OF R] by (cases "t = ?n") auto
  next
    fix k :: u64 assume "k < 512" "k \<notin> l2_l1 ` set (l2_tables vm @ [?n])"
    then show "table_entry ?m (l1 vm) k AND 3 \<noteq> 3" using e1[of k] TD(2)[of k] by simp
  next
    fix u t assume u: "u \<in> set (l2_tables vm @ [?n])" "t \<in> set (l3_tables vm)" "l3_l1 t = l2_l1 u"
    then have "u \<in> set (l2_tables vm)" using l3[OF u(2)] by auto
    then show "table_entry ?m (l2_table u) (l3_l2 t) = table_descriptor (l3_table t)"
      using e2 TD(3)[OF _ u(2,3)] records_okD(6)[OF R u(2)] by simp
  next
    fix u j assume u: "u \<in> set (l2_tables vm @ [?n])" "j < 512" "(l2_l1 u, j) \<notin> l3_key ` set (l3_tables vm)"
    then show "table_entry ?m (l2_table u) j = 0"
      using e2[OF u(2)] e4[OF u(2)] TD(4)[OF _ u(2,3)] by (cases "u = ?n") auto
  next
    fix t q assume t: "t \<in> set (l3_tables vm)" "q \<in> set (mappings vm)" "va_key (virtual_address q) = l3_key t"
    then show "table_entry ?m (l3_table t) (l3_index (virtual_address q)) = mapping_desc q"
      using e3[OF _ t(1)] TD(5)[OF t] by simp
  next
    fix t k assume t: "t \<in> set (l3_tables vm)" "k < 512"
      "\<forall>q \<in> set (mappings vm). \<not> (va_key (virtual_address q) = l3_key t \<and> l3_index (virtual_address q) = k)"
    then show "table_entry ?m (l3_table t) k = 0" using e3[OF t(2,1)] TD(6)[OF t(1,2)] by auto
  qed
  then show ?thesis using R' by (simp add: vm_ok_def)
qed

lemma del_l3:
  assumes ok: "vm_ok m vm" and t: "t \<in> set (l3_tables vm)" and u: "u \<in> set (l2_tables vm)" "l2_l1 u = l3_l1 t"
    and free: "\<And>q. q \<in> set (mappings vm) \<Longrightarrow> va_key (virtual_address q) \<noteq> l3_key t"
    and ts: "set ts = set (l3_tables vm) - {t}" "distinct (map l3_key ts)" "distinct (map l3_table ts)"
  shows "vm_ok (set_entry m (l2_table u) (l3_l2 t) 0) (vm\<lparr>l3_tables := ts\<rparr>)"
proof -
  have R: "records_ok vm" and T: "tables_ok m vm" using ok by (auto simp: vm_ok_def)
  let ?vm = "vm\<lparr>l3_tables := ts\<rparr>" and ?m = "set_entry m (l2_table u) (l3_l2 t) 0"
  note pg = table_page[OF R] and inj = table_inj[OF R] and TD = tables_okD[OF T]
  have j: "l3_l2 t < 512" using records_okD(6)[OF R t] by simp
  have keys: "l3_key ` set ts = l3_key ` set (l3_tables vm) - {l3_key t}"
    using ts(1) inj(4)[OF _ t] by auto
  have "distinct (tables_of ?vm)" using records_okD(1)[OF R] ts(1,3) by (auto simp: tables_of_def)
  then have R': "records_ok ?vm"
    using R ts(1,2) free keys unfolding records_ok_def by (auto simp: tables_of_def)
  have e1: "table_entry ?m (l1 vm) k = table_entry m (l1 vm) k" if "k < 512" for k
    using that pg u(1) table_ne(1)[OF R u(1)] j by (simp add: entry_set)
  have e2: "table_entry ?m (l2_table w) k = (if w = u \<and> k = l3_l2 t then 0 else table_entry m (l2_table w) k)"
    if "k < 512" "w \<in> set (l2_tables vm)" for k w
    using that pg u(1) inj(1)[OF that(2) u(1)] j by (auto simp: entry_set)
  have e3: "table_entry ?m (l3_table w) k = table_entry m (l3_table w) k" if "k < 512" "w \<in> set (l3_tables vm)" for k w
    using that pg u(1) table_ne(3)[OF R u(1) that(2)] j by (simp add: entry_set)
  have sel: "l1 ?vm = l1 vm" "l2_tables ?vm = l2_tables vm" "l3_tables ?vm = ts" "mappings ?vm = mappings vm" by simp_all
  have "tables_ok ?m ?vm"
    unfolding tables_ok_def sel keys unfolding ts(1)
  proof (intro conjI ballI allI impI)
    fix w v assume w: "w \<in> set (l2_tables vm)" "v \<in> set (l3_tables vm) - {t}" "l3_l1 v = l2_l1 w"
    then have v: "v \<in> set (l3_tables vm)" "v \<noteq> t" by auto
    have "\<not> (w = u \<and> l3_l2 v = l3_l2 t)" using inj(4)[OF v(1) t] v(2) w(3) u(2) by (auto simp: l3_key_def)
    then show "table_entry ?m (l2_table w) (l3_l2 v) = table_descriptor (l3_table v)"
      using e2[OF _ w(1), of "l3_l2 v"] TD(3)[OF w(1) v(1) w(3)] records_okD(6)[OF R v(1)] by auto
  next
    fix w k assume w: "w \<in> set (l2_tables vm)" "k < 512" "(l2_l1 w, k) \<notin> l3_key ` set (l3_tables vm) - {l3_key t}"
    show "table_entry ?m (l2_table w) k = 0"
    proof (cases "w = u \<and> k = l3_l2 t")
      case False
      then have "(l2_l1 w, k) \<noteq> l3_key t" using inj(2)[OF w(1) u(1)] u(2) by (auto simp: l3_key_def)
      then show ?thesis using False w e2[OF w(2,1)] TD(4)[OF w(1,2)] by auto
    qed (use e2[OF w(2,1)] in simp)
  next
    fix v q assume v: "v \<in> set (l3_tables vm) - {t}" "q \<in> set (mappings vm)" "va_key (virtual_address q) = l3_key v"
    then show "table_entry ?m (l3_table v) (l3_index (virtual_address q)) = mapping_desc q"
      using e3 TD(5)[OF _ v(2,3)] by simp
  next
    fix v k assume v: "v \<in> set (l3_tables vm) - {t}" "k < 512"
      "\<forall>q \<in> set (mappings vm). \<not> (va_key (virtual_address q) = l3_key v \<and> l3_index (virtual_address q) = k)"
    then show "table_entry ?m (l3_table v) k = 0" using e3[OF v(2)] TD(6)[OF _ v(2)] by auto
  qed (use TD(1,2) records_okD(4)[OF R] e1 in auto)
  then show ?thesis using R' by (simp add: vm_ok_def)
qed

lemma del_l2:
  assumes ok: "vm_ok m vm" and u: "u \<in> set (l2_tables vm)"
    and free: "\<And>t. t \<in> set (l3_tables vm) \<Longrightarrow> l3_l1 t \<noteq> l2_l1 u"
    and us: "set us = set (l2_tables vm) - {u}" "distinct (map l2_l1 us)" "distinct (map l2_table us)"
  shows "vm_ok (set_entry m (l1 vm) (l2_l1 u) 0) (vm\<lparr>l2_tables := us\<rparr>)"
proof -
  have R: "records_ok vm" and T: "tables_ok m vm" using ok by (auto simp: vm_ok_def)
  let ?vm = "vm\<lparr>l2_tables := us\<rparr>" and ?m = "set_entry m (l1 vm) (l2_l1 u) 0"
  note pg = table_page[OF R] and inj = table_inj[OF R] and TD = tables_okD[OF T]
  have i: "l2_l1 u < 512" using records_okD(4)[OF R u] .
  have keys: "l2_l1 ` set us = l2_l1 ` set (l2_tables vm) - {l2_l1 u}" using us(1) inj(2)[OF _ u] by auto
  have "distinct (tables_of ?vm)" using records_okD(1)[OF R] us(1,3) by (auto simp: tables_of_def)
  then have R': "records_ok ?vm"
    using R us(1,2) free keys unfolding records_ok_def by (auto simp: tables_of_def)
  have e1: "table_entry ?m (l1 vm) k = (if k = l2_l1 u then 0 else table_entry m (l1 vm) k)" if "k < 512" for k
    using that pg i by (auto simp: entry_set)
  have e2: "table_entry ?m (l2_table w) k = table_entry m (l2_table w) k" if "k < 512" "w \<in> set (l2_tables vm)" for k w
    using that pg table_ne(1)[OF R that(2)] i by (simp add: entry_set)
  have e3: "table_entry ?m (l3_table w) k = table_entry m (l3_table w) k" if "k < 512" "w \<in> set (l3_tables vm)" for k w
    using that pg table_ne(2)[OF R that(2)] i by (simp add: entry_set)
  have sel: "l1 ?vm = l1 vm" "l2_tables ?vm = us" "l3_tables ?vm = l3_tables vm" "mappings ?vm = mappings vm" by simp_all
  have "tables_ok ?m ?vm"
    unfolding tables_ok_def sel keys unfolding us(1)
  proof (intro conjI ballI allI impI)
    fix w assume w: "w \<in> set (l2_tables vm) - {u}"
    then have "l2_l1 w \<noteq> l2_l1 u" using inj(2)[OF _ u] by auto
    then show "table_entry ?m (l1 vm) (l2_l1 w) = table_descriptor (l2_table w)"
      using e1 TD(1) records_okD(4)[OF R] w by simp
  next
    fix k :: u64 assume "k < 512" "k \<notin> l2_l1 ` set (l2_tables vm) - {l2_l1 u}"
    then show "table_entry ?m (l1 vm) k AND 3 \<noteq> 3" using e1[of k] TD(2)[of k] by auto
  next
    fix w t assume w: "w \<in> set (l2_tables vm) - {u}" "t \<in> set (l3_tables vm)" "l3_l1 t = l2_l1 w"
    then show "table_entry ?m (l2_table w) (l3_l2 t) = table_descriptor (l3_table t)"
      using e2 TD(3)[OF _ w(2,3)] records_okD(6)[OF R w(2)] by simp
  next
    fix w k assume w: "w \<in> set (l2_tables vm) - {u}" "k < 512" "(l2_l1 w, k) \<notin> l3_key ` set (l3_tables vm)"
    then show "table_entry ?m (l2_table w) k = 0" using e2[OF w(2)] TD(4)[OF _ w(2,3)] by simp
  next
    fix t q assume t: "t \<in> set (l3_tables vm)" "q \<in> set (mappings vm)" "va_key (virtual_address q) = l3_key t"
    then show "table_entry ?m (l3_table t) (l3_index (virtual_address q)) = mapping_desc q"
      using e3[OF _ t(1)] TD(5)[OF t] by simp
  next
    fix t k assume t: "t \<in> set (l3_tables vm)" "k < 512"
      "\<forall>q \<in> set (mappings vm). \<not> (va_key (virtual_address q) = l3_key t \<and> l3_index (virtual_address q) = k)"
    then show "table_entry ?m (l3_table t) k = 0" using e3[OF t(2,1)] TD(6)[OF t(1,2)] by auto
  qed
  then show ?thesis using R' by (simp add: vm_ok_def)
qed

end
