(* ===== verification/UserVM_Steps.thy ===== *)
theory UserVM_Steps
  imports UserVM_Tables KHeap_Correct PhysMem_Correct "HOL-Library.Multiset"
begin

text \<open>
  The invariant of an address space together with the page allocator, the kernel heap and the TLBs, and the
  helpers of \<open>user_vm.c\<close> as steps that keep it: growing an inventory, installing a table, reclaiming empty tables.
\<close>

subsection \<open>Heap blocks of an address space\<close>

definition heap_set :: "kheap \<Rightarrow> block set \<Rightarrow> bool" where
  "heap_set h S \<longleftrightarrow> (\<exists>L. set L = S \<and> kheap_live h L)"

lemma heap_set_alloc:
  assumes "heap_set h S" "unat n + 32 \<le> 2 ^ 64"
  shows "kmalloc h n = Some (h, 0) \<or>
    (\<exists>h' p. kmalloc h n = Some (h', p) \<and> p \<noteq> 0 \<and> p \<notin> fst ` S \<and> heap_set h' (insert (p, n) S))"
proof -
  obtain L where L: "set L = S" "kheap_live h L" using assms(1) by (auto simp: heap_set_def)
  have "p \<notin> fst ` S" if "kheap_live h' ((p, n) # L)" for h' p
    using that L(1) by (auto simp: kheap_live_def)
  then show ?thesis using kheap.alloc_law[OF L(2) assms(2)] L(1) by (fastforce simp: heap_set_def)
qed

lemma heap_set_free:
  assumes "heap_set h S" "(p, n) \<in> S"
  shows "\<exists>h'. kfree h p = Some h' \<and> heap_set h' (S - {(p, n)})"
proof -
  obtain L where L: "set L = S" "kheap_live h L" using assms(1) by (auto simp: heap_set_def)
  then obtain xs ys where xy: "L = xs @ (p, n) # ys" using assms(2) by (auto dest: split_list)
  have "distinct (map fst L)" using L(2) by (simp add: kheap_live_def)
  then have "(p, n) \<notin> set (xs @ ys)" by (auto simp: xy rev_image_eqI)
  then have "S - {(p, n)} = set (xs @ ys)" using L(1) xy by auto
  then show ?thesis using kheap.free_law[of h xs p n ys] L(2) xy by (auto simp: heap_set_def)
qed

text \<open>The doubling loop ends for every nonzero start and returns a capacity that suffices, or fails.\<close>

lemma grow_capacity_returns:
  assumes "capacity \<noteq> 0"
  shows "\<exists>r. grow_capacity capacity required = Some r \<and> (\<forall>c. r = Some c \<longrightarrow> required \<le> c \<and> c \<noteq> 0)"
  using assms
proof (induction "unat required - unat capacity" arbitrary: capacity rule: less_induct)
  case less
  show ?case
  proof (cases "capacity < required \<and> \<not> 0x7FFFFFFF < capacity")
    case True
    have pos: "0 < unat capacity" using less.prems by (simp add: unat_gt_0)
    have lt: "unat capacity < unat required" "unat capacity \<le> 0x7FFFFFFF"
      using True by (auto simp: word_less_nat_alt)
    have d: "unat (capacity * 2) = unat capacity * 2"
      using lt(2) by (subst unat_mult_lem[THEN iffD1]) auto
    have "capacity * 2 \<noteq> 0" using d pos by (intro unat_neq) simp
    moreover have "unat required - unat (capacity * 2) < unat required - unat capacity" using d pos lt(1) by simp
    ultimately show ?thesis using less.hyps[of "capacity * 2"] True by (subst grow_capacity.simps) auto
  next
    case False
    then show ?thesis using less.prems by (subst grow_capacity.simps) (auto simp: not_less)
  qed
qed

lemma grow_inventory_returns:
  assumes S: "heap_set h S" and c: "capacity \<noteq> 0" and sz: "unat sz \<le> 24" "0 < unat sz"
  shows "(\<exists>h'. grow_inventory h capacity required sz = Some (None, h') \<and> heap_set h' S) \<or>
    (\<exists>h' p cap. grow_inventory h capacity required sz = Some (Some (p, cap), h') \<and> p \<noteq> 0 \<and> cap \<noteq> 0 \<and>
       p \<notin> fst ` S \<and> required \<le> cap \<and> heap_set h' (insert (p, ucast cap * sz) S))"
proof -
  obtain r where r: "grow_capacity capacity required = Some r" "\<forall>c. r = Some c \<longrightarrow> required \<le> c \<and> c \<noteq> 0"
    using grow_capacity_returns[OF c] by blast
  show ?thesis
  proof (cases r)
    case None
    then show ?thesis using r(1) S by (simp add: grow_inventory_def)
  next
    case (Some cap)
    have u: "unat cap < 2 ^ 32" using unsigned_less[of cap, where 'a = nat] by simp
    then have "unat cap * unat sz < 2 ^ 32 * 32" using sz by (intro mult_less_le_imp_less) auto
    then have "unat (ucast cap * sz :: u64) + 32 \<le> 2 ^ 64"
      by (subst unat_mult_lem[THEN iffD1]) (auto simp: unat_ucast32)
    then show ?thesis
      using heap_set_alloc[OF S, of "ucast cap * sz"] r Some S by (fastforce simp: grow_inventory_def)
  qed
qed

text \<open>The block behind a pointer that may be NULL.\<close>

definition arr :: "u64 \<Rightarrow> u64 \<Rightarrow> block set" where
  "arr p n = (if p = 0 then {} else {(p, n)})"

definition vm_blocks :: "arm64_user_vm \<Rightarrow> block set" where
  "vm_blocks vm = arr (mappings_ptr vm) (ucast (mapping_capacity vm) * 24) \<union> arr (l2_ptr vm) (ucast (l2_table_capacity vm) * 16) \<union>
     arr (l3_ptr vm) (ucast (l3_table_capacity vm) * 16)"

definition ptrs_ok :: "arm64_user_vm \<Rightarrow> bool" where
  "ptrs_ok vm \<longleftrightarrow> (mapping_capacity vm = 0 \<longleftrightarrow> mappings_ptr vm = 0) \<and> (l2_table_capacity vm = 0 \<longleftrightarrow> l2_ptr vm = 0) \<and>
     (l3_table_capacity vm = 0 \<longleftrightarrow> l3_ptr vm = 0)"

definition heap_ok :: "kheap \<Rightarrow> arm64_user_vm \<Rightarrow> block set \<Rightarrow> bool" where
  "heap_ok h vm R \<longleftrightarrow> heap_set h (vm_blocks vm \<union> R) \<and> vm_blocks vm \<inter> R = {} \<and> ptrs_ok vm \<and>
     distinct (filter (\<lambda>p. p \<noteq> 0) [mappings_ptr vm, l2_ptr vm, l3_ptr vm])"

text \<open>Replacing one block of a live set: what the three \<open>reserve\<close> operations do with their array.\<close>

lemma heap_set_replace:
  assumes "heap_set h (insert (q, k) (arr p n \<union> S))" "q \<noteq> 0" "q \<notin> fst ` (arr p n \<union> S)" "arr p n \<inter> S = {}"
  shows "\<exists>h'. kfree h p = Some h' \<and> heap_set h' (arr q k \<union> S)"
proof (cases "p = 0")
  case True
  then show ?thesis using assms(1,2) by (simp add: kfree_def arr_def)
next
  case False
  have "insert (q, k) (arr p n \<union> S) - {(p, n)} = arr q k \<union> S"
    using False assms(2-4) by (auto simp: arr_def)
  moreover have "(p, n) \<in> insert (q, k) (arr p n \<union> S)" using False by (simp add: arr_def)
  ultimately show ?thesis using heap_set_free[OF assms(1), of p n] by simp
qed

text \<open>One growth step of an array \<open>p\<close> beside the other live blocks \<open>S\<close>.\<close>

lemma grow_array:
  assumes S: "heap_set h (arr p n \<union> S)" "arr p n \<inter> S = {}" and c: "capacity \<noteq> 0" and sz: "unat sz \<le> 24" "0 < unat sz"
  shows "(\<exists>h'. grow_inventory h capacity required sz = Some (None, h') \<and> heap_set h' (arr p n \<union> S)) \<or>
    (\<exists>h1 h2 q cap. grow_inventory h capacity required sz = Some (Some (q, cap), h1) \<and> kfree h1 p = Some h2 \<and> q \<noteq> 0 \<and>
       cap \<noteq> 0 \<and> q \<notin> fst ` (arr p n \<union> S) \<and> required \<le> cap \<and> heap_set h2 (arr q (ucast cap * sz) \<union> S))"
  using grow_inventory_returns[OF S(1) c sz, of required]
proof (elim disjE exE conjE)
  fix h1 q cap
  assume g: "grow_inventory h capacity required sz = Some (Some (q, cap), h1)" "q \<noteq> 0" "cap \<noteq> 0"
    "q \<notin> fst ` (arr p n \<union> S)" "required \<le> cap" "heap_set h1 (insert (q, ucast cap * sz) (arr p n \<union> S))"
  from heap_set_replace[OF g(6,2,4) S(2)] g show ?thesis by blast
qed blast

lemma arr_simps [simp]: "fst ` arr p n = (if p = 0 then {} else {p})" "arr 0 n = {}"
  by (auto simp: arr_def)

lemma reserve_mappings_spec:
  assumes "heap_ok (kheap s) vm R"
  obtains r p c h' where "reserve_mappings vm s required = Some (r, vm\<lparr>mappings_ptr := p, mapping_capacity := c\<rparr>, s\<lparr>kheap := h'\<rparr>)"
    "heap_ok h' (vm\<lparr>mappings_ptr := p, mapping_capacity := c\<rparr>) R" "r = 0 \<and> required \<le> c \<or> r = -1 \<and> c = mapping_capacity vm"
proof (cases "required \<le> mapping_capacity vm")
  case True
  then show ?thesis
    using assms by (intro that[where r = 0 and p = "mappings_ptr vm" and c = "mapping_capacity vm" and h' = "kheap s"]) (auto simp: reserve_mappings_def)
next
  case False
  let ?c = "if mapping_capacity vm \<noteq> 0 then mapping_capacity vm else 32"
  let ?S = "arr (l2_ptr vm) (ucast (l2_table_capacity vm) * 16) \<union> arr (l3_ptr vm) (ucast (l3_table_capacity vm) * 16) \<union> R"
  let ?old = "arr (mappings_ptr vm) (ucast (mapping_capacity vm) * 24)"
  note H = assms[unfolded heap_ok_def]
  have S: "heap_set (kheap s) (?old \<union> ?S)" using H by (simp add: vm_blocks_def Un_ac)
  have d: "?old \<inter> ?S = {}" using H by (auto simp: vm_blocks_def arr_def split: if_splits)
  have c0: "?c \<noteq> 0" and sz: "unat (24 :: u64) \<le> 24" "0 < unat (24 :: u64)" by simp_all
  from grow_array[OF S d c0 sz, of required] show ?thesis
  proof (elim disjE exE conjE)
    fix h' assume "grow_inventory (kheap s) ?c required 24 = Some (None, h')" "heap_set h' (?old \<union> ?S)"
    then show ?thesis
      using False H by (intro that[where r = "-1" and p = "mappings_ptr vm" and c = "mapping_capacity vm" and h' = h'])
        (auto simp: reserve_mappings_def heap_ok_def vm_blocks_def Un_ac)
  next
    fix h1 h2 q cap
    assume g: "grow_inventory (kheap s) ?c required 24 = Some (Some (q, cap), h1)" "kfree h1 (mappings_ptr vm) = Some h2"
      "q \<noteq> 0" "cap \<noteq> 0" "q \<notin> fst ` (?old \<union> ?S)" "required \<le> cap" "heap_set h2 (arr q (ucast cap * 24) \<union> ?S)"
    have "reserve_mappings vm s required = Some (0, vm\<lparr>mappings_ptr := q, mapping_capacity := cap\<rparr>, s\<lparr>kheap := h2\<rparr>)"
      using False g(1,2) by (simp add: reserve_mappings_def)
    moreover have "arr q (ucast cap * 24) \<inter> R = {}" using g(5) by (force simp: arr_def)
    then have "heap_ok h2 (vm\<lparr>mappings_ptr := q, mapping_capacity := cap\<rparr>) R"
      using H g(3-5,7) by (auto simp: heap_ok_def vm_blocks_def ptrs_ok_def Un_ac image_Un Int_Un_distrib2 split: if_splits)
    ultimately show ?thesis using g(6) by (intro that[where r = 0 and p = q and c = cap and h' = h2]) auto
  qed
qed
lemma reserve_l2_tables_spec:
  assumes "heap_ok (kheap s) vm R"
  obtains r p c h' where "reserve_l2_tables vm s required = Some (r, vm\<lparr>l2_ptr := p, l2_table_capacity := c\<rparr>, s\<lparr>kheap := h'\<rparr>)"
    "heap_ok h' (vm\<lparr>l2_ptr := p, l2_table_capacity := c\<rparr>) R" "r = 0 \<and> required \<le> c \<or> r = -1 \<and> c = l2_table_capacity vm"
proof (cases "required \<le> l2_table_capacity vm")
  case True
  then show ?thesis
    using assms by (intro that[where r = 0 and p = "l2_ptr vm" and c = "l2_table_capacity vm" and h' = "kheap s"]) (auto simp: reserve_l2_tables_def)
next
  case False
  let ?c = "if l2_table_capacity vm \<noteq> 0 then l2_table_capacity vm else 4"
  let ?S = "arr (mappings_ptr vm) (ucast (mapping_capacity vm) * 24) \<union> arr (l3_ptr vm) (ucast (l3_table_capacity vm) * 16) \<union> R"
  let ?old = "arr (l2_ptr vm) (ucast (l2_table_capacity vm) * 16)"
  note H = assms[unfolded heap_ok_def]
  have S: "heap_set (kheap s) (?old \<union> ?S)" using H by (simp add: vm_blocks_def Un_ac)
  have d: "?old \<inter> ?S = {}" using H by (auto simp: vm_blocks_def arr_def split: if_splits)
  have c0: "?c \<noteq> 0" and sz: "unat (16 :: u64) \<le> 24" "0 < unat (16 :: u64)" by simp_all
  from grow_array[OF S d c0 sz, of required] show ?thesis
  proof (elim disjE exE conjE)
    fix h' assume "grow_inventory (kheap s) ?c required 16 = Some (None, h')" "heap_set h' (?old \<union> ?S)"
    then show ?thesis
      using False H by (intro that[where r = "-1" and p = "l2_ptr vm" and c = "l2_table_capacity vm" and h' = h'])
        (auto simp: reserve_l2_tables_def heap_ok_def vm_blocks_def Un_ac)
  next
    fix h1 h2 q cap
    assume g: "grow_inventory (kheap s) ?c required 16 = Some (Some (q, cap), h1)" "kfree h1 (l2_ptr vm) = Some h2"
      "q \<noteq> 0" "cap \<noteq> 0" "q \<notin> fst ` (?old \<union> ?S)" "required \<le> cap" "heap_set h2 (arr q (ucast cap * 16) \<union> ?S)"
    have "reserve_l2_tables vm s required = Some (0, vm\<lparr>l2_ptr := q, l2_table_capacity := cap\<rparr>, s\<lparr>kheap := h2\<rparr>)"
      using False g(1,2) by (simp add: reserve_l2_tables_def)
    moreover have "arr q (ucast cap * 16) \<inter> R = {}" using g(5) by (force simp: arr_def)
    then have "heap_ok h2 (vm\<lparr>l2_ptr := q, l2_table_capacity := cap\<rparr>) R"
      using H g(3-5,7) by (auto simp: heap_ok_def vm_blocks_def ptrs_ok_def Un_ac image_Un Int_Un_distrib2 split: if_splits)
    ultimately show ?thesis using g(6) by (intro that[where r = 0 and p = q and c = cap and h' = h2]) auto
  qed
qed
lemma reserve_l3_tables_spec:
  assumes "heap_ok (kheap s) vm R"
  obtains r p c h' where "reserve_l3_tables vm s required = Some (r, vm\<lparr>l3_ptr := p, l3_table_capacity := c\<rparr>, s\<lparr>kheap := h'\<rparr>)"
    "heap_ok h' (vm\<lparr>l3_ptr := p, l3_table_capacity := c\<rparr>) R" "r = 0 \<and> required \<le> c \<or> r = -1 \<and> c = l3_table_capacity vm"
proof (cases "required \<le> l3_table_capacity vm")
  case True
  then show ?thesis
    using assms by (intro that[where r = 0 and p = "l3_ptr vm" and c = "l3_table_capacity vm" and h' = "kheap s"]) (auto simp: reserve_l3_tables_def)
next
  case False
  let ?c = "if l3_table_capacity vm \<noteq> 0 then l3_table_capacity vm else 4"
  let ?S = "arr (mappings_ptr vm) (ucast (mapping_capacity vm) * 24) \<union> arr (l2_ptr vm) (ucast (l2_table_capacity vm) * 16) \<union> R"
  let ?old = "arr (l3_ptr vm) (ucast (l3_table_capacity vm) * 16)"
  note H = assms[unfolded heap_ok_def]
  have S: "heap_set (kheap s) (?old \<union> ?S)" using H by (simp add: vm_blocks_def Un_ac)
  have d: "?old \<inter> ?S = {}" using H by (auto simp: vm_blocks_def arr_def split: if_splits)
  have c0: "?c \<noteq> 0" and sz: "unat (16 :: u64) \<le> 24" "0 < unat (16 :: u64)" by simp_all
  from grow_array[OF S d c0 sz, of required] show ?thesis
  proof (elim disjE exE conjE)
    fix h' assume "grow_inventory (kheap s) ?c required 16 = Some (None, h')" "heap_set h' (?old \<union> ?S)"
    then show ?thesis
      using False H by (intro that[where r = "-1" and p = "l3_ptr vm" and c = "l3_table_capacity vm" and h' = h'])
        (auto simp: reserve_l3_tables_def heap_ok_def vm_blocks_def Un_ac)
  next
    fix h1 h2 q cap
    assume g: "grow_inventory (kheap s) ?c required 16 = Some (Some (q, cap), h1)" "kfree h1 (l3_ptr vm) = Some h2"
      "q \<noteq> 0" "cap \<noteq> 0" "q \<notin> fst ` (?old \<union> ?S)" "required \<le> cap" "heap_set h2 (arr q (ucast cap * 16) \<union> ?S)"
    have "reserve_l3_tables vm s required = Some (0, vm\<lparr>l3_ptr := q, l3_table_capacity := cap\<rparr>, s\<lparr>kheap := h2\<rparr>)"
      using False g(1,2) by (simp add: reserve_l3_tables_def)
    moreover have "arr q (ucast cap * 16) \<inter> R = {}" using g(5) by (force simp: arr_def)
    then have "heap_ok h2 (vm\<lparr>l3_ptr := q, l3_table_capacity := cap\<rparr>) R"
      using H g(3-5,7) by (auto simp: heap_ok_def vm_blocks_def ptrs_ok_def Un_ac image_Un Int_Un_distrib2 split: if_splits)
    ultimately show ?thesis using g(6) by (intro that[where r = 0 and p = q and c = cap and h' = h2]) auto
  qed
qed

subsection \<open>Pages and the allocator\<close>

text \<open>The pages handed out one by one: \<open>P\<close> is the set of addresses of the live one-page blocks.\<close>

definition owns :: "platform \<Rightarrow> physmem \<Rightarrow> u64 set \<Rightarrow> bool" where
  "owns e ph P \<longleftrightarrow> (\<exists>B. pm_inv e ph B \<and> P = {page_addr ph r |r. (r, 1) \<in> B})"

lemma pm_inv_pmem [simp]: "pm_inv e (ph\<lparr>pmem := m\<rparr>) B = pm_inv e ph B"
  unfolding pm_inv_def arena_ok_def max_pages_def page_addr_def by simp

lemma owns_pmem [simp]: "owns e (ph\<lparr>pmem := m\<rparr>) P = owns e ph P"
  by (simp add: owns_def page_addr_def)

lemma page_addr_inj:
  assumes "pm_inv e s B" "(r, n) \<in> B" "(r', n') \<in> B" "page_addr s r = page_addr s r'"
  shows "r = r'"
proof -
  have "r < max_pages e s" "r' < max_pages e s" using pm_invD(2)[OF assms(1)] assms(2,3) by force+
  then have "unat (buddy_base s) + r * 4096 = unat (buddy_base s) + r' * 4096"
    using page_addr_unat(1)[OF pm_invD(1)[OF assms(1)]] assms(4) by metis
  then show ?thesis by simp
qed

lemma owns_page:
  assumes "owns e ph P" "p \<in> P"
  shows "page p" "p \<noteq> 0" "unat p + 4096 \<le> unat (ram_end e)"
proof -
  obtain B r where B: "pm_inv e ph B" "(r, 1) \<in> B" "p = page_addr ph r" using assms by (auto simp: owns_def)
  have r: "r < max_pages e ph" using pm_invD(2)[OF B(1,2)] by simp
  note A = page_addr_unat[OF pm_invD(1)[OF B(1)] r]
  show "page p" using A(3) B(3) by (simp add: page_def)
  have "0 < unat (buddy_base ph)" using pm_invD(1)[OF B(1)] by (simp add: arena_ok_def)
  then show "p \<noteq> 0" using A(1) B(3) by (intro unat_neq) simp
  show "unat p + 4096 \<le> unat (ram_end e)" using A(2) B(3) by simp
qed

lemma buddy_alloc_pmem:
  "pmem (fst (buddy_alloc e s n)) = pmem s \<or>
   pmem (fst (buddy_alloc e s n)) = memset (pmem s) (snd (buddy_alloc e s n)) 0 (unat (n * 4096))"
  by (auto simp: buddy_alloc_def Let_def split: option.splits)

lemma set_range_twice: "set_range (set_range m p n 0) p n 0 = set_range m p n 0"
  by (auto simp: set_range_def)

lemma alloc_page_cases:
  assumes own: "owns e (phys s) P"
  obtains (none) "arm64_vm_alloc_pages e s 1 = (-1, 0, s)"
  | (some) p ph where "arm64_vm_alloc_pages e s 1 = (0, p, s\<lparr>phys := ph\<rparr>)" "owns e ph (insert p P)" "p \<notin> P" "p \<noteq> 0"
      "page p" "unat p + 4096 \<le> unat (ram_end e)" "pmem ph = set_range (pmem (phys s)) p 4096 0"
proof -
  obtain B where B: "pm_inv e (phys s) B" "P = {page_addr (phys s) r |r. (r, 1) \<in> B}" using own by (auto simp: owns_def)
  show ?thesis
  proof (cases "has_run e (phys s) 1")
    case False
    then have "buddy_alloc e (phys s) 1 = (phys s, 0)" using buddy_alloc_none[OF B(1), of 1] by simp
    then show ?thesis by (intro none) (simp add: arm64_vm_alloc_pages_def allocate_pages_def)
  next
    case True
    then have one: "(1 :: u64) \<noteq> 0" "has_run e (phys s) (unat (1 :: u64))" "unat (1 :: u64) = 1" by simp_all
    from buddy_alloc_some[OF B(1) one(1,2), unfolded one(3)] obtain r ph where r: "buddy_alloc e (phys s) 1 = (ph, page_addr (phys s) r)"
      "page_addr (phys s) r \<noteq> 0" "pm_inv e ph (insert (r, 1) B)" "same_arena (phys s) ph"
      "\<And>b. b \<in> B \<Longrightarrow> block_pages b \<inter> block_pages (r, 1) = {}"
      by metis
    let ?p = "page_addr (phys s) r" and ?ph = "ph\<lparr>pmem := memset (pmem ph) (page_addr (phys s) r) 0 4096\<rparr>"
    note g = same_arena_geometry(3)[OF r(4)]
    have "owns e ph (insert ?p P)"
      unfolding owns_def using r(3) B(2) g by (intro exI[of _ "insert (r, 1) B"]) auto
    then have own': "owns e ?ph (insert ?p P)" by simp
    have "(r, 1) \<notin> B" using r(5)[of "(r, 1)"] by (auto simp: block_pages_def)
    then have new: "?p \<notin> P"
      unfolding B(2) using page_addr_inj[OF r(3)] g by auto
    have mem: "pmem ?ph = set_range (pmem (phys s)) ?p 4096 0"
      using buddy_alloc_pmem[of e "phys s" 1] r(1) by (auto simp: memset_range set_range_twice)
    have run: "arm64_vm_alloc_pages e s 1 = (0, ?p, s\<lparr>phys := ?ph\<rparr>)"
      using r(1,2) by (simp add: arm64_vm_alloc_pages_def allocate_pages_def)
    note A = owns_page[OF own', of ?p]
    show ?thesis by (rule some[OF run own' new]) (use A mem r(2) in auto)
  qed
qed

lemma free_page_owned:
  assumes "owns e (phys s) P" "p \<in> P"
  shows "\<exists>ph. arm64_vm_free_pages e s p 1 = (0, s\<lparr>phys := ph\<rparr>) \<and> owns e ph (P - {p}) \<and> pmem ph = pmem (phys s)"
proof -
  obtain B r where B: "pm_inv e (phys s) B" "P = {page_addr (phys s) r |r. (r, 1) \<in> B}" "(r, 1) \<in> B" "p = page_addr (phys s) r"
    using assms by (auto simp: owns_def)
  have rr: "r \<in> block_pages (r, 1)" by (simp add: block_pages_def)
  note F = buddy_free_spec[OF B(1,3) rr]
  let ?ph = "buddy_free_locked e (phys s) p"
  have "arm64_vm_free_pages e s p 1 = (0, s\<lparr>phys := ?ph\<rparr>)"
    using owns_page(2)[OF assms] by (simp add: arm64_vm_free_pages_def free_pages_def buddy_free_def)
  moreover have "P - {p} = {page_addr ?ph r' |r'. (r', 1) \<in> B - {(r, 1)}}"
    using same_arena_geometry(3)[OF F(2)] page_addr_inj[OF B(1) _ B(3)] unfolding B(2) B(4) by auto
  then have "owns e ?ph (P - {p})" using F(1) B(4) unfolding owns_def by auto
  moreover have "pmem ?ph = pmem (phys s)" using F(4) B(4) by (auto simp: account_buddy_free_def)
  ultimately show ?thesis by blast
qed

subsection \<open>The invariant of an address space\<close>

definition ident_ok :: "arm64_user_vm \<Rightarrow> bool" where
  "ident_ok vm \<longleftrightarrow> magic vm = ARM64_USER_VM_MAGIC \<and> asid vm \<noteq> 0 \<and> arm64_asid_hw (asid vm) \<noteq> 0 \<and>
     pgdir (space vm) = l1 vm \<and> pgdir_alloc (space vm) = l1 vm \<and> space_asid (space vm) = asid vm \<and>
     arch_private (space vm) = vm_self vm"

definition counts_ok :: "arm64_user_vm \<Rightarrow> bool" where
  "counts_ok vm \<longleftrightarrow> length (l2_tables vm) \<le> unat (l2_table_capacity vm) \<and>
     length (l3_tables vm) \<le> unat (l3_table_capacity vm) \<and> length (mappings vm) \<le> unat (mapping_capacity vm)"

text \<open>Every translation a TLB holds under the ASID of the address space is a recorded mapping.\<close>

definition coherent :: "mmu \<Rightarrow> arm64_user_vm \<Rightarrow> bool" where
  "coherent h vm \<longleftrightarrow> (\<forall>cpu p d. tlb h cpu (arm64_asid_hw (asid vm)) p = Some d \<longrightarrow>
     (\<exists>mp \<in> set (mappings vm). drop_bit 12 (virtual_address mp) = p \<and> d = mapping_desc mp))"

definition vm_inv :: "platform \<Rightarrow> machine \<Rightarrow> arm64_user_vm \<Rightarrow> u64 set \<Rightarrow> block set \<Rightarrow> bool" where
  "vm_inv e s vm P R \<longleftrightarrow> vm_ok (pmem (phys s)) vm \<and> owns e (phys s) P \<and> set (tables_of vm) \<subseteq> P \<and>
     heap_ok (kheap s) vm R \<and> ident_ok vm \<and> counts_ok vm \<and> coherent (hw s) vm \<and> unat (ram_end e) \<le> 2 ^ 48"

text \<open>What an operation on one address space leaves alone: the identity of the space, every page that is not
  one of its tables, and the state of the machine outside the allocators and the translation hardware.\<close>

definition same_id :: "arm64_user_vm \<Rightarrow> arm64_user_vm \<Rightarrow> bool" where
  "same_id vm vm' \<longleftrightarrow> space vm' = space vm \<and> magic vm' = magic vm \<and> l1 vm' = l1 vm \<and> asid vm' = asid vm \<and>
     vm_self vm' = vm_self vm"

definition same_rest :: "machine \<Rightarrow> machine \<Rightarrow> bool" where
  "same_rest s s' \<longleftrightarrow> s' = s\<lparr>phys := phys s', kheap := kheap s', hw := hw s',
     next_tlb_generation := next_tlb_generation s', asid_residency := asid_residency s'\<rparr>"

definition tlb_le :: "mmu \<Rightarrow> mmu \<Rightarrow> bool" where
  "tlb_le h' h \<longleftrightarrow> (\<forall>cpu a p d. tlb h' cpu a p = Some d \<longrightarrow> tlb h cpu a p = Some d) \<and> ttbr0 h' = ttbr0 h"

lemma tlb_le_simps [simp]: "tlb_le h h" "tlb_le (invalidate_user_page h va a) h"
  by (simp_all add: tlb_le_def invalidate_user_page_def)

lemma tlb_le_trans: "tlb_le h' h \<Longrightarrow> tlb_le h'' h' \<Longrightarrow> tlb_le h'' h"
  by (simp add: tlb_le_def)

definition vm_step :: "platform \<Rightarrow> block set \<Rightarrow> machine \<times> arm64_user_vm \<times> u64 set \<Rightarrow>
    machine \<times> arm64_user_vm \<times> u64 set \<Rightarrow> bool" where
  "vm_step e R = (\<lambda>(s, vm, P) (s', vm', P'). vm_inv e s' vm' P' R \<and> same_id vm vm' \<and> same_rest s s' \<and>
     P' - set (tables_of vm') = P - set (tables_of vm) \<and>
     (\<forall>p \<in> P - set (tables_of vm). \<forall>x. in_page p x \<longrightarrow> pmem (phys s') x = pmem (phys s) x) \<and> tlb_le (hw s') (hw s))"

lemma same_rest_refl [simp]: "same_rest s s"
  by (simp add: same_rest_def)

lemma same_rest_trans: "same_rest s s' \<Longrightarrow> same_rest s' s'' \<Longrightarrow> same_rest s s''"
  unfolding same_rest_def by (elim ssubst) simp

lemma same_rest_upd [simp]:
  "same_rest s (s\<lparr>phys := ph\<rparr>)" "same_rest s (s\<lparr>kheap := h\<rparr>)" "same_rest s (s\<lparr>hw := w\<rparr>)" "same_rest s (s\<lparr>phys := ph, hw := w\<rparr>)"
  by (simp_all add: same_rest_def)

lemma vm_step_refl: "vm_inv e s vm P R \<Longrightarrow> vm_step e R (s, vm, P) (s, vm, P)"
  by (simp add: vm_step_def same_id_def)

lemma vm_step_trans:
  "vm_step e R (s, vm, P) (s', vm', P') \<Longrightarrow> vm_step e R (s', vm', P') (s'', vm'', P'') \<Longrightarrow>
   vm_step e R (s, vm, P) (s'', vm'', P'')"
  unfolding vm_step_def using same_rest_trans tlb_le_trans by (auto simp: same_id_def)

lemma vm_invD:
  assumes "vm_inv e s vm P R"
  shows "vm_ok (pmem (phys s)) vm" "records_ok vm" "owns e (phys s) P" "set (tables_of vm) \<subseteq> P" "heap_ok (kheap s) vm R"
    "ident_ok vm" "counts_ok vm" "coherent (hw s) vm" "unat (ram_end e) \<le> 2 ^ 48"
  using assms by (auto simp: vm_inv_def vm_ok_def)

lemma asid_hw_le: "\<not> TTBR_ASID_MAX < arm64_asid_hw a"
proof -
  have "arm64_asid_hw a = take_bit 8 a" by (simp add: arm64_asid_hw_def ARM64_ASID_COUNT_def take_bit_eq_mask mask_eq_exp_minus_1)
  then have "unat (arm64_asid_hw a) < 256" using take_bit_nat_less_exp[of 8 "unat a"] by (simp add: unsigned_take_bit_eq)
  then show ?thesis by (simp add: TTBR_ASID_MAX_def word_less_nat_alt)
qed

lemma l2_ok_of_records:
  "distinct (map l2_l1 ts) \<Longrightarrow> distinct (map l2_table ts) \<Longrightarrow> root \<notin> l2_table ` set ts \<Longrightarrow>
   (\<And>t. t \<in> set ts \<Longrightarrow> l2_l1 t < 512 \<and> l2_table t \<noteq> 0 \<and> page (l2_table t)) \<Longrightarrow> l2_tables_ok root ts"
  by (induction ts) (auto simp: list_all_iff PAGE_OFFSET_MASK_def page_mask not_le image_iff)

lemma l3_ok_of_records:
  "distinct (map l3_key ts) \<Longrightarrow> distinct (map l3_table ts) \<Longrightarrow> root \<notin> l3_table ` set ts \<Longrightarrow>
   l3_table ` set ts \<inter> l2_table ` set us = {} \<Longrightarrow>
   (\<And>t. t \<in> set ts \<Longrightarrow> l3_l1 t < 512 \<and> l3_l2 t < 512 \<and> l3_l1 t \<in> l2_l1 ` set us \<and> l3_table t \<noteq> 0 \<and> page (l3_table t)) \<Longrightarrow>
   l3_tables_ok root us ts"
proof (induction ts)
  case (Cons a ts)
  have "l3_l1 a \<in> l2_l1 ` set us" using Cons.prems(5)[of a] by simp
  then have "\<exists>u \<in> set us. l2_l1 u = l3_l1 a" by force
  with Cons show ?case
    by (auto simp: list_all_iff list_ex_iff PAGE_OFFSET_MASK_def page_mask not_le image_iff l3_key_def)
qed simp

lemma count_le: "length xs \<le> unat c \<Longrightarrow> \<not> c < item_count xs"
  using unsigned_less[of c, where 'a = nat]
  by (simp add: item_count_def word_less_nat_alt unsigned_of_nat take_bit_nat_eq_self not_less)

lemma vm_inv_valid:
  assumes "vm_inv e s vm P R"
  shows "arm64_user_vm_validate_identity vm"
proof -
  note I = vm_invD[OF assms] and RD = records_okD[OF vm_invD(2)[OF assms]]
  have d: "distinct (map l2_table (l2_tables vm))" "distinct (map l3_table (l3_tables vm))" "l1 vm \<notin> l2_table ` set (l2_tables vm)"
    "l1 vm \<notin> l3_table ` set (l3_tables vm)" "l3_table ` set (l3_tables vm) \<inter> l2_table ` set (l2_tables vm) = {}"
    using RD(1) by (auto simp: tables_of_def)
  have z: "t \<noteq> 0" "page t" if "t \<in> set (tables_of vm)" for t using RD(2)[OF that] valid_page by auto
  have "l2_tables_ok (l1 vm) (l2_tables vm)"
    using RD(3,4) d z by (intro l2_ok_of_records) (auto simp: tables_of_def)
  moreover have "l3_tables_ok (l1 vm) (l2_tables vm) (l3_tables vm)"
    using RD(5,6) d z by (intro l3_ok_of_records) (auto simp: tables_of_def)
  ultimately have "validate_tables vm"
    using I(5,7) by (auto simp: validate_tables_def heap_ok_def ptrs_ok_def counts_ok_def count_le)
  moreover have "validate_residents vm"
    using I(5,7) RD(8) valid_page
    by (auto simp: validate_residents_def heap_ok_def ptrs_ok_def counts_ok_def count_le list_all_iff mapping_ok_def
        PAGE_OFFSET_MASK_def page_mask[symmetric] user_va_def)
  moreover have "l1 vm \<noteq> 0" using z(1)[of "l1 vm"] by (simp add: tables_of_def)
  ultimately show ?thesis
    using I(6) by (simp add: arm64_user_vm_validate_identity_def validate_fields_def ident_ok_def)
qed

subsection \<open>Bounds on the inventories\<close>

lemma distinct_below:
  fixes f :: "'a \<Rightarrow> nat"
  assumes "distinct (map f xs)" "\<And>x. x \<in> set xs \<Longrightarrow> f x < n"
  shows "length xs \<le> n"
proof -
  have "length xs = card (f ` set xs)" using distinct_card[OF assms(1)] by simp
  also have "\<dots> \<le> card {..<n}" using assms(2) by (intro card_mono) auto
  finally show ?thesis by simp
qed

lemma inventory_bounds:
  assumes "records_ok vm"
  shows "length (l2_tables vm) \<le> 512" "length (l3_tables vm) \<le> 512 * 512" "length (mappings vm) \<le> 2 ^ 27"
proof -
  note RD = records_okD[OF assms]
  show "length (l2_tables vm) \<le> 512"
  proof (rule distinct_below[of "\<lambda>t. unat (l2_l1 t)"])
    show "distinct (map (\<lambda>t. unat (l2_l1 t)) (l2_tables vm))"
      using RD(3) by (auto simp: distinct_map inj_on_def word_unat_eq_iff)
  qed (use RD(4) in \<open>auto simp: word_less_nat_alt\<close>)
  show "length (l3_tables vm) \<le> 512 * 512"
  proof (rule distinct_below[of "\<lambda>t. unat (l3_l1 t) * 512 + unat (l3_l2 t)"])
    have b: "unat (l3_l1 t) < 512" "unat (l3_l2 t) < 512" if "t \<in> set (l3_tables vm)" for t
      using RD(6)[OF that] by (auto simp: word_less_nat_alt)
    have "t = u" if "t \<in> set (l3_tables vm)" "u \<in> set (l3_tables vm)"
      "unat (l3_l1 t) * 512 + unat (l3_l2 t) = unat (l3_l1 u) * 512 + unat (l3_l2 u)" for t u
    proof -
      have "(unat (l3_l1 t) * 512 + unat (l3_l2 t)) div 512 = (unat (l3_l1 u) * 512 + unat (l3_l2 u)) div 512"
        "(unat (l3_l1 t) * 512 + unat (l3_l2 t)) mod 512 = (unat (l3_l1 u) * 512 + unat (l3_l2 u)) mod 512"
        using that(3) by simp_all
      then have "l3_key t = l3_key u"
        using b[OF that(1)] b[OF that(2)] by (simp add: l3_key_def word_unat_eq_iff)
      then show ?thesis using RD(5) that(1,2) by (auto simp: distinct_map inj_on_def)
    qed
    moreover have "distinct (l3_tables vm)" using RD(5) by (simp add: distinct_map)
    ultimately show "distinct (map (\<lambda>t. unat (l3_l1 t) * 512 + unat (l3_l2 t)) (l3_tables vm))"
      by (auto simp: distinct_map inj_on_def)
    show "unat (l3_l1 t) * 512 + unat (l3_l2 t) < 512 * 512" if "t \<in> set (l3_tables vm)" for t
      using b[OF that] by simp
  qed
  show "length (mappings vm) \<le> 2 ^ 27"
  proof (rule distinct_below[of "\<lambda>mp. unat (virtual_address mp) div 4096"])
    have "inj_on (\<lambda>mp. unat (virtual_address mp) div 4096) (set (mappings vm))"
    proof (rule inj_onI)
      fix a b assume ab: "a \<in> set (mappings vm)" "b \<in> set (mappings vm)"
        "unat (virtual_address a) div 4096 = unat (virtual_address b) div 4096"
      have "4096 dvd unat (virtual_address a)" "4096 dvd unat (virtual_address b)"
        using RD(8)[OF ab(1)] RD(8)[OF ab(2)] by (auto simp: mapping_ok_def user_va_def page_def)
      then have "virtual_address a = virtual_address b" using ab(3) by (auto simp: word_unat_eq_iff)
      then show "a = b" using RD(7) ab(1,2) by (auto simp: distinct_map inj_on_def)
    qed
    moreover have "distinct (mappings vm)" using RD(7) by (simp add: distinct_map)
    ultimately show "distinct (map (\<lambda>mp. unat (virtual_address mp) div 4096) (mappings vm))" by (simp add: distinct_map)
    show "unat (virtual_address mp) div 4096 < 2 ^ 27" if "mp \<in> set (mappings vm)" for mp
      using RD(8)[OF that] by (simp add: mapping_ok_def user_va_def less_mult_imp_div_less)
  qed
qed

lemma count_Suc: "length xs \<le> 2 ^ 27 \<Longrightarrow> item_count xs + 1 \<le> c \<Longrightarrow> length xs < unat c"
proof -
  assume a: "length xs \<le> 2 ^ 27" "item_count xs + 1 \<le> c"
  have "unat (item_count xs) = length xs"
    using a(1) by (simp add: item_count_def unsigned_of_nat take_bit_nat_eq_self)
  then have "unat (item_count xs + 1) = length xs + 1" using a(1) by (simp add: unat_word_ariths)
  then show ?thesis using a(2) by (simp add: word_le_nat_alt)
qed

subsection \<open>Reserving room\<close>

text \<open>The invariant sees of an address space only its tables, mappings and identity; the arrays may move.\<close>

lemma vm_ok_cong:
  assumes "l1 vm' = l1 vm" "l2_tables vm' = l2_tables vm" "l3_tables vm' = l3_tables vm" "mappings vm' = mappings vm"
  shows "vm_ok m vm' = vm_ok m vm" "tables_of vm' = tables_of vm" "records_ok vm' = records_ok vm"
    "asid vm' = asid vm \<Longrightarrow> coherent h vm' = coherent h vm"
  using assms by (simp_all add: vm_ok_def records_ok_def tables_ok_def tables_of_def coherent_def)

lemma vm_step_heap:
  assumes inv: "vm_inv e s vm P R" and same: "l1 vm' = l1 vm" "l2_tables vm' = l2_tables vm" "l3_tables vm' = l3_tables vm"
    "mappings vm' = mappings vm" "same_id vm vm'" and heap: "heap_ok h' vm' R" and counts: "counts_ok vm'"
  shows "vm_step e R (s, vm, P) (s\<lparr>kheap := h'\<rparr>, vm', P)"
proof -
  have "asid vm' = asid vm" "ident_ok vm'" using same(5) vm_invD(6)[OF inv] by (auto simp: same_id_def ident_ok_def)
  then show ?thesis
    using inv vm_ok_cong[OF same(1-4)] same(5) heap counts by (simp add: vm_step_def vm_inv_def)
qed

lemma reserve_mappings_step:
  assumes inv: "vm_inv e s vm P R"
  obtains r vm' s' where "reserve_mappings vm s (item_count (mappings vm) + 1) = Some (r, vm', s')"
    "vm_step e R (s, vm, P) (s', vm', P)" "mappings vm' = mappings vm" "l2_tables vm' = l2_tables vm" "l3_tables vm' = l3_tables vm"
    "r = 0 \<and> length (mappings vm) < unat (mapping_capacity vm') \<or> r = -1"
proof -
  note I = vm_invD[OF inv]
  obtain r p c h' where r: "reserve_mappings vm s (item_count (mappings vm) + 1) = Some (r, vm\<lparr>mappings_ptr := p, mapping_capacity := c\<rparr>, s\<lparr>kheap := h'\<rparr>)"
    "heap_ok h' (vm\<lparr>mappings_ptr := p, mapping_capacity := c\<rparr>) R" "r = 0 \<and> item_count (mappings vm) + 1 \<le> c \<or> r = -1 \<and> c = mapping_capacity vm"
    by (rule reserve_mappings_spec[OF I(5)])
  let ?vm = "vm\<lparr>mappings_ptr := p, mapping_capacity := c\<rparr>"
  have len: "r = 0 \<Longrightarrow> length (mappings vm) < unat c"
    using count_Suc[OF inventory_bounds(3)[OF I(2)], of c] r(3) by auto
  have "counts_ok ?vm" using I(7) len r(3) by (auto simp: counts_ok_def)
  then have "vm_step e R (s, vm, P) (s\<lparr>kheap := h'\<rparr>, ?vm, P)" by (intro vm_step_heap[OF inv _ _ _ _ _ r(2)]) (simp_all add: same_id_def)
  from that[OF r(1) this] show ?thesis using len r(3) by auto
qed

lemma reserve_l2_step:
  assumes inv: "vm_inv e s vm P R"
  obtains r vm' s' where "reserve_l2_tables vm s (item_count (l2_tables vm) + 1) = Some (r, vm', s')"
    "vm_step e R (s, vm, P) (s', vm', P)" "mappings vm' = mappings vm" "l2_tables vm' = l2_tables vm" "l3_tables vm' = l3_tables vm"
    "mapping_capacity vm' = mapping_capacity vm" "r = 0 \<and> length (l2_tables vm) < unat (l2_table_capacity vm') \<or> r = -1"
proof -
  note I = vm_invD[OF inv]
  obtain r p c h' where r: "reserve_l2_tables vm s (item_count (l2_tables vm) + 1) = Some (r, vm\<lparr>l2_ptr := p, l2_table_capacity := c\<rparr>, s\<lparr>kheap := h'\<rparr>)"
    "heap_ok h' (vm\<lparr>l2_ptr := p, l2_table_capacity := c\<rparr>) R" "r = 0 \<and> item_count (l2_tables vm) + 1 \<le> c \<or> r = -1 \<and> c = l2_table_capacity vm"
    by (rule reserve_l2_tables_spec[OF I(5)])
  let ?vm = "vm\<lparr>l2_ptr := p, l2_table_capacity := c\<rparr>"
  have len: "r = 0 \<Longrightarrow> length (l2_tables vm) < unat c"
    using count_Suc[of "l2_tables vm" c] inventory_bounds(1)[OF I(2)] r(3) by auto
  have "counts_ok ?vm" using I(7) len r(3) by (auto simp: counts_ok_def)
  then have "vm_step e R (s, vm, P) (s\<lparr>kheap := h'\<rparr>, ?vm, P)" by (intro vm_step_heap[OF inv _ _ _ _ _ r(2)]) (simp_all add: same_id_def)
  from that[OF r(1) this] show ?thesis using len r(3) by auto
qed

lemma reserve_l3_step:
  assumes inv: "vm_inv e s vm P R"
  obtains r vm' s' where "reserve_l3_tables vm s (item_count (l3_tables vm) + 1) = Some (r, vm', s')"
    "vm_step e R (s, vm, P) (s', vm', P)" "mappings vm' = mappings vm" "l2_tables vm' = l2_tables vm" "l3_tables vm' = l3_tables vm"
    "mapping_capacity vm' = mapping_capacity vm" "r = 0 \<and> length (l3_tables vm) < unat (l3_table_capacity vm') \<or> r = -1"
proof -
  note I = vm_invD[OF inv]
  obtain r p c h' where r: "reserve_l3_tables vm s (item_count (l3_tables vm) + 1) = Some (r, vm\<lparr>l3_ptr := p, l3_table_capacity := c\<rparr>, s\<lparr>kheap := h'\<rparr>)"
    "heap_ok h' (vm\<lparr>l3_ptr := p, l3_table_capacity := c\<rparr>) R" "r = 0 \<and> item_count (l3_tables vm) + 1 \<le> c \<or> r = -1 \<and> c = l3_table_capacity vm"
    by (rule reserve_l3_tables_spec[OF I(5)])
  let ?vm = "vm\<lparr>l3_ptr := p, l3_table_capacity := c\<rparr>"
  have len: "r = 0 \<Longrightarrow> length (l3_tables vm) < unat c"
    using count_Suc[of "l3_tables vm" c] inventory_bounds(2)[OF I(2)] r(3) by auto
  have "counts_ok ?vm" using I(7) len r(3) by (auto simp: counts_ok_def)
  then have "vm_step e R (s, vm, P) (s\<lparr>kheap := h'\<rparr>, ?vm, P)" by (intro vm_step_heap[OF inv _ _ _ _ _ r(2)]) (simp_all add: same_id_def)
  from that[OF r(1) this] show ?thesis using len r(3) by auto
qed

subsection \<open>Installing tables\<close>

lemma heap_ok_upd [simp]:
  "heap_ok h (vm\<lparr>l2_tables := x\<rparr>) R = heap_ok h vm R" "heap_ok h (vm\<lparr>l3_tables := y\<rparr>) R = heap_ok h vm R"
  "heap_ok h (vm\<lparr>mappings := z\<rparr>) R = heap_ok h vm R" "heap_ok h (vm\<lparr>tlb_generation := g\<rparr>) R = heap_ok h vm R"
  by (simp_all add: heap_ok_def vm_blocks_def ptrs_ok_def)

lemma coherent_upd [simp]:
  "coherent h (vm\<lparr>l2_tables := x\<rparr>) = coherent h vm" "coherent h (vm\<lparr>l3_tables := y\<rparr>) = coherent h vm"
  "coherent h (vm\<lparr>tlb_generation := g\<rparr>) = coherent h vm"
  by (simp_all add: coherent_def)

lemma set_pmem_sel [simp]:
  "phys (set_pmem s m) = (phys s)\<lparr>pmem := m\<rparr>" "hw (set_pmem s m) = hw s" "kheap (set_pmem s m) = kheap s"
  by (simp_all add: set_pmem_def)

lemma set_mem_hw_sel [simp]:
  "phys (set_mem_hw s (m, h)) = (phys s)\<lparr>pmem := m\<rparr>" "hw (set_mem_hw s (m, h)) = h" "kheap (set_mem_hw s (m, h)) = kheap s"
  by (simp_all add: set_mem_hw_def)

lemma same_rest_mem [simp]: "same_rest s (set_pmem s m)" "same_rest s (set_mem_hw s mh)"
  by (simp_all add: same_rest_def set_pmem_def set_mem_hw_def)

lemma vm_stepI:
  assumes "vm_inv e s vm P R" "same_rest s s'" "kheap s' = kheap s" "owns e (phys s') P'" "vm_ok (pmem (phys s')) vm'"
    "set (tables_of vm') \<subseteq> P'" "heap_ok (kheap s) vm' R" "same_id vm vm'" "counts_ok vm'" "coherent (hw s') vm'"
    "P' - set (tables_of vm') = P - set (tables_of vm)"
    "\<And>p x. p \<in> P - set (tables_of vm) \<Longrightarrow> in_page p x \<Longrightarrow> pmem (phys s') x = pmem (phys s) x"
    "tlb_le (hw s') (hw s)"
  shows "vm_step e R (s, vm, P) (s', vm', P')"
proof -
  have "ident_ok vm'" using vm_invD(6)[OF assms(1)] assms(8) by (auto simp: same_id_def ident_ok_def)
  then show ?thesis using assms vm_invD(9)[OF assms(1)] by (simp add: vm_step_def vm_inv_def)
qed

lemma owns_valid:
  assumes "owns e ph P" "p \<in> P" "unat (ram_end e) \<le> 2 ^ 48"
  shows "table_address_valid p"
proof -
  note O = owns_page[OF assms(1,2)]
  have "unat p < 2 ^ 48" using O(3) assms(3) by linarith
  then have "take_bit 48 p = p" by (simp add: word_unat_eq_iff unsigned_take_bit_eq take_bit_nat_eq_self)
  then have b: "bit p n \<Longrightarrow> n < 48" for n by (metis bit_take_bit_iff)
  have "p AND NOT ARM64_TABLE_MASK = 0"
  proof (rule bit_word_eqI)
    fix n assume n: "n < LENGTH(64)"
    have "p AND NOT ARM64_TABLE_MASK = p AND NOT (push_bit 12 (mask 36))"
      by (simp add: ARM64_TABLE_MASK_def mask_eq_exp_minus_1)
    moreover have "\<not> bit p n" if "n < 12"
    proof -
      have "take_bit 12 p = 0" using O(1) by (simp add: page_mask take_bit_eq_mask mask_eq_exp_minus_1)
      then have "\<not> bit (take_bit 12 p) n" by simp
      then show ?thesis using that by (simp add: bit_take_bit_iff)
    qed
    ultimately show "bit (p AND NOT ARM64_TABLE_MASK) n = bit (0 :: u64) n"
      using n b[of n] by (cases "n < 12") (auto simp: bit_simps not_less)
  qed
  then show ?thesis using O(1) by (simp add: table_address_valid_def page_mask)
qed

text \<open>A page fresh from the allocator is none of the tables and lies outside every owned page.\<close>

lemma fresh_outside:
  assumes "owns e ph (insert p P)" "p \<notin> P" "q \<in> P" "in_page q x"
  shows "\<not> in_page p x"
  using assms pages_apart[of p q x] owns_page(1)[OF assms(1)] by auto

lemma find_l2D: "find_l2 vm va = Some u \<Longrightarrow> u \<in> set (l2_tables vm) \<and> l2_l1 u = l1_index va"
  "find_l2 vm va = None \<Longrightarrow> l1_index va \<notin> l2_l1 ` set (l2_tables vm)"
  by (auto simp: find_l2_def find_None_iff find_Some_iff)

lemma find_l3D: "find_l3 vm va = Some t \<Longrightarrow> t \<in> set (l3_tables vm) \<and> l3_key t = va_key va"
  "find_l3 vm va = None \<Longrightarrow> va_key va \<notin> l3_key ` set (l3_tables vm)"
  by (auto simp: find_l3_def find_None_iff find_Some_iff l3_key_def va_key_def)

lemma push_39: "push_bit 39 1 \<le> va \<longleftrightarrow> \<not> unat (va :: u64) < 2 ^ 39"
  by (simp add: word_le_nat_alt not_less)

text \<open>Giving back a page that was allocated, never used as a table, and written only inside.\<close>

lemma undo_alloc:
  assumes inv: "vm_inv e s vm P R" and own: "owns e ph (insert p P)" "p \<notin> P"
    and mem: "\<And>x. \<not> in_page p x \<Longrightarrow> pmem ph x = pmem (phys s) x"
  shows "vm_step e R (s, vm, P) (snd (arm64_vm_free_pages e (s\<lparr>phys := ph\<rparr>) p 1), vm, P)"
proof -
  note I = vm_invD[OF inv]
  obtain ph' where ph': "arm64_vm_free_pages e (s\<lparr>phys := ph\<rparr>) p 1 = (0, s\<lparr>phys := ph'\<rparr>)" "owns e ph' (insert p P - {p})"
    "pmem ph' = pmem ph"
    using free_page_owned[of e "s\<lparr>phys := ph\<rparr>" "insert p P" p] own(1) by auto
  have same: "pmem ph' x = pmem (phys s) x" if "q \<in> P" "in_page q x" for q x
    using fresh_outside[OF own that] mem ph'(3) by simp
  have "vm_ok (pmem ph') vm" using vm_ok_outside[OF I(1)] same I(4) by blast
  then have "vm_step e R (s, vm, P) (s\<lparr>phys := ph'\<rparr>, vm, P)"
    using ph'(2) own(2) I same by (intro vm_stepI[OF inv]) (auto simp: same_id_def)
  then show ?thesis using ph'(1) by simp
qed

lemma zero_frame: "\<not> in_page p x \<Longrightarrow> set_range m p 4096 0 x = m x"
  by (simp add: set_range_def in_page_def)

lemma zero_vm_ok:
  assumes "vm_inv e s vm P R" "owns e ph (insert p P)" "p \<notin> P"
  shows "vm_ok (set_range (pmem (phys s)) p 4096 0) vm"
  using vm_ok_outside[OF vm_invD(1)[OF assms(1)]] vm_invD(4)[OF assms(1)] fresh_outside[OF assms(2,3)] zero_frame by blast

lemma install_frame:
  assumes "owns e ph (insert p P)" "p \<notin> P" "t \<in> P" "q \<in> P" "q \<noteq> t" "in_page q x" "i < 512"
  shows "set_entry (clear_table (set_range m p 4096 0) p) t i d x = m x"
proof -
  have "\<not> in_page p x" using fresh_outside[OF assms(1,2,4,6)] .
  moreover have "\<not> in_page t x" using pages_apart[of t q x] assms owns_page(1)[OF assms(1)] by auto
  moreover have "page p" "page t" using owns_page(1)[OF assms(1)] assms(3) by auto
  ultimately show ?thesis using assms(7) by (simp add: set_entry_outside clear_table_outside zero_frame)
qed

lemma ensure_l2_step:
  assumes inv: "vm_inv e s vm P R"
  obtains r tbl vm' s' P' where "ensure_l2 e vm s va = Some (r, tbl, vm', s')" "vm_step e R (s, vm, P) (s', vm', P')"
    "mappings vm' = mappings vm" "l3_tables vm' = l3_tables vm" "mapping_capacity vm' = mapping_capacity vm"
    "r = 0 \<Longrightarrow> \<exists>u \<in> set (l2_tables vm'). l2_table u = tbl \<and> l2_l1 u = l1_index va"
proof (cases "find_l2 vm va")
  case (Some u)
  then show ?thesis
    using find_l2D(1)[OF Some] by (intro that[OF _ vm_step_refl[OF inv]]) (auto simp: ensure_l2_def)
next
  case None
  obtain r1 vm1 s1 where R1: "reserve_l2_tables vm s (item_count (l2_tables vm) + 1) = Some (r1, vm1, s1)"
    "vm_step e R (s, vm, P) (s1, vm1, P)" "mappings vm1 = mappings vm" "l2_tables vm1 = l2_tables vm" "l3_tables vm1 = l3_tables vm"
    "mapping_capacity vm1 = mapping_capacity vm" "r1 = 0 \<and> length (l2_tables vm) < unat (l2_table_capacity vm1) \<or> r1 = -1"
    by (rule reserve_l2_step[OF inv])
  have inv1: "vm_inv e s1 vm1 P R" using R1(2) by (simp add: vm_step_def)
  note I = vm_invD[OF inv1] and res = that
  have fail: ?thesis if "ensure_l2 e vm s va = Some (r, 0, vm1, s')" "r \<noteq> 0" "vm_step e R (s1, vm1, P) (s', vm1, P)" for r s'
    using that R1 by (intro res[OF that(1) vm_step_trans[OF R1(2) that(3)]]) auto
  show ?thesis
  proof (cases "r1 = 0")
    case False
    then show ?thesis using None R1(1) by (intro fail[of "-1", OF _ _ vm_step_refl[OF inv1]]) (auto simp: ensure_l2_def)
  next
    case True
    from I(3) show ?thesis
    proof (cases rule: alloc_page_cases)
      case none
      then show ?thesis using None R1(1) True by (intro fail[of "-1", OF _ _ vm_step_refl[OF inv1]]) (auto simp: ensure_l2_def)
    next
      case (some p ph)
      let ?i = "arm64_mmu_install_user_l2 (pmem ph) (l1 vm1) p va"
      note Z = zero_vm_ok[OF inv1 some(2,3), folded some(7)]
      show ?thesis
      proof (cases "fst ?i = 0")
        case False
        then have "snd ?i = pmem ph" by (auto simp: arm64_mmu_install_user_l2_def split: if_splits)
        then have "ensure_l2 e vm s va = Some (-2, 0, vm1, snd (arm64_vm_free_pages e (s1\<lparr>phys := ph\<rparr>) p 1))"
          using None R1(1) True some(1) False by (auto simp: ensure_l2_def set_pmem_def split: prod.splits)
        then show ?thesis
          by (rule fail) (use undo_alloc[OF inv1 some(2,3)] some(7) zero_frame in auto)
      next
        case installed: True
        let ?m = "set_entry (clear_table (pmem ph) p) (l1 vm1) (l1_index va) (table_descriptor p)"
        let ?vm = "vm1\<lparr>l2_tables := l2_tables vm1 @ [\<lparr>l2_l1 = l1_index va, l2_table = p\<rparr>]\<rparr>"
        have i: "?i = (0, ?m)" using installed by (auto simp: arm64_mmu_install_user_l2_def split: if_splits)
        have pv: "table_address_valid p" using owns_valid[OF some(2) _ I(9)] by simp
        have pn: "p \<notin> set (tables_of vm1)" using some(3) I(4) by blast
        have new: "l1_index va \<notin> l2_l1 ` set (l2_tables vm1)" using find_l2D(2)[OF None] R1(4) by simp
        have ok: "vm_ok ?m ?vm" by (rule add_l2[OF Z index_less(1) new pv some(4) pn])
        have l1P: "l1 vm1 \<in> P" using I(4) by (simp add: tables_of_def)
        have ts: "set (tables_of ?vm) = insert p (set (tables_of vm1))" by (auto simp: tables_of_def)
        have fr: "?m x = pmem (phys s1) x" if "q \<in> P - set (tables_of vm1)" "in_page q x" for q x
          unfolding some(7) using that by (intro install_frame[OF some(2,3) l1P, of q]) (auto simp: tables_of_def)
        have step: "vm_step e R (s1, vm1, P) (set_pmem (s1\<lparr>phys := ph\<rparr>) ?m, ?vm, insert p P)"
          using I some(2,3) ok ts fr R1(4,7) True pn
          by (intro vm_stepI[OF inv1 same_rest_trans[OF same_rest_upd(1) same_rest_mem(1)]]) (auto simp: same_id_def counts_ok_def)
        have run: "ensure_l2 e vm s va = Some (0, p, ?vm, set_pmem (s1\<lparr>phys := ph\<rparr>) ?m)"
          using None R1(1) True some(1) i by (simp add: ensure_l2_def)
        show ?thesis by (rule that[OF run vm_step_trans[OF R1(2) step]]) (use R1 in auto)
      qed
    qed
  qed
qed

text \<open>The part of \<open>ensure_l3\<close> after the second-level table is there.\<close>

lemma ensure_l3_tail:
  assumes inv: "vm_inv e s vm P R" and u: "u \<in> set (l2_tables vm)" "l2_l1 u = l1_index va"
    and new: "va_key va \<notin> l3_key ` set (l3_tables vm)" and room: "length (l3_tables vm) < unat (l3_table_capacity vm)"
    and p: "owns e ph (insert p P)" "p \<notin> P" "p \<noteq> 0" "pmem ph = set_range (pmem (phys s)) p 4096 0"
    and i: "arm64_mmu_install_user_l3 (pmem ph) (l2_table u) p va = (0, m)"
  shows "vm_step e R (s, vm, P) (set_pmem (s\<lparr>phys := ph\<rparr>) m,
    vm\<lparr>l3_tables := l3_tables vm @ [\<lparr>l3_l1 = l1_index va, l3_l2 = l2_index va, l3_table = p\<rparr>]\<rparr>, insert p P)"
proof -
  note I = vm_invD[OF inv]
  let ?vm = "vm\<lparr>l3_tables := l3_tables vm @ [\<lparr>l3_l1 = l1_index va, l3_l2 = l2_index va, l3_table = p\<rparr>]\<rparr>"
  have m: "m = set_entry (clear_table (pmem ph) p) (l2_table u) (l2_index va) (table_descriptor p)"
    using i by (auto simp: arm64_mmu_install_user_l3_def split: if_splits)
  have pv: "table_address_valid p" using owns_valid[OF p(1) _ I(9)] by simp
  have pn: "p \<notin> set (tables_of vm)" using p(2) I(4) by blast
  have ok: "vm_ok m ?vm"
    unfolding m by (rule add_l3[OF zero_vm_ok[OF inv p(1,2), folded p(4)] u index_less(2) new[unfolded va_key_def] pv p(3) pn])
  have uT: "l2_table u \<in> set (tables_of vm)" using u(1) by (simp add: tables_of_def)
  then have uP: "l2_table u \<in> P" using I(4) by blast
  have ts: "set (tables_of ?vm) = insert p (set (tables_of vm))" by (auto simp: tables_of_def)
  have fr: "m x = pmem (phys s) x" if "q \<in> P - set (tables_of vm)" "in_page q x" for q x
    unfolding m p(4) using that uT by (intro install_frame[OF p(1,2) uP, of q]) auto
  show ?thesis
    using I p(1,2) ok ts fr room pn
    by (intro vm_stepI[OF inv same_rest_trans[OF same_rest_upd(1) same_rest_mem(1)]]) (auto simp: same_id_def counts_ok_def)
qed

lemma ensure_l3_step:
  assumes inv: "vm_inv e s vm P R"
  obtains r tbl vm' s' P' where "ensure_l3 e vm s va = Some (r, tbl, vm', s')" "vm_step e R (s, vm, P) (s', vm', P')"
    "mappings vm' = mappings vm" "mapping_capacity vm' = mapping_capacity vm"
    "r = 0 \<Longrightarrow> \<exists>t \<in> set (l3_tables vm'). l3_table t = tbl \<and> l3_key t = va_key va"
proof (cases "find_l3 vm va")
  case (Some t)
  then show ?thesis
    using find_l3D(1)[OF Some] by (intro that[OF _ vm_step_refl[OF inv]]) (auto simp: ensure_l3_def)
next
  case None
  obtain r1 tbl1 vm1 s1 P1 where E: "ensure_l2 e vm s va = Some (r1, tbl1, vm1, s1)" "vm_step e R (s, vm, P) (s1, vm1, P1)"
    "mappings vm1 = mappings vm" "l3_tables vm1 = l3_tables vm" "mapping_capacity vm1 = mapping_capacity vm"
    "r1 = 0 \<Longrightarrow> \<exists>u \<in> set (l2_tables vm1). l2_table u = tbl1 \<and> l2_l1 u = l1_index va"
    by (rule ensure_l2_step[OF inv]) blast
  have inv1: "vm_inv e s1 vm1 P1 R" using E(2) by (simp add: vm_step_def)
  obtain r2 vm2 s2 where R2: "reserve_l3_tables vm1 s1 (item_count (l3_tables vm1) + 1) = Some (r2, vm2, s2)"
    "vm_step e R (s1, vm1, P1) (s2, vm2, P1)" "mappings vm2 = mappings vm1" "l2_tables vm2 = l2_tables vm1" "l3_tables vm2 = l3_tables vm1"
    "mapping_capacity vm2 = mapping_capacity vm1" "r2 = 0 \<and> length (l3_tables vm1) < unat (l3_table_capacity vm2) \<or> r2 = -1"
    by (rule reserve_l3_step[OF inv1])
  have inv2: "vm_inv e s2 vm2 P1 R" using R2(2) by (simp add: vm_step_def)
  note I = vm_invD[OF inv2] and res = that and steps = vm_step_trans[OF E(2) R2(2)]
  have fail: ?thesis if "ensure_l3 e vm s va = Some (r, 0, vm2, s')" "r \<noteq> 0" "vm_step e R (s2, vm2, P1) (s', vm2, P1)" for r s'
    using that E R2 by (intro res[OF that(1) vm_step_trans[OF steps that(3)]]) auto
  show ?thesis
  proof (cases "r1 = 0 \<and> r2 = 0")
    case False
    then consider "r1 \<noteq> 0" | "r1 = 0" "r2 \<noteq> 0" by blast
    then show ?thesis
    proof cases
      case 1
      then show ?thesis using None E by (intro res[of r1 0 vm1 s1, OF _ E(2)]) (auto simp: ensure_l3_def)
    next
      case 2
      then show ?thesis using None E(1) R2(1) by (intro fail[of "-3", OF _ _ vm_step_refl[OF inv2]]) (auto simp: ensure_l3_def)
    qed
  next
    case True
    then obtain u where u: "u \<in> set (l2_tables vm2)" "l2_table u = tbl1" "l2_l1 u = l1_index va" using E(6) R2(4) by auto
    from I(3) show ?thesis
    proof (cases rule: alloc_page_cases)
      case none
      then show ?thesis using None E(1) R2(1) True by (intro fail[of "-3", OF _ _ vm_step_refl[OF inv2]]) (auto simp: ensure_l3_def)
    next
      case (some p ph)
      obtain r m where i: "arm64_mmu_install_user_l3 (pmem ph) tbl1 p va = (r, m)" by fastforce
      show ?thesis
      proof (cases "r = 0")
        case False
        then have "m = pmem ph" using i by (auto simp: arm64_mmu_install_user_l3_def split: if_splits)
        then have "ensure_l3 e vm s va = Some (-4, 0, vm2, snd (arm64_vm_free_pages e (s2\<lparr>phys := ph\<rparr>) p 1))"
          using None E(1) R2(1) True some(1) i False by (simp add: ensure_l3_def set_pmem_def)
        then show ?thesis by (rule fail) (use undo_alloc[OF inv2 some(2,3)] some(7) zero_frame in auto)
      next
        case zero: True
        have new: "va_key va \<notin> l3_key ` set (l3_tables vm2)" using find_l3D(2)[OF None] E(4) R2(5) by simp
        have step: "vm_step e R (s2, vm2, P1) (set_pmem (s2\<lparr>phys := ph\<rparr>) m, vm2\<lparr>l3_tables := l3_tables vm2 @
            [\<lparr>l3_l1 = l1_index va, l3_l2 = l2_index va, l3_table = p\<rparr>]\<rparr>, insert p P1)" (is "vm_step _ _ _ (?s, ?vm, _)")
          using ensure_l3_tail[OF inv2 u(1,3) new _ some(2,3,4,7)] i zero u(2) R2(5,7) True by auto
        have run: "ensure_l3 e vm s va = Some (0, p, ?vm, ?s)"
          using None E(1) R2(1) True some(1) i zero by (simp add: ensure_l3_def)
        show ?thesis
          by (rule res[OF run vm_step_trans[OF steps step]]) (use E R2 in \<open>auto simp: l3_key_def va_key_def\<close>)
      qed
    qed
  qed
qed

subsection \<open>Reclaiming empty tables\<close>

lemma swap_remove_mset:
  assumes "i < length xs"
  shows "mset (swap_remove xs i) = mset xs - {#xs ! i#}"
proof -
  have ne: "xs \<noteq> []" using assms by auto
  have "mset (xs[i := last xs]) = mset (swap_remove xs i) + {#last xs#}"
  proof -
    have "xs[i := last xs] = swap_remove xs i @ [last xs]"
    proof (cases "i = length xs - 1")
      case True
      then have "xs[i := last xs] = xs" using ne by (simp add: last_conv_nth)
      then show ?thesis using ne by (simp add: swap_remove_def)
    next
      case False
      then have "last (xs[i := last xs]) = last xs" using ne assms by (simp add: last_conv_nth)
      then show ?thesis using ne by (metis append_butlast_last_id list_update_nonempty swap_remove_def)
    qed
    then show ?thesis by simp
  qed
  moreover have "mset (xs[i := last xs]) = add_mset (last xs) (mset xs - {#xs ! i#})" by (rule mset_update[OF assms])
  ultimately show ?thesis by simp
qed

lemma swap_remove_distinct:
  assumes "i < length xs" "distinct (map f xs)"
  shows "set (swap_remove xs i) = set xs - {xs ! i}" "distinct (map f (swap_remove xs i))"
    "length (swap_remove xs i) = length xs - 1"
proof -
  note M = swap_remove_mset[OF assms(1)]
  have d: "distinct xs" using assms(2) by (simp add: distinct_map)
  have perm: "mset (swap_remove xs i) = mset (remove1 (xs ! i) xs)" using M by simp
  then have "set (swap_remove xs i) = set (remove1 (xs ! i) xs)" by (metis set_mset_mset)
  then show "set (swap_remove xs i) = set xs - {xs ! i}" using d by (simp add: set_remove1_eq)
  have "distinct (remove1 (xs ! i) xs)" using d by simp
  then have "distinct (swap_remove xs i)" using perm by (metis mset_eq_imp_distinct_iff)
  then show "distinct (map f (swap_remove xs i))"
    using assms(2) \<open>set (swap_remove xs i) = set xs - {xs ! i}\<close> by (auto simp: distinct_map inj_on_def)
  show "length (swap_remove xs i) = length xs - 1" by (simp add: swap_remove_def)
qed

lemma swap_remove_image:
  assumes "i < length xs" "distinct (map f xs)"
  shows "f ` set (swap_remove xs i) = f ` set xs - {f (xs ! i)}"
proof -
  have "inj_on f (set xs)" using assms(2) by (simp add: distinct_map)
  then show ?thesis
    using inj_on_image_set_diff[of f "set xs" "set xs" "{xs ! i}"] swap_remove_distinct(1)[OF assms] assms(1) by simp
qed

lemma index_where_nth:
  assumes "x \<in> set xs" "Q x"
  shows "index_where Q xs < length xs" "Q (xs ! index_where Q xs)"
  using assms by (induction xs) (auto simp: index_where_def)

lemma invalidate_coherent [simp]: "coherent h vm \<Longrightarrow> coherent (invalidate_user_page h va a) vm"
  by (auto simp: coherent_def invalidate_user_page_def)

text \<open>A table that no record points into is empty, as the hardware sees it.\<close>

lemma l3_empty:
  assumes "vm_ok m vm" "t \<in> set (l3_tables vm)" "\<And>q. q \<in> set (mappings vm) \<Longrightarrow> va_key (virtual_address q) \<noteq> l3_key t"
  shows "user_table_is_empty m (l3_table t)"
proof -
  have "table_entry m (l3_table t) (of_nat i) = 0" if "i < 512" for i
    using assms that tables_okD(6)[of m vm t "of_nat i"] by (auto simp: vm_ok_def word_less_nat_alt unat_of_nat64)
  then show ?thesis by (simp add: user_table_is_empty_def list_all_iff)
qed

lemma l2_empty:
  assumes "vm_ok m vm" "u \<in> set (l2_tables vm)" "\<And>t. t \<in> set (l3_tables vm) \<Longrightarrow> l3_l1 t \<noteq> l2_l1 u"
  shows "user_table_is_empty m (l2_table u)"
proof -
  have "(l2_l1 u, j) \<notin> l3_key ` set (l3_tables vm)" for j using assms(3) by (fastforce simp: l3_key_def)
  then have "table_entry m (l2_table u) (of_nat i) = 0" if "i < 512" for i
    using assms that tables_okD(4)[of m vm u "of_nat i"] by (auto simp: vm_ok_def word_less_nat_alt unat_of_nat64)
  then show ?thesis by (simp add: user_table_is_empty_def list_all_iff)
qed

text \<open>Unlinking a table \<open>t\<close> from its parent \<open>d\<close> and giving its page back.\<close>

lemma drop_table_step:
  assumes inv: "vm_inv e s vm P R" and t: "t \<in> set (tables_of vm)" and d: "d \<in> set (tables_of vm)" "d \<noteq> t" and i: "i < 512"
    and ok: "vm_ok (set_entry (pmem (phys s)) d i 0) vm'" and ts: "set (tables_of vm') = set (tables_of vm) - {t}"
    and same: "same_id vm vm'" "heap_ok (kheap s) vm' R" "counts_ok vm'" "mappings vm' = mappings vm"
    and free: "arm64_vm_free_pages e (set_mem_hw s (set_entry (pmem (phys s)) d i 0, invalidate_user_page (hw s) va a)) t 1 = (r, s')"
  shows "r = 0" "vm_step e R (s, vm, P) (s', vm', P - {t})"
proof -
  note I = vm_invD[OF inv]
  let ?m = "set_entry (pmem (phys s)) d i 0"
  let ?s = "set_mem_hw s (?m, invalidate_user_page (hw s) va a)"
  have tP: "t \<in> P" "d \<in> P" using I(4) t d(1) by blast+
  have "owns e (phys ?s) P" using I(3) by simp
  then obtain ph where ph: "arm64_vm_free_pages e ?s t 1 = (0, ?s\<lparr>phys := ph\<rparr>)" "owns e ph (P - {t})" "pmem ph = pmem (phys ?s)"
    using free_page_owned[of e ?s P t] tP(1) by blast
  then have s': "r = 0" "s' = ?s\<lparr>phys := ph\<rparr>" using free by auto
  show "r = 0" by (rule s')
  have "asid vm' = asid vm" using same(1) by (simp add: same_id_def)
  then have "coherent (hw s') vm'" using I(8) same(4) s'(2) invalidate_coherent[OF I(8)] by (simp add: coherent_def)
  moreover have "?m x = pmem (phys s) x" if "q \<in> P - set (tables_of vm)" "in_page q x" for q x
  proof -
    have "page d" "page q" using owns_page(1)[OF I(3)] tP that(1) by auto
    moreover have "q \<noteq> d" using that(1) d(1) by blast
    ultimately show ?thesis using pages_apart[of d q x] that(2) i by (intro set_entry_outside) auto
  qed
  moreover have "same_rest s s'" using s'(2) same_rest_trans[OF same_rest_mem(2) same_rest_upd(1)] by simp
  ultimately show "vm_step e R (s, vm, P) (s', vm', P - {t})"
    using I(4) ph(2,3) s'(2) ok same ts t by (intro vm_stepI[OF inv]) auto
qed

lemma reclaim_l3_step:
  assumes inv: "vm_inv e s vm P R" and run: "reclaim_l3 e vm s va = (r, vm', s')"
  shows "\<exists>P'. vm_step e R (s, vm, P) (s', vm', P')" "mappings vm' = mappings vm" "user_va va \<Longrightarrow> r = 0"
proof -
  note I = vm_invD[OF inv] and RD = records_okD[OF vm_invD(2)[OF inv]]
  have "(\<exists>P'. vm_step e R (s, vm, P) (s', vm', P')) \<and> mappings vm' = mappings vm \<and> (user_va va \<longrightarrow> r = 0)"
  proof (cases "find_l3 vm va = None \<or> l3_has_mapping vm (l1_index va) (l2_index va)")
    case True
    then show ?thesis using run vm_step_refl[OF inv] by (auto simp: reclaim_l3_def split: option.splits)
  next
    case busy: False
    then obtain t where t: "find_l3 vm va = Some t" "t \<in> set (l3_tables vm)" "l3_key t = va_key va" using find_l3D(1) by fastforce
    then have tk: "l3_l1 t = l1_index va" "l3_l2 t = l2_index va" by (auto simp: l3_key_def va_key_def)
    obtain u where u: "find_l2 vm va = Some u" "u \<in> set (l2_tables vm)" "l2_l1 u = l1_index va"
      using find_l2D[of vm va] RD(6)[OF t(2)] tk by (cases "find_l2 vm va") auto
    have nomap: "va_key (virtual_address q) \<noteq> l3_key t" if "q \<in> set (mappings vm)" for q
      using busy that RD(8)[OF that] tk by (auto simp: l3_has_mapping_def list_ex_iff mapping_ok_def l3_key_def va_key_def)
    have T: "l3_table t \<in> set (tables_of vm)" "l2_table u \<in> set (tables_of vm)" using t(2) u(2) by (auto simp: tables_of_def)
    have val: "table_address_valid (l2_table u)" "table_address_valid (l3_table t)" using RD(2) T by auto
    have ne: "l2_table u \<noteq> l3_table t" using table_ne(3)[OF I(2) u(2) t(2)] .
    have ent: "table_entry (pmem (phys s)) (l2_table u) (l2_index va) = table_descriptor (l3_table t)"
      using tables_okD(3)[of "pmem (phys s)" vm u t] I(1) u t tk by (simp add: vm_ok_def)
    have asid: "arm64_asid_hw (asid vm) \<noteq> 0" using I(6) by (simp add: ident_ok_def)
    let ?m = "set_entry (pmem (phys s)) (l2_table u) (l2_index va) 0" and ?h = "invalidate_user_page (hw s) va (arm64_asid_hw (asid vm))"
    have rm: "arm64_mmu_remove_user_l3 (pmem (phys s)) (hw s) (l2_table u) (l3_table t) va (arm64_asid_hw (asid vm)) =
        (if user_va va then (0, ?m, ?h) else (-1, pmem (phys s), hw s))"
      using val ne asid asid_hw_le[of "asid vm"] l3_empty[OF I(1) t(2) nomap] table_descriptor_fields[OF val(2)]
      by (simp add: arm64_mmu_remove_user_l3_def remove_user_table_def ent word_le_nat_alt not_le user_va_def page_mask)
    show ?thesis
    proof (cases "user_va va")
      case False
      then have "reclaim_l3 e vm s va = (-1, vm, s)"
        using t(1) u(1) busy rm by (simp add: reclaim_l3_def set_mem_hw_def set_pmem_def)
      then show ?thesis using run vm_step_refl[OF inv] False by auto
    next
      case user: True
      let ?i = "index_where (\<lambda>w. l3_table w = l3_table t) (l3_tables vm)"
      let ?vm = "vm\<lparr>l3_tables := swap_remove (l3_tables vm) ?i\<rparr>"
      note ix = index_where_nth[of t "l3_tables vm" "\<lambda>w. l3_table w = l3_table t", OF t(2) refl]
      have it: "l3_tables vm ! ?i = t" using table_inj(3)[OF I(2) nth_mem[OF ix(1)] t(2) ix(2)] .
      have dt: "distinct (map l3_table (l3_tables vm))" using RD(1) by (simp add: tables_of_def)
      note sr = swap_remove_distinct[OF ix(1) RD(5)] swap_remove_distinct(2)[OF ix(1) dt]
      have ok: "vm_ok ?m ?vm"
        using del_l3[OF I(1) t(2) u(2) _ nomap] sr it u(3) tk by simp
      have ts: "set (tables_of ?vm) = set (tables_of vm) - {l3_table t}"
        using swap_remove_image[OF ix(1) dt] it RD(1) t(2) by (auto simp: tables_of_def)
      have c: "counts_ok ?vm" using I(7) sr(3) by (auto simp: counts_ok_def)
      obtain r' s2 where f: "arm64_vm_free_pages e (set_mem_hw s (?m, ?h)) (l3_table t) 1 = (r', s2)" by fastforce
      note D = drop_table_step[OF inv T ne index_less(2) ok ts _ _ c _ f]
      have D': "r' = 0" "vm_step e R (s, vm, P) (s2, ?vm, P - {l3_table t})" using D I(5) by (simp_all add: same_id_def)
      have "reclaim_l3 e vm s va = (0, ?vm, s2)"
        using t(1) u(1) busy rm user f D'(1) ix(1) by (simp add: reclaim_l3_def)
      then show ?thesis using run D'(2) by auto
    qed
  qed
  then show "\<exists>P'. vm_step e R (s, vm, P) (s', vm', P')" "mappings vm' = mappings vm" "user_va va \<Longrightarrow> r = 0" by blast+
qed

lemma reclaim_l2_step:
  assumes inv: "vm_inv e s vm P R" and run: "reclaim_l2 e vm s va = (r, vm', s')"
  shows "\<exists>P'. vm_step e R (s, vm, P) (s', vm', P')" "mappings vm' = mappings vm" "user_va va \<Longrightarrow> r = 0"
proof -
  note I = vm_invD[OF inv] and RD = records_okD[OF vm_invD(2)[OF inv]]
  have "(\<exists>P'. vm_step e R (s, vm, P) (s', vm', P')) \<and> mappings vm' = mappings vm \<and> (user_va va \<longrightarrow> r = 0)"
  proof (cases "find_l2 vm va = None \<or> l2_has_l3 vm (l1_index va)")
    case True
    then show ?thesis using run vm_step_refl[OF inv] by (auto simp: reclaim_l2_def split: option.splits)
  next
    case busy: False
    then obtain u where u: "find_l2 vm va = Some u" "u \<in> set (l2_tables vm)" "l2_l1 u = l1_index va" using find_l2D(1) by fastforce
    have nol3: "l3_l1 t \<noteq> l2_l1 u" if "t \<in> set (l3_tables vm)" for t
      using busy that u(3) by (auto simp: l2_has_l3_def list_ex_iff)
    have T: "l2_table u \<in> set (tables_of vm)" "l1 vm \<in> set (tables_of vm)" using u(2) by (auto simp: tables_of_def)
    have val: "table_address_valid (l1 vm)" "table_address_valid (l2_table u)" using RD(2) T by auto
    have ne: "l1 vm \<noteq> l2_table u" using table_ne(1)[OF I(2) u(2)] .
    have ent: "table_entry (pmem (phys s)) (l1 vm) (l1_index va) = table_descriptor (l2_table u)"
      using tables_okD(1)[of "pmem (phys s)" vm u] I(1) u by (simp add: vm_ok_def)
    have asid: "arm64_asid_hw (asid vm) \<noteq> 0" using I(6) by (simp add: ident_ok_def)
    let ?m = "set_entry (pmem (phys s)) (l1 vm) (l1_index va) 0" and ?h = "invalidate_user_page (hw s) va (arm64_asid_hw (asid vm))"
    have rm: "arm64_mmu_remove_user_l2 (pmem (phys s)) (hw s) (l1 vm) (l2_table u) va (arm64_asid_hw (asid vm)) =
        (if user_va va then (0, ?m, ?h) else (-1, pmem (phys s), hw s))"
      using val ne asid asid_hw_le[of "asid vm"] l2_empty[OF I(1) u(2) nol3] table_descriptor_fields[OF val(2)]
      by (simp add: arm64_mmu_remove_user_l2_def remove_user_table_def ent word_le_nat_alt not_le user_va_def page_mask)
    show ?thesis
    proof (cases "user_va va")
      case False
      then have "reclaim_l2 e vm s va = (-4, vm, s)"
        using u(1) busy rm by (simp add: reclaim_l2_def set_mem_hw_def set_pmem_def)
      then show ?thesis using run vm_step_refl[OF inv] False by auto
    next
      case user: True
      let ?i = "index_where (\<lambda>w. l2_table w = l2_table u) (l2_tables vm)"
      let ?vm = "vm\<lparr>l2_tables := swap_remove (l2_tables vm) ?i\<rparr>"
      note ix = index_where_nth[of u "l2_tables vm" "\<lambda>w. l2_table w = l2_table u", OF u(2) refl]
      have iu: "l2_tables vm ! ?i = u" using table_inj(1)[OF I(2) nth_mem[OF ix(1)] u(2) ix(2)] .
      have dt: "distinct (map l2_table (l2_tables vm))" using RD(1) by (simp add: tables_of_def)
      note sr = swap_remove_distinct[OF ix(1) RD(3)] swap_remove_distinct(2)[OF ix(1) dt]
      have ok: "vm_ok ?m ?vm" using del_l2[OF I(1) u(2) nol3] sr iu u(3) by simp
      have ts: "set (tables_of ?vm) = set (tables_of vm) - {l2_table u}"
        using swap_remove_image[OF ix(1) dt] iu RD(1) u(2) by (auto simp: tables_of_def)
      have c: "counts_ok ?vm" using I(7) sr(3) by (auto simp: counts_ok_def)
      obtain r' s2 where f: "arm64_vm_free_pages e (set_mem_hw s (?m, ?h)) (l2_table u) 1 = (r', s2)" by fastforce
      note D = drop_table_step[OF inv T ne index_less(1) ok ts _ _ c _ f]
      have D': "r' = 0" "vm_step e R (s, vm, P) (s2, ?vm, P - {l2_table u})" using D I(5) by (simp_all add: same_id_def)
      have "reclaim_l2 e vm s va = (0, ?vm, s2)"
        using u(1) busy rm user f D'(1) ix(1) by (simp add: reclaim_l2_def)
      then show ?thesis using run D'(2) by auto
    qed
  qed
  then show "\<exists>P'. vm_step e R (s, vm, P) (s', vm', P')" "mappings vm' = mappings vm" "user_va va \<Longrightarrow> r = 0" by blast+
qed

lemma reclaim_step:
  assumes inv: "vm_inv e s vm P R"
  obtains r vm' s' P' where "reclaim_empty_tables e vm s va = (r, vm', s')" "vm_step e R (s, vm, P) (s', vm', P')"
    "mappings vm' = mappings vm" "user_va va \<longrightarrow> r = 0"
proof -
  obtain r1 vm1 s1 where a: "reclaim_l3 e vm s va = (r1, vm1, s1)" by (metis prod_cases3)
  note A = reclaim_l3_step[OF inv a]
  obtain P1 where P1: "vm_step e R (s, vm, P) (s1, vm1, P1)" using A(1) by blast
  show ?thesis
  proof (cases "r1 = 0")
    case False
    then have "reclaim_empty_tables e vm s va = (r1, vm1, s1)" using a by (simp add: reclaim_empty_tables_def)
    then show ?thesis using that[OF _ P1 A(2)] A(3) by blast
  next
    case True
    have inv1: "vm_inv e s1 vm1 P1 R" using P1 by (simp add: vm_step_def)
    obtain r2 vm2 s2 where b: "reclaim_l2 e vm1 s1 va = (r2, vm2, s2)" by (metis prod_cases3)
    note B = reclaim_l2_step[OF inv1 b]
    obtain P2 where P2: "vm_step e R (s1, vm1, P1) (s2, vm2, P2)" using B(1) by blast
    have "reclaim_empty_tables e vm s va = (r2, vm2, s2)" using a b True by (simp add: reclaim_empty_tables_def)
    then show ?thesis using that[OF _ vm_step_trans[OF P1 P2]] A(2) B(2,3) by simp
  qed
qed

end
