(* ===== verification/UserVM_Asid.thy ===== *)
theory UserVM_Asid
  imports UserVM_Steps
begin

text \<open>
  The mapping operations of \<open>user_vm.c\<close> as steps on the invariant of an address space, and the ASID pool:
  allocation, release, the generation rollover and activation keep hardware ASIDs apart.
\<close>

subsection \<open>The operations on mappings\<close>

lemma prot_valid: "arm64_user_vm_flags_valid f \<Longrightarrow> user_page_flags_valid (prot f)"
  by (simp add: arm64_user_vm_flags_valid_def user_page_flags_valid_def prot_def vma_flag_defs desc_defs and.assoc)

lemma new_tlb_step:
  assumes inv: "vm_inv e s vm P R"
  obtains vm' s' where "new_tlb_generation vm s = (vm', s')" "vm_step e R (s, vm, P) (s', vm', P)" "mappings vm' = mappings vm"
proof -
  obtain g s1 where g: "allocate_tlb_generation s = (g, s1)" by fastforce
  have s1: "phys s1 = phys s" "kheap s1 = kheap s" "hw s1 = hw s" "same_rest s s1"
    using g by (auto simp: allocate_tlb_generation_def Let_def same_rest_def split: if_splits)
  let ?vm = "vm\<lparr>tlb_generation := g\<rparr>" and ?s = "publish_targeted_generation s1 (vm\<lparr>tlb_generation := g\<rparr>)"
  have s2: "phys ?s = phys s" "kheap ?s = kheap s" "hw ?s = hw s" using s1 by (simp_all add: publish_targeted_generation_def)
  have rest: "same_rest s ?s"
    by (rule same_rest_trans[OF s1(4)]) (simp add: same_rest_def publish_targeted_generation_def)
  have run: "new_tlb_generation vm s = (?vm, ?s)" using g by (simp add: new_tlb_generation_def Let_def)
  have "vm_ok m ?vm = vm_ok m vm" "tables_of ?vm = tables_of vm" for m by (intro vm_ok_cong; simp)+
  then have "vm_step e R (s, vm, P) (?s, ?vm, P)"
    using vm_invD[OF inv] s2 rest by (intro vm_stepI[OF inv]) (simp_all add: same_id_def counts_ok_def)
  from that[OF run this] show ?thesis by simp
qed

lemma mapping_index_cases:
  assumes "records_ok vm"
  obtains (absent) "lookup_map vm va = None" "mapping_index vm va = length (mappings vm)"
  | (present) mp where "lookup_map vm va = Some mp" "mapping_index vm va < length (mappings vm)"
      "mappings vm ! mapping_index vm va = mp" "mp \<in> set (mappings vm)" "virtual_address mp = va"
proof (cases "\<exists>mp \<in> set (mappings vm). virtual_address mp = va")
  case False
  then show ?thesis
    by (intro absent) (auto simp: lookup_map_def find_None_iff mapping_index_def takeWhile_eq_all_conv intro!: arg_cong[of _ _ length])
next
  case True
  then obtain mp where mp: "mp \<in> set (mappings vm)" "virtual_address mp = va" by blast
  have ix: "mapping_index vm va = index_where (\<lambda>m. virtual_address m = va) (mappings vm)"
    by (simp add: mapping_index_def index_where_def)
  note N = index_where_nth[of mp "mappings vm" "\<lambda>m. virtual_address m = va", OF mp, folded ix]
  show ?thesis using N lookup_map_Some[OF assms] by (intro present[of "mappings vm ! mapping_index vm va"]) auto
qed

text \<open>One write into a last-level table.\<close>

lemma leaf_step:
  assumes inv: "vm_inv e s vm P R" and t: "t \<in> set (l3_tables vm)"
    and mem: "\<And>x. \<not> in_page (l3_table t) x \<Longrightarrow> m x = pmem (phys s) x"
    and ok: "vm_ok m (vm\<lparr>mappings := ms\<rparr>)" and len: "length ms \<le> unat (mapping_capacity vm)"
    and coh: "coherent h (vm\<lparr>mappings := ms\<rparr>)" and le: "tlb_le h (hw s)"
  shows "vm_step e R (s, vm, P) (set_mem_hw s (m, h), vm\<lparr>mappings := ms\<rparr>, P)"
proof -
  note I = vm_invD[OF inv]
  have tT: "l3_table t \<in> set (tables_of vm)" using t by (simp add: tables_of_def)
  then have tp: "page (l3_table t)" "l3_table t \<in> P" using owns_page(1)[OF I(3)] I(4) by auto
  have fr: "m x = pmem (phys s) x" if "q \<in> P - set (tables_of vm)" "in_page q x" for q x
    using that tT tp pages_apart[of "l3_table t" q x] owns_page(1)[OF I(3), of q] mem by auto
  show ?thesis using I ok len coh fr le by (intro vm_stepI[OF inv]) (auto simp: same_id_def counts_ok_def tables_of_def)
qed

lemma lookup_map_mem: "records_ok vm \<Longrightarrow> lookup_map vm va = None \<longleftrightarrow> (\<forall>mp \<in> set (mappings vm). virtual_address mp \<noteq> va)"
  by (auto simp: lookup_map_def find_None_iff)

lemma lookup_map_set:
  assumes "records_ok vm" "records_ok vm'" "set (mappings vm') = insert mp {q \<in> set (mappings vm). virtual_address q \<noteq> virtual_address mp}"
  shows "lookup_map vm' = (lookup_map vm)(virtual_address mp \<mapsto> mp)"
proof
  fix va
  have "lookup_map vm' va = Some q \<longleftrightarrow> ((lookup_map vm)(virtual_address mp \<mapsto> mp)) va = Some q" for q
    using lookup_map_Some[OF assms(1), of va q] lookup_map_Some[OF assms(2), of va q] assms(3) by auto
  then show "lookup_map vm' va = ((lookup_map vm)(virtual_address mp \<mapsto> mp)) va" by (metis option.exhaust)
qed

lemma lookup_map_del:
  assumes "records_ok vm" "records_ok vm'" "set (mappings vm') = {q \<in> set (mappings vm). virtual_address q \<noteq> va}"
  shows "lookup_map vm' = (lookup_map vm)(va := None)"
proof
  fix a
  have "lookup_map vm' a = Some q \<longleftrightarrow> ((lookup_map vm)(va := None)) a = Some q" for q
    using lookup_map_Some[OF assms(1), of a q] lookup_map_Some[OF assms(2), of a q] assms(3) by auto
  then show "lookup_map vm' a = ((lookup_map vm)(va := None)) a" by (metis option.exhaust)
qed

lemma vm_stepD: "vm_step e R (s, vm, P) (s', vm', P') \<Longrightarrow> vm_inv e s' vm' P' R \<and> asid vm' = asid vm \<and> l1 vm' = l1 vm"
  by (simp add: vm_step_def same_id_def)

lemma lookup_map_same: "mappings vm' = mappings vm \<Longrightarrow> lookup_map vm' = lookup_map vm"
  by (rule ext) (simp add: lookup_map_def)

text \<open>Writing a new descriptor: the page was not mapped, so its entry is clear and the write goes through.\<close>

lemma map_l3_step:
  assumes inv: "vm_inv e s vm P R" and t: "t \<in> set (l3_tables vm)" "l3_key t = va_key (virtual_address mp)"
    and new: "lookup_map vm (virtual_address mp) = None" and mp: "mapping_ok mp"
    and room: "length (mappings vm) < unat (mapping_capacity vm)"
  obtains mh where "arm64_mmu_map_user_l3_page (pmem (phys s)) (hw s) (l3_table t) (virtual_address mp) (physical_address mp)
      (prot (mflags mp)) (arm64_asid_hw (asid vm)) = (0, mh)"
    "vm_step e R (s, vm, P) (set_mem_hw s mh, vm\<lparr>mappings := mappings vm @ [mp]\<rparr>, P)"
    "lookup_map (vm\<lparr>mappings := mappings vm @ [mp]\<rparr>) = (lookup_map vm)(virtual_address mp \<mapsto> mp)"
proof -
  note I = vm_invD[OF inv] and RD = records_okD[OF vm_invD(2)[OF inv]]
  have fresh: "\<And>q. q \<in> set (mappings vm) \<Longrightarrow> virtual_address q \<noteq> virtual_address mp"
    using new lookup_map_mem[OF I(2)] by blast
  have uv: "user_va (virtual_address mp)" using mp by (simp add: mapping_ok_def)
  let ?va = "virtual_address mp"
  let ?m = "set_entry (pmem (phys s)) (l3_table t) (l3_index ?va) (mapping_desc mp)"
  let ?h = "invalidate_user_page (hw s) ?va (arm64_asid_hw (asid vm))" and ?vm = "vm\<lparr>mappings := mappings vm @ [mp]\<rparr>"
  have zero: "table_entry (pmem (phys s)) (l3_table t) (l3_index ?va) = 0"
  proof (rule tables_okD(6)[of _ vm])
    fix q assume q: "q \<in> set (mappings vm)" "va_key (virtual_address q) = l3_key t"
    then show "l3_index (virtual_address q) \<noteq> l3_index ?va"
      using va_index_inj[of "virtual_address q" ?va] fresh RD(8)[OF q(1)] uv t(2) by (auto simp: mapping_ok_def)
  qed (use I(1) t in \<open>simp_all add: vm_ok_def\<close>)
  have tv: "table_address_valid (l3_table t)" using RD(2)[of "l3_table t"] t(1) by (simp add: tables_of_def)
  have pv: "user_page_flags_valid (prot (mflags mp))" "physical_address mp AND 0xFFF = 0"
    using mp prot_valid by (simp_all add: mapping_ok_def table_address_valid_def)
  have as: "arm64_asid_hw (asid vm) \<noteq> 0" using I(6) by (simp add: ident_ok_def)
  have run: "arm64_mmu_map_user_l3_page (pmem (phys s)) (hw s) (l3_table t) ?va (physical_address mp)
      (prot (mflags mp)) (arm64_asid_hw (asid vm)) = (0, ?m, ?h)"
    using zero tv pv uv as asid_hw_le[of "asid vm"]
    by (simp add: arm64_mmu_map_user_l3_page_def user_va_def page_mask word_le_nat_alt not_le mapping_desc_def)
  have ok: "vm_ok ?m ?vm"
    using fresh RD(7) by (intro add_mapping[OF I(1) t mp fresh]) (auto dest: sym)
  have "coherent ?h ?vm" using invalidate_coherent[OF I(8), of ?va "arm64_asid_hw (asid vm)"] by (fastforce simp: coherent_def)
  moreover have "\<not> in_page (l3_table t) x \<Longrightarrow> ?m x = pmem (phys s) x" for x
    using set_entry_outside[OF valid_page[OF tv] index_less(3)] by blast
  ultimately have step: "vm_step e R (s, vm, P) (set_mem_hw s (?m, ?h), ?vm, P)"
    using ok room by (intro leaf_step[OF inv t(1)]) auto
  have "lookup_map ?vm = (lookup_map vm)(?va \<mapsto> mp)"
    using ok I(2) fresh by (intro lookup_map_set) (auto simp: vm_ok_def)
  from that[OF run step this] show ?thesis .
qed

text \<open>Clearing a descriptor: the page was mapped, so the entry is there and names the recorded page.\<close>

lemma unmap_l3:
  assumes inv: "vm_inv e s vm P R" and t: "t \<in> set (l3_tables vm)" "l3_key t = va_key (virtual_address mp)"
    and mp: "mp \<in> set (mappings vm)"
  shows "arm64_mmu_unmap_user_l3_page (pmem (phys s)) (hw s) (l3_table t) (virtual_address mp) (arm64_asid_hw (asid vm)) =
    (0, physical_address mp, set_entry (pmem (phys s)) (l3_table t) (l3_index (virtual_address mp)) 0,
     invalidate_user_page (hw s) (virtual_address mp) (arm64_asid_hw (asid vm)))"
proof -
  note I = vm_invD[OF inv] and RD = records_okD[OF vm_invD(2)[OF inv]]
  have "table_entry (pmem (phys s)) (l3_table t) (l3_index (virtual_address mp)) = mapping_desc mp"
    using tables_okD(5)[of "pmem (phys s)" vm t mp] I(1) t mp by (simp add: vm_ok_def)
  moreover have "table_address_valid (l3_table t)" using RD(2)[of "l3_table t"] t(1) by (simp add: tables_of_def)
  moreover have "physical_address mp AND ARM64_TABLE_MASK = physical_address mp"
    using RD(8)[OF mp] valid_masked by (simp add: mapping_ok_def)
  moreover have "arm64_asid_hw (asid vm) \<noteq> 0" using I(6) by (simp add: ident_ok_def)
  ultimately show ?thesis
    using RD(8)[OF mp] asid_hw_le[of "asid vm"] user_page_descriptor_fields
    by (simp add: arm64_mmu_unmap_user_l3_page_def mapping_ok_def user_va_def page_mask word_le_nat_alt not_le mapping_desc_def)
qed

lemma del_coherent:
  assumes "coherent h vm" "mp \<in> set (mappings vm)" "set ms = set (mappings vm) - {mp}"
  shows "coherent (invalidate_user_page h (virtual_address mp) (arm64_asid_hw (asid vm))) (vm\<lparr>mappings := ms\<rparr>)"
  using assms by (fastforce simp: coherent_def invalidate_user_page_def)

lemma coherent_mono: "coherent h (vm\<lparr>mappings := a\<rparr>) \<Longrightarrow> set a \<subseteq> set b \<Longrightarrow> coherent h (vm\<lparr>mappings := b\<rparr>)"
  unfolding coherent_def by simp blast

lemma find_l3_mapped:
  assumes "records_ok vm" "mp \<in> set (mappings vm)"
  obtains t where "find_l3 vm (virtual_address mp) = Some t" "t \<in> set (l3_tables vm)" "l3_key t = va_key (virtual_address mp)"
proof -
  have "va_key (virtual_address mp) \<in> l3_key ` set (l3_tables vm)" using records_okD(9)[OF assms] .
  then obtain t where "find_l3 vm (virtual_address mp) = Some t" using find_l3D(2)[of vm "virtual_address mp"] by (cases "find_l3 vm (virtual_address mp)") auto
  then show ?thesis using that find_l3D(1) by blast
qed

lemma unmap_step:
  assumes inv: "vm_inv e s vm P R" and va: "lookup_map vm va = Some mp"
  obtains vm' s' P' where "arm64_user_vm_unmap_page e vm s va = (0, vm', s')" "vm_step e R (s, vm, P) (s', vm', P')"
    "lookup_map vm' = (lookup_map vm)(va := None)"
proof -
  note I = vm_invD[OF inv] and RD = records_okD[OF vm_invD(2)[OF inv]]
  from I(2) obtain ix: "mapping_index vm va < length (mappings vm)" "mappings vm ! mapping_index vm va = mp" "mp \<in> set (mappings vm)"
    "virtual_address mp = va"
    by (rule mapping_index_cases[of vm va]) (use va in auto)
  let ?i = "mapping_index vm va"
  let ?vm = "vm\<lparr>mappings := swap_remove (mappings vm) ?i\<rparr>"
  obtain t where t: "find_l3 vm va = Some t" "t \<in> set (l3_tables vm)" "l3_key t = va_key (virtual_address mp)"
    using find_l3_mapped[OF I(2) ix(3)] ix(4) by metis
  let ?m = "set_entry (pmem (phys s)) (l3_table t) (l3_index va) 0" and ?h = "invalidate_user_page (hw s) va (arm64_asid_hw (asid vm))"
  have un: "arm64_mmu_unmap_user_l3_page (pmem (phys s)) (hw s) (l3_table t) va (arm64_asid_hw (asid vm)) =
      (0, physical_address mp, ?m, ?h)"
    using unmap_l3[OF inv t(2,3) ix(3)] ix(4) by simp
  note sr = swap_remove_distinct[OF ix(1) RD(7), unfolded ix(2)]
  have ok: "vm_ok ?m ?vm" using del_mapping[OF I(1) t(2,3) ix(3) sr(1,2)] ix(4) by simp
  have coh: "coherent ?h ?vm" using del_coherent[OF I(8) ix(3) sr(1)] ix(4) by simp
  have fr: "\<And>x. \<not> in_page (l3_table t) x \<Longrightarrow> ?m x = pmem (phys s) x"
    using table_page(3)[OF I(2) t(2)] by (simp add: set_entry_outside)
  have "length (swap_remove (mappings vm) ?i) \<le> unat (mapping_capacity vm)" using I(7) sr(3) by (auto simp: counts_ok_def)
  note s1 = leaf_step[OF inv t(2) fr ok this coh tlb_le_simps(2)]
  have look: "lookup_map ?vm = (lookup_map vm)(va := None)"
    using ok I(2) sr(1) ix(3,4) RD(7) by (intro lookup_map_del) (auto simp: vm_ok_def distinct_map inj_on_def)
  obtain vm2 s2 where n: "new_tlb_generation ?vm (set_mem_hw s (?m, ?h)) = (vm2, s2)"
    "vm_step e R (set_mem_hw s (?m, ?h), ?vm, P) (s2, vm2, P)" "mappings vm2 = mappings ?vm"
    by (rule new_tlb_step[OF vm_stepD[OF s1, THEN conjunct1]])
  note s2 = vm_step_trans[OF s1 n(2)]
  obtain r vm3 s3 P3 where rc: "reclaim_empty_tables e vm2 s2 va = (r, vm3, s3)" "vm_step e R (s2, vm2, P) (s3, vm3, P3)"
    "mappings vm3 = mappings vm2" "user_va va \<longrightarrow> r = 0"
    by (rule reclaim_step[OF vm_stepD[OF s2, THEN conjunct1], of va])
  have mo: "mapping_ok mp" using RD(8)[OF ix(3)] .
  then have uv: "user_va va" and ph0: "physical_address mp \<noteq> 0" using ix(4) by (auto simp: mapping_ok_def)
  note s3 = vm_step_trans[OF s2 rc(2)]
  have "arm64_user_vm_validate_identity vm3" using vm_inv_valid vm_stepD[OF s3] by blast
  then have run: "arm64_user_vm_unmap_page e vm s va = (0, vm3, s3)"
    using vm_inv_valid[OF inv] uv ix ph0 t(1) un n(1) rc(1,4)
    by (simp add: arm64_user_vm_unmap_page_def PAGE_OFFSET_MASK_def user_va_def page_mask)
  show ?thesis using that[OF run s3] lookup_map_same[of vm3 ?vm] rc(3) n(3) look by simp
qed

lemma update_mset_set:
  assumes "i < length xs" "distinct (map f xs)" "f y = f (xs ! i)"
  shows "set (xs[i := y]) = insert y (set xs - {xs ! i})" "distinct (map f (xs[i := y]))"
proof -
  have "distinct xs" using assms(2) by (simp add: distinct_map)
  then show "set (xs[i := y]) = insert y (set xs - {xs ! i})"
    using assms(1) by (rule set_update_distinct)
  have "map f (xs[i := y]) = map f xs" using assms(1,3) by (simp add: map_update list_update_same_conv)
  then show "distinct (map f (xs[i := y]))" using assms(2) by simp
qed

lemma protect_step:
  assumes inv: "vm_inv e s vm P R" and va: "lookup_map vm (va AND PAGE_MASK) = Some mp" and fl: "arm64_user_vm_flags_valid (flags AND NOT VMA_LAZY)"
  obtains vm' s' where "arm64_user_vm_protect_page vm s va flags = (0, vm', s')" "vm_step e R (s, vm, P) (s', vm', P)"
    "lookup_map vm' = (lookup_map vm)(va AND PAGE_MASK \<mapsto> mp\<lparr>mflags := flags AND NOT VMA_LAZY\<rparr>)"
proof -
  note I = vm_invD[OF inv] and RD = records_okD[OF vm_invD(2)[OF inv]]
  let ?a = "va AND PAGE_MASK" and ?mp = "mp\<lparr>mflags := flags AND NOT VMA_LAZY\<rparr>"
  from I(2) obtain ix: "mapping_index vm ?a < length (mappings vm)" "mappings vm ! mapping_index vm ?a = mp" "mp \<in> set (mappings vm)"
    "virtual_address mp = ?a"
    by (rule mapping_index_cases[of vm ?a]) (use va in auto)
  let ?ms = "(mappings vm)[mapping_index vm ?a := ?mp]" and ?rest = "remove1 mp (mappings vm)"
  obtain t where t: "find_l3 vm ?a = Some t" "t \<in> set (l3_tables vm)" "l3_key t = va_key (virtual_address mp)"
    using find_l3_mapped[OF I(2) ix(3)] ix(4) by metis
  let ?k = "l3_index ?a" and ?as = "arm64_asid_hw (asid vm)"
  let ?m1 = "set_entry (pmem (phys s)) (l3_table t) ?k 0" and ?h1 = "invalidate_user_page (hw s) ?a ?as"
  let ?m2 = "set_entry ?m1 (l3_table t) ?k (mapping_desc ?mp)" and ?h2 = "invalidate_user_page ?h1 ?a ?as"
  have un: "arm64_mmu_unmap_user_l3_page (pmem (phys s)) (hw s) (l3_table t) ?a ?as = (0, physical_address mp, ?m1, ?h1)"
    using unmap_l3[OF inv t(2,3) ix(3)] ix(4) by simp
  have mo: "mapping_ok mp" "mapping_ok ?mp" using RD(8)[OF ix(3)] fl by (auto simp: mapping_ok_def)
  have tp: "page (l3_table t)" "table_address_valid (l3_table t)"
    using table_page(3)[OF I(2) t(2)] RD(2)[of "l3_table t"] t(2) by (auto simp: tables_of_def)
  have ma: "arm64_mmu_map_user_l3_page ?m1 ?h1 (l3_table t) ?a (physical_address mp) (prot (flags AND NOT VMA_LAZY)) ?as = (0, ?m2, ?h2)"
    using mo ix(4) tp I(6) asid_hw_le[of "asid vm"] prot_valid[OF fl]
    by (simp add: arm64_mmu_map_user_l3_page_def entry_set mapping_ok_def user_va_def page_mask word_le_nat_alt not_le mapping_desc_def
        ident_ok_def table_address_valid_def)
  have inj: "inj_on virtual_address (set (mappings vm))" using RD(7) by (simp add: distinct_map)
  have rest: "set ?rest = set (mappings vm) - {mp}" "distinct (map virtual_address ?rest)"
    using RD(7) by (auto simp: distinct_map inj_on_def set_remove1_eq)
  have ok1: "vm_ok ?m1 (vm\<lparr>mappings := ?rest\<rparr>)" using del_mapping[OF I(1) t(2,3) ix(3) rest] ix(4) by simp
  have fresh: "virtual_address q \<noteq> virtual_address ?mp" if "q \<in> set (mappings (vm\<lparr>mappings := ?rest\<rparr>))" for q
    using that rest(1) inj_onD[OF inj _ _ ix(3), of q] by auto
  note up = update_mset_set[OF ix(1) RD(7), of ?mp, unfolded ix(2)]
  have ok2: "vm_ok ?m2 (vm\<lparr>mappings := ?ms\<rparr>)"
    using add_mapping[OF ok1 _ _ mo(2) fresh, of t ?ms] t ix(4) up rest(1) by simp
  have c1: "coherent ?h1 (vm\<lparr>mappings := ?rest\<rparr>)" using del_coherent[OF I(8) ix(3) rest(1)] ix(4) by simp
  have "set ?ms = insert ?mp (set ?rest)" unfolding rest(1) by (rule up(1)) simp
  then have coh: "coherent ?h2 (vm\<lparr>mappings := ?ms\<rparr>)"
    by (intro coherent_mono[OF invalidate_coherent[OF c1]]) blast
  have fr: "\<And>x. \<not> in_page (l3_table t) x \<Longrightarrow> ?m2 x = pmem (phys s) x" using tp(1) by (simp add: set_entry_outside)
  have "length ?ms \<le> unat (mapping_capacity vm)" using I(7) by (simp add: counts_ok_def)
  note s1 = leaf_step[OF inv t(2) fr ok2 this coh tlb_le_trans[OF tlb_le_simps(2) tlb_le_simps(2)]]
  obtain vm2 s2 where n: "new_tlb_generation (vm\<lparr>mappings := ?ms\<rparr>) (set_mem_hw s (?m2, ?h2)) = (vm2, s2)"
    "vm_step e R (set_mem_hw s (?m2, ?h2), vm\<lparr>mappings := ?ms\<rparr>, P) (s2, vm2, P)" "mappings vm2 = mappings (vm\<lparr>mappings := ?ms\<rparr>)"
    by (rule new_tlb_step[OF vm_stepD[OF s1, THEN conjunct1]])
  have again: "set_mem_hw (set_mem_hw s (?m1, ?h1)) (?m2, ?h2) = set_mem_hw s (?m2, ?h2)" by (simp add: set_mem_hw_def set_pmem_def)
  have run: "arm64_user_vm_protect_page vm s va flags = (0, vm2, s2)"
    using vm_inv_valid[OF inv] fl ix t(1) un ma mo(1) n(1) again
    by (simp add: arm64_user_vm_protect_page_def prot_def mapping_ok_def)
  have "lookup_map (vm\<lparr>mappings := ?ms\<rparr>) = (lookup_map vm)(virtual_address ?mp \<mapsto> ?mp)"
    using ok2 I(2) up(1) ix(3) fresh rest(1) by (intro lookup_map_set) (auto simp: vm_ok_def)
  then show ?thesis
    using that[OF run vm_step_trans[OF s1 n(2)]] lookup_map_same[of vm2 "vm\<lparr>mappings := ?ms\<rparr>"] n(3) ix(4) by simp
qed

lemma map_page_step:
  assumes inv: "vm_inv e s vm P R" and pa: "pa \<noteq> 0" "table_address_valid pa"
  obtains r vm' s' P' where "arm64_user_vm_map_page e vm s va pa flags = Some (r, vm', s')" "vm_step e R (s, vm, P) (s', vm', P')"
    "r = 0 \<and> lookup_map vm va = None \<and> user_va va \<and> lookup_map vm' = (lookup_map vm)(va \<mapsto> \<lparr>virtual_address = va, physical_address = pa, mflags = flags AND NOT VMA_LAZY\<rparr>) \<or>
     r < 0 \<and> lookup_map vm' = lookup_map vm"
proof (cases "page va \<and> arm64_user_vm_flags_valid (flags AND NOT VMA_LAZY)")
  case False
  then have run: "arm64_user_vm_map_page e vm s va pa flags = Some (-1, vm, s)"
    by (auto simp: arm64_user_vm_map_page_def Let_def PAGE_OFFSET_MASK_def page_mask)
  show ?thesis by (rule that[OF run vm_step_refl[OF inv]]) simp
next
  case ok: True
  note I = vm_invD[OF inv] and RD = records_okD[OF vm_invD(2)[OF inv]] and res = that
  let ?f = "flags AND NOT VMA_LAZY"
  let ?mp = "\<lparr>virtual_address = va, physical_address = pa, mflags = ?f\<rparr>"
  have pre: "arm64_user_vm_validate_identity vm" "va AND PAGE_OFFSET_MASK = 0" "pa AND PAGE_OFFSET_MASK = 0" "arm64_user_vm_flags_valid ?f"
    using vm_inv_valid[OF inv] ok pa(2) by (simp_all add: PAGE_OFFSET_MASK_def page_mask table_address_valid_def)
  show ?thesis
  using I(2) proof (cases rule: mapping_index_cases[of vm va])
    case (present mp)
    then have "physical_address (mappings vm ! mapping_index vm va) \<noteq> 0" using RD(8) by (simp add: mapping_ok_def)
    then have run: "arm64_user_vm_map_page e vm s va pa flags = Some (-2, vm, s)"
      using present pre by (simp add: arm64_user_vm_map_page_def)
    show ?thesis by (rule res[OF run vm_step_refl[OF inv]]) simp
  next
    case absent
    obtain r1 vm1 s1 where R1: "reserve_mappings vm s (item_count (mappings vm) + 1) = Some (r1, vm1, s1)"
      "vm_step e R (s, vm, P) (s1, vm1, P)" "mappings vm1 = mappings vm" "l2_tables vm1 = l2_tables vm" "l3_tables vm1 = l3_tables vm"
      "r1 = 0 \<and> length (mappings vm) < unat (mapping_capacity vm1) \<or> r1 = -1"
      by (rule reserve_mappings_step[OF inv])
    obtain r2 tbl vm2 s2 P2 where E: "ensure_l3 e vm1 s1 va = Some (r2, tbl, vm2, s2)" "vm_step e R (s1, vm1, P) (s2, vm2, P2)"
      "mappings vm2 = mappings vm1" "mapping_capacity vm2 = mapping_capacity vm1"
      "r2 = 0 \<Longrightarrow> \<exists>t \<in> set (l3_tables vm2). l3_table t = tbl \<and> l3_key t = va_key va"
      by (rule ensure_l3_step[OF vm_stepD[OF R1(2), THEN conjunct1], of va]) blast
    note st2 = vm_step_trans[OF R1(2) E(2)]
    have inv2: "vm_inv e s2 vm2 P2 R" using vm_stepD[OF st2] by blast
    have look2: "lookup_map vm2 = lookup_map vm" using lookup_map_same[of vm2 vm] E(3) R1(3) by simp
    obtain rr vm3 s3 P3 where C: "reclaim_empty_tables e vm2 s2 va = (rr, vm3, s3)" "vm_step e R (s2, vm2, P2) (s3, vm3, P3)"
      "mappings vm3 = mappings vm2"
      by (rule reclaim_step[OF inv2, of va])
    have look3: "lookup_map vm3 = lookup_map vm" using lookup_map_same[of vm3 vm2] C(3) look2 by simp
    note body = arm64_user_vm_map_page_def[of e vm s va pa flags] and simps = Let_def pre absent(2) R1(1)
    consider "r1 \<noteq> 0" | "r1 = 0" "r2 \<noteq> 0" | "r1 = 0" "r2 = 0" "\<not> user_va va" | "r1 = 0" "r2 = 0" "user_va va" by blast
    then show ?thesis
    proof cases
      case 1
      then have run: "arm64_user_vm_map_page e vm s va pa flags = Some (-3, vm1, s1)" unfolding body by (simp add: simps)
      show ?thesis by (rule res[OF run R1(2)]) (simp add: lookup_map_same[of vm1 vm] R1(3))
    next
      case 2
      then have run: "arm64_user_vm_map_page e vm s va pa flags = Some (-4, vm3, s3)" unfolding body by (simp add: simps E(1) C(1))
      show ?thesis by (rule res[OF run vm_step_trans[OF st2 C(2)]]) (simp add: look3)
    next
      case 3
      then have "arm64_mmu_map_user_l3_page (pmem (phys s2)) (hw s2) tbl va pa f a = (-1, pmem (phys s2), hw s2)" for f a
        using ok by (simp add: arm64_mmu_map_user_l3_page_def user_va_def word_le_nat_alt not_less)
      moreover have "set_mem_hw s2 (pmem (phys s2), hw s2) = s2" by (simp add: set_mem_hw_def set_pmem_def)
      ultimately have run: "arm64_user_vm_map_page e vm s va pa flags = Some (-5, vm3, s3)"
        unfolding body using 3 by (simp add: simps E(1) C(1))
      show ?thesis by (rule res[OF run vm_step_trans[OF st2 C(2)]]) (simp add: look3)
    next
      case 4
      obtain t where t: "t \<in> set (l3_tables vm2)" "l3_table t = tbl" "l3_key t = va_key va" using E(5) 4(2) by blast
      have mo: "mapping_ok ?mp" using ok pa 4(3) by (simp add: mapping_ok_def)
      have room: "length (mappings vm2) < unat (mapping_capacity vm2)" using R1(3,6) E(3,4) 4(1) by simp
      obtain mh where M: "arm64_mmu_map_user_l3_page (pmem (phys s2)) (hw s2) tbl va pa (prot ?f) (arm64_asid_hw (asid vm2)) = (0, mh)"
        "vm_step e R (s2, vm2, P2) (set_mem_hw s2 mh, vm2\<lparr>mappings := mappings vm2 @ [?mp]\<rparr>, P2)"
        "lookup_map (vm2\<lparr>mappings := mappings vm2 @ [?mp]\<rparr>) = (lookup_map vm2)(va \<mapsto> ?mp)"
        using map_l3_step[OF inv2 t(1) _ _ mo room] t(2,3) absent(1) look2 by auto
      note st3 = vm_step_trans[OF st2 M(2)]
      obtain vm4 s4 where N: "new_tlb_generation (vm2\<lparr>mappings := mappings vm2 @ [?mp]\<rparr>) (set_mem_hw s2 mh) = (vm4, s4)"
        "vm_step e R (set_mem_hw s2 mh, vm2\<lparr>mappings := mappings vm2 @ [?mp]\<rparr>, P2) (s4, vm4, P2)"
        "mappings vm4 = mappings (vm2\<lparr>mappings := mappings vm2 @ [?mp]\<rparr>)"
        by (rule new_tlb_step[OF vm_stepD[OF st3, THEN conjunct1]])
      have run: "arm64_user_vm_map_page e vm s va pa flags = Some (0, vm4, s4)"
        unfolding body using 4 M(1) N(1) by (simp add: simps E(1,3) R1(3) prot_def)
      have "lookup_map vm4 = (lookup_map vm)(va \<mapsto> ?mp)" using lookup_map_same[OF N(3)] M(3) look2 by simp
      then show ?thesis by (intro res[OF run vm_step_trans[OF st3 N(2)]]) (simp add: absent(1) 4(3))
    qed
  qed
qed

subsection \<open>The ASID pool\<close>

lemma asid_bit: "asid_is_allocated b a \<longleftrightarrow> bit (b ! unat (drop_bit 3 a)) (unat (a AND 7))"
  by (simp add: asid_is_allocated_def bit_iff_and_push_bit_not_eq_0)

lemma asid_byte:
  fixes a :: u32
  assumes "a < 256"
  shows "unat (drop_bit 3 a) < 32" "unat (a AND 7) < 8" "unat a = 8 * unat (drop_bit 3 a) + unat (a AND 7)"
proof -
  have d: "unat (drop_bit 3 a) = unat a div 8" by (simp add: drop_bit_eq_div unat_div)
  have "a AND 7 = take_bit 3 a" by (simp add: take_bit_eq_mask mask_eq_exp_minus_1)
  then have m: "unat (a AND 7) = unat a mod 8" by (simp add: take_bit_eq_mod unat_mod)
  show "unat (drop_bit 3 a) < 32" "unat (a AND 7) < 8" "unat a = 8 * unat (drop_bit 3 a) + unat (a AND 7)"
    using assms d m by (auto simp: word_less_nat_alt less_mult_imp_div_less)
qed

lemma asid_byte_inj:
  fixes a c :: u32
  assumes "a < 256" "c < 256" "unat (drop_bit 3 a) = unat (drop_bit 3 c)" "unat (a AND 7) = unat (c AND 7)"
  shows "a = c"
  using assms asid_byte(3)[OF assms(1)] asid_byte(3)[OF assms(2)] by (simp add: word_unat_eq_iff)

lemma byte_mask: "k < 8 \<Longrightarrow> bit (push_bit k 1 :: u8) n \<longleftrightarrow> n = k"
  by (auto simp: bit_exp_iff possible_bit_word)

lemma asid_set_bit [simp]:
  assumes "length b = 32" "a < 256" "c < 256"
  shows "asid_is_allocated (asid_set_bit b a) c \<longleftrightarrow> a = c \<or> asid_is_allocated b c"
proof -
  have i: "unat (drop_bit 3 a) < length b" using assms asid_byte(1) by simp
  show ?thesis
    using asid_byte_inj[OF assms(2,3)] asid_byte(2)[OF assms(2)] unfolding asid_bit asid_set_bit_def nth_list_update[OF i]
    by (cases "a = c"; cases "unat (drop_bit 3 a) = unat (drop_bit 3 c)") (simp_all only: bit_or_iff byte_mask if_True if_False simp_thms, auto)
qed

lemma asid_clear_bit [simp]:
  assumes "length b = 32" "a < 256" "c < 256"
  shows "asid_is_allocated (asid_clear_bit b a) c \<longleftrightarrow> a \<noteq> c \<and> asid_is_allocated b c"
proof -
  have i: "unat (drop_bit 3 a) < length b" using assms asid_byte(1) by simp
  have "possible_bit TYPE(8 word) (unat (c AND 7))" using asid_byte(2)[OF assms(3)] by (simp add: possible_bit_word)
  then show ?thesis
    using asid_byte_inj[OF assms(2,3)] asid_byte(2)[OF assms(2)] unfolding asid_bit asid_clear_bit_def nth_list_update[OF i]
    by (cases "a = c"; cases "unat (drop_bit 3 a) = unat (drop_bit 3 c)") (simp_all only: bit_and_iff bit_not_iff byte_mask if_True if_False simp_thms, auto)
qed

lemma asid_bit_length [simp]: "length (asid_set_bit b a) = length b" "length (asid_clear_bit b a) = length b"
  by (simp_all add: asid_set_bit_def asid_clear_bit_def)

lemma asid_none [simp]: "c < 256 \<Longrightarrow> \<not> asid_is_allocated (replicate 32 0) c"
  using asid_byte[of c] by (simp add: asid_bit)

lemma asid_hw_less: "arm64_asid_hw a < 256"
  using asid_hw_le[of a] by (simp add: TTBR_ASID_MAX_def word_less_nat_alt)

lemma asid_make_fields:
  assumes "g < 0x1000000" "a < 256"
  shows "arm64_asid_hw (arm64_asid_make g a) = a" "drop_bit 8 (arm64_asid_make g a) = g" "arm64_asid_make g a = 0 \<longleftrightarrow> g = 0 \<and> a = 0"
proof -
  have h: "arm64_asid_hw x = take_bit 8 x" for x
    by (simp add: arm64_asid_hw_def ARM64_ASID_COUNT_def take_bit_eq_mask mask_eq_exp_minus_1)
  have a: "take_bit 8 a = a" using assms(2) by (simp add: word_unat_eq_iff unsigned_take_bit_eq take_bit_nat_eq_self word_less_nat_alt)
  have g: "take_bit 24 g = g" using assms(1) by (simp add: word_unat_eq_iff unsigned_take_bit_eq take_bit_nat_eq_self word_less_nat_alt)
  have mk: "arm64_asid_make g a = push_bit 8 g OR take_bit 8 a" by (simp add: arm64_asid_make_def h)
  show 1: "arm64_asid_hw (arm64_asid_make g a) = a"
    unfolding h mk using a by (auto intro!: bit_word_eqI simp: bit_simps)
  have "drop_bit 8 (arm64_asid_make g a) = take_bit 24 g"
    unfolding mk by (auto intro!: bit_word_eqI simp: bit_simps)
  then show 2: "drop_bit 8 (arm64_asid_make g a) = g" using g by simp
  have "arm64_asid_hw 0 = 0" by (simp add: h)
  then show "arm64_asid_make g a = 0 \<longleftrightarrow> g = 0 \<and> a = 0" using 1 2 mk by auto
qed

text \<open>The generation of a slot; slot 0 is never handed out.\<close>

definition slot :: "machine \<Rightarrow> u32 \<Rightarrow> u32" where
  "slot s a = asid_slot_generation s ! unat a"

definition pool_ok :: "machine \<Rightarrow> bool" where
  "pool_ok s \<longleftrightarrow> length (asid_bitmap s) = 32 \<and> length (asid_slot_generation s) = 256 \<and> asid_generation s \<noteq> 0 \<and>
     asid_generation s < 0x1000000 \<and>
     (\<forall>a. 0 < a \<and> a < 256 \<longrightarrow> slot s a = (if asid_is_allocated (asid_bitmap s) a then asid_generation s else 0)) \<and>
     (\<forall>cpu a p d. tlb (hw s) cpu a p = Some d \<longrightarrow> 0 < a \<and> a < 256 \<and> asid_is_allocated (asid_bitmap s) a)"

text \<open>An address space holds a slot when its ASID is of the current generation.\<close>

definition current :: "machine \<Rightarrow> u64 \<Rightarrow> bool" where
  "current s p \<longleftrightarrow> (\<exists>vm. vms s p = Some vm \<and> drop_bit 8 (asid vm) = asid_generation s)"

definition hw_asid :: "machine \<Rightarrow> u64 \<Rightarrow> u32" where
  "hw_asid s p = arm64_asid_hw (asid (the (vms s p)))"

definition asid_inv :: "machine \<Rightarrow> bool" where
  "asid_inv s \<longleftrightarrow> pool_ok s \<and> vms s 0 = None \<and>
     (\<forall>p. current s p \<longrightarrow> 0 < hw_asid s p \<and> asid_is_allocated (asid_bitmap s) (hw_asid s p)) \<and>
     (\<forall>p q. current s p \<and> current s q \<and> hw_asid s p = hw_asid s q \<longrightarrow> p = q) \<and>
     (\<forall>p vm. vms s p = Some vm \<longrightarrow> drop_bit 8 (asid vm) \<le> asid_generation s) \<and>
     (\<forall>cpu. asid_active_vm s cpu \<noteq> 0 \<longrightarrow> cpu < ARMOS_MAX_CPUS \<and> current s (asid_active_vm s cpu))"

lemma pool_okD:
  assumes "pool_ok s"
  shows "length (asid_bitmap s) = 32" "length (asid_slot_generation s) = 256" "asid_generation s \<noteq> 0" "asid_generation s < 0x1000000"
    "\<And>a. 0 < a \<Longrightarrow> a < 256 \<Longrightarrow> slot s a = (if asid_is_allocated (asid_bitmap s) a then asid_generation s else 0)"
    "\<And>cpu a p d. tlb (hw s) cpu a p = Some d \<Longrightarrow> 0 < a \<and> a < 256 \<and> asid_is_allocated (asid_bitmap s) a"
  using assms unfolding pool_ok_def by blast+

lemma asid_invD:
  assumes "asid_inv s"
  shows "pool_ok s" "vms s 0 = None" "\<And>p. current s p \<Longrightarrow> 0 < hw_asid s p \<and> asid_is_allocated (asid_bitmap s) (hw_asid s p)"
    "\<And>p q. current s p \<Longrightarrow> current s q \<Longrightarrow> hw_asid s p = hw_asid s q \<Longrightarrow> p = q"
    "\<And>p vm. vms s p = Some vm \<Longrightarrow> drop_bit 8 (asid vm) \<le> asid_generation s"
    "\<And>cpu. asid_active_vm s cpu \<noteq> 0 \<Longrightarrow> cpu < ARMOS_MAX_CPUS \<and> current s (asid_active_vm s cpu)"
  using assms unfolding asid_inv_def by blast+

lemma slot_update:
  assumes "length (asid_slot_generation s) = 256" "a < 256" "c < 256"
  shows "(asid_slot_generation s)[unat a := g] ! unat c = (if a = c then g else slot s c)"
  using assms by (auto simp: slot_def nth_list_update word_less_nat_alt word_unat_eq_iff)

lemma take_pool:
  assumes "pool_ok s" "0 < a" "a < 256"
  shows "pool_ok (take_asid s a)"
proof -
  note P = pool_okD[OF assms(1)]
  have "slot (take_asid s a) c = (if a = c then asid_generation s else slot s c)" if "c < 256" for c
    using slot_update[OF P(2) assms(3) that] by (simp add: slot_def take_asid_def)
  then show ?thesis
    using P assms(2,3) unfolding pool_ok_def by (auto simp: take_asid_def)
qed

lemma find_mem: "find Q xs = Some x \<Longrightarrow> x \<in> set xs \<and> Q x"
  by (induction xs) (auto split: if_splits)

lemma allocate_free_some:
  assumes "allocate_free_asid s = Some (r, s')"
  obtains a where "0 < a" "a < 256" "\<not> asid_is_allocated (asid_bitmap s) a" "r = arm64_asid_make (asid_generation s) a" "s' = take_asid s a"
proof -
  obtain a where a: "find (\<lambda>a. \<not> asid_is_allocated (asid_bitmap s) a) (map of_nat [1..<256]) = Some a"
    "r = arm64_asid_make (asid_generation s) a" "s' = take_asid s a"
    using assms by (auto simp: allocate_free_asid_def split: option.splits)
  then obtain n where "n \<in> {1..<256}" "a = of_nat n" "\<not> asid_is_allocated (asid_bitmap s) a"
    using find_mem[OF a(1)] by auto
  then show ?thesis using that[of a] a by (auto simp: word_less_nat_alt unsigned_of_nat take_bit_nat_eq_self)
qed

lemma allocate_free_none:
  assumes "allocate_free_asid s = None" "0 < a" "a < 256"
  shows "asid_is_allocated (asid_bitmap s) a"
proof -
  have "unat a \<in> {1..<256}" using assms(2,3) by (auto simp: word_less_nat_alt)
  then have "a \<in> set (map of_nat [1..<256])" by (auto intro!: image_eqI[of a of_nat "unat a"])
  moreover have "\<forall>a \<in> set (map of_nat [1..<256]). asid_is_allocated (asid_bitmap s) a"
    using assms(1) by (auto simp: allocate_free_asid_def find_None_iff split: option.splits)
  ultimately show ?thesis by blast
qed

text \<open>Taking a free slot disturbs nobody.\<close>

lemma take_asid_inv:
  assumes "asid_inv s" "0 < a" "a < 256"
  shows "asid_inv (take_asid s a)"
proof -
  note A = asid_invD[OF assms(1)]
  have c: "current (take_asid s a) p = current s p" "hw_asid (take_asid s a) p = hw_asid s p" for p
    by (simp_all add: current_def hw_asid_def take_asid_def)
  have "asid_is_allocated (asid_bitmap (take_asid s a)) (hw_asid s p)" if "current s p" for p
    using A(3)[OF that] pool_okD(1)[OF A(1)] assms(3) asid_hw_less by (simp add: take_asid_def hw_asid_def)
  then show ?thesis
    unfolding asid_inv_def c using take_pool[OF A(1) assms(2,3)] A by (auto simp: take_asid_def)
qed

text \<open>Giving address space \<open>p\<close> an ASID of the current generation whose slot nobody holds.\<close>

lemma give_asid_inv:
  assumes inv: "asid_inv s" and a: "0 < a" "a < 256" "asid_is_allocated (asid_bitmap s) a"
    and free: "\<And>q. current s q \<Longrightarrow> hw_asid s q \<noteq> a" and p: "p \<noteq> 0"
    and vm: "asid vm = arm64_asid_make (asid_generation s) a"
    and idle: "\<And>cpu. asid_active_vm s cpu \<noteq> p"
  shows "asid_inv (s\<lparr>vms := (vms s)(p \<mapsto> vm)\<rparr>)"
proof -
  note A = asid_invD[OF inv] and P = pool_okD[OF asid_invD(1)[OF inv]]
  have free': "\<And>q. current s q \<Longrightarrow> a \<noteq> hw_asid s q" using free by blast
  let ?s = "s\<lparr>vms := (vms s)(p \<mapsto> vm)\<rparr>"
  note F = asid_make_fields[OF P(4) a(2)]
  have c: "current ?s q = (q = p \<or> current s q)" "hw_asid ?s q = (if q = p then a else hw_asid s q)" for q
    using vm F by (auto simp: current_def hw_asid_def)
  have "pool_ok ?s" using A(1) by (simp add: pool_ok_def slot_def)
  moreover have "drop_bit 8 (asid w) \<le> asid_generation s" if "((vms s)(p \<mapsto> vm)) q = Some w" for q w
    using that vm F(2) A(5) by (auto split: if_splits)
  ultimately show ?thesis
    unfolding asid_inv_def c using A a free free' p idle by (auto split: if_splits)
qed

lemma asid_inv_hw:
  assumes "asid_inv s" "\<And>cpu a p d. tlb h cpu a p = Some d \<Longrightarrow> 0 < a \<and> a < 256 \<and> asid_is_allocated (asid_bitmap s) a"
  shows "asid_inv (s\<lparr>hw := h\<rparr>)"
proof -
  have "current (s\<lparr>hw := h\<rparr>) = current s" "hw_asid (s\<lparr>hw := h\<rparr>) = hw_asid s" by (auto simp: current_def hw_asid_def)
  then show ?thesis using assms by (simp add: asid_inv_def pool_ok_def slot_def)
qed

lemma asid_inv_phys [simp]: "asid_inv (s\<lparr>phys := x\<rparr>) = asid_inv s" "asid_inv (s\<lparr>kheap := y\<rparr>) = asid_inv s"
  by (simp_all add: asid_inv_def pool_ok_def slot_def current_def hw_asid_def)

subsection \<open>Release and rollover\<close>

lemma release_inv:
  assumes inv: "asid_inv s"
    and mine: "\<And>q. current s q \<Longrightarrow> drop_bit 8 a = asid_generation s \<Longrightarrow> hw_asid s q \<noteq> arm64_asid_hw a"
  shows "asid_inv (release_asid s a)"
proof (cases "0 < arm64_asid_hw a \<and> asid_slot_generation s ! unat (arm64_asid_hw a) = drop_bit 8 a")
  case False
  then show ?thesis using inv by (auto simp: release_asid_def release_asid_locked_def Let_def)
next
  case True
  let ?h = "arm64_asid_hw a" and ?s = "release_asid s a"
  note A = asid_invD[OF inv] and P = pool_okD[OF asid_invD(1)[OF inv]]
  have lt: "?h < 256" by (rule asid_hw_less)
  have c: "current ?s = current s" "hw_asid ?s = hw_asid s"
    using True by (auto simp: release_asid_def release_asid_locked_def Let_def current_def hw_asid_def)
  have f: "asid_bitmap ?s = asid_clear_bit (asid_bitmap s) ?h" "asid_slot_generation ?s = (asid_slot_generation s)[unat ?h := 0]"
    "asid_generation ?s = asid_generation s" "vms ?s = vms s" "asid_active_vm ?s = asid_active_vm s" "hw ?s = tlb_shootdown_asid (hw s) ?h"
    using True by (auto simp: release_asid_def release_asid_locked_def Let_def)
  have bits: "asid_is_allocated (asid_bitmap ?s) b = (?h \<noteq> b \<and> asid_is_allocated (asid_bitmap s) b)" if "b < 256" for b
    using that P(1) lt f(1) by simp
  have sl: "slot ?s b = (if ?h = b then 0 else slot s b)" if "b < 256" for b
    using slot_update[OF P(2) lt that, of 0] f(2) by (simp add: slot_def)
  have t: "tlb (hw ?s) cpu b p = (if b = ?h then None else tlb (hw s) cpu b p)" for cpu b p
    unfolding f by (simp add: tlb_shootdown_asid_def complete_broadcast_def Let_def)
  have "pool_ok ?s"
    unfolding pool_ok_def f(3) t using P sl bits f(1,2) by (auto split: if_splits)
  moreover have "asid_is_allocated (asid_bitmap ?s) (hw_asid s q)" if "current s q" for q
  proof -
    have q: "0 < hw_asid s q" "hw_asid s q < 256" "asid_is_allocated (asid_bitmap s) (hw_asid s q)"
      using A(3)[OF that] asid_hw_less by (auto simp: hw_asid_def)
    have "hw_asid s q \<noteq> ?h"
    proof
      assume "hw_asid s q = ?h"
      then have "drop_bit 8 a = asid_generation s" using P(5)[OF q(1,2)] q(3) True by (simp add: slot_def)
      then show False using mine[OF that] \<open>hw_asid s q = ?h\<close> by blast
    qed
    then show ?thesis using bits[OF q(2)] q(3) by simp
  qed
  ultimately show ?thesis unfolding asid_inv_def c f using A by auto
qed

text \<open>The loop over the CPUs, after \<open>k\<close> of them: exactly the address spaces that run on those have an ASID of
  the new generation, each in the slot it had before.\<close>

definition moved :: "machine \<Rightarrow> nat \<Rightarrow> machine \<Rightarrow> bool" where
  "moved s k s' \<longleftrightarrow> pool_ok s' \<and> asid_active_vm s' = asid_active_vm s \<and> asid_generation s < asid_generation s' \<and>
     vms s' 0 = None \<and> (\<forall>p. hw_asid s' p = hw_asid s p) \<and> dom (vms s') = dom (vms s) \<and>
     (\<forall>p. current s' p \<longleftrightarrow> p \<noteq> 0 \<and> p \<in> asid_active_vm s ` {..<k}) \<and>
     (\<forall>a < 256. asid_is_allocated (asid_bitmap s') a \<longleftrightarrow> (\<exists>cpu < k. asid_active_vm s cpu \<noteq> 0 \<and> a = hw_asid s (asid_active_vm s cpu))) \<and>
     (\<forall>p vm. vms s' p = Some vm \<longrightarrow> drop_bit 8 (asid vm) \<le> asid_generation s')"

lemma movedD:
  assumes "moved s k s'"
  shows "pool_ok s'" "asid_active_vm s' = asid_active_vm s" "asid_generation s < asid_generation s'" "vms s' 0 = None" "\<And>p. hw_asid s' p = hw_asid s p"
    "dom (vms s') = dom (vms s)" "\<And>p. current s' p \<longleftrightarrow> p \<noteq> 0 \<and> p \<in> asid_active_vm s ` {..<k}"
    "\<And>a. a < 256 \<Longrightarrow> asid_is_allocated (asid_bitmap s') a \<longleftrightarrow> (\<exists>cpu < k. asid_active_vm s cpu \<noteq> 0 \<and> a = hw_asid s (asid_active_vm s cpu))"
    "\<And>p vm. vms s' p = Some vm \<Longrightarrow> drop_bit 8 (asid vm) \<le> asid_generation s'"
  using assms unfolding moved_def by blast+

lemma reserve_active:
  assumes inv: "asid_inv s" and m: "moved s k s'"
  shows "moved s (Suc k) (reserve_active_asid s' k)"
proof (cases "asid_active_vm s k = 0")
  case True
  then show ?thesis using m by (auto simp: moved_def reserve_active_asid_def less_Suc_eq lessThan_Suc)
next
  case False
  note A = asid_invD[OF inv]
  let ?p = "asid_active_vm s k"
  note M = movedD[OF m]
  have cur: "current s ?p" "0 < hw_asid s ?p" using A(3,6) False by blast+
  then have "?p \<in> dom (vms s')" using M(6) by (auto simp: current_def)
  then obtain vm where vm: "vms s' ?p = Some vm" by blast
  let ?h = "hw_asid s ?p" and ?s1 = "take_asid s' (hw_asid s ?p)"
  have h: "arm64_asid_hw (asid vm) = ?h" using M(5)[of ?p] vm by (simp add: hw_asid_def)
  have lt: "?h < 256" by (simp add: hw_asid_def asid_hw_less)
  let ?a = "arm64_asid_make (asid_generation s') ?h"
  let ?vm = "vm\<lparr>asid := ?a, space := (space vm)\<lparr>space_asid := ?a\<rparr>\<rparr>" and ?s = "?s1\<lparr>vms := (vms s')(?p \<mapsto> vm\<lparr>asid := ?a, space := (space vm)\<lparr>space_asid := ?a\<rparr>\<rparr>)\<rparr>"
  have run: "reserve_active_asid s' k = ?s"
    using False vm h cur(2) M(2) by (simp add: reserve_active_asid_def take_asid_def Let_def)
  note F = asid_make_fields[OF pool_okD(4)[OF M(1)] lt]
  have "pool_ok ?s1" using take_pool[OF M(1) cur(2) lt] .
  then have 1: "pool_ok ?s" by (simp add: pool_ok_def slot_def)
  have 2: "current ?s q = (q = ?p \<or> current s' q)" "hw_asid ?s q = hw_asid s q" for q
    using F M(5)[of q] by (auto simp: current_def hw_asid_def take_asid_def)
  have 3: "asid_is_allocated (asid_bitmap ?s) b \<longleftrightarrow> ?h = b \<or> asid_is_allocated (asid_bitmap s') b" if "b < 256" for b
    using that lt pool_okD(1)[OF M(1)] by (simp add: take_asid_def)
  have 4: "drop_bit 8 (asid w) \<le> asid_generation s'" if "vms ?s q = Some w" for q w
    using that F(2) M(9) by (auto simp: take_asid_def split: if_splits)
  have 5: "dom (vms ?s) = dom (vms s)" using M(6) vm by (auto simp: take_asid_def)
  show ?thesis
    unfolding run moved_def 2 using 1 3 4 5 M False
    by (auto simp: take_asid_def less_Suc_eq lessThan_Suc)
qed

lemma rollover_moved:
  assumes inv: "asid_inv s" and g: "asid_generation s < 0xFFFFFF"
  shows "moved s ARMOS_MAX_CPUS (asid_rollover s)"
proof -
  note A = asid_invD[OF inv] and P = pool_okD[OF asid_invD(1)[OF inv]]
  have g1: "unat (asid_generation s + 1) = unat (asid_generation s) + 1"
    using g by (simp add: unat_word_ariths word_less_nat_alt)
  have gz: "asid_generation s + 1 \<noteq> 0" using g1 by (metis add_is_0 one_neq_zero unat_0)
  let ?s1 = "s\<lparr>asid_generation := asid_generation s + 1, asid_bitmap := replicate 32 0, asid_slot_generation := replicate 256 0,
                 asid_residency := (\<lambda>cpu a. (0, 0)), hw := tlb_shootdown_all (hw s), asid_rollovers := asid_rollovers s + 1\<rparr>"
  have lt: "asid_generation s < asid_generation s + 1" "asid_generation s + 1 < 0x1000000"
    using g1 g by (simp_all add: word_less_nat_alt)
  have no: "\<not> current ?s1 p" for p using A(5) lt(1) by (force simp: current_def)
  have "pool_ok ?s1"
    using gz lt(2) unfolding pool_ok_def
    by (auto simp: slot_def word_less_nat_alt tlb_shootdown_all_def complete_broadcast_def Let_def)
  moreover have "drop_bit 8 (asid vm) \<le> asid_generation s + 1" if "vms s p = Some vm" for p vm
    using A(5)[OF that] lt(1) by simp
  ultimately have m0: "moved s 0 ?s1"
    unfolding moved_def using lt(1) no A(2) by (auto simp: hw_asid_def)
  have "moved s k (foldl reserve_active_asid ?s1 [0..<k])" for k
    by (induction k) (use m0 reserve_active[OF inv] in simp_all)
  then show ?thesis using gz by (simp add: asid_rollover_def Let_def)
qed

lemma rollover_inv:
  assumes inv: "asid_inv s" and g: "asid_generation s < 0xFFFFFF"
  shows "asid_inv (asid_rollover s)"
proof -
  note A = asid_invD[OF inv] and M = movedD[OF rollover_moved[OF assms]]
  let ?s = "asid_rollover s"
  have old: "current s p" if "current ?s p" for p using that[unfolded M(7)] A(6) by blast
  have al: "asid_is_allocated (asid_bitmap ?s) (hw_asid s p)" if "current ?s p" for p
  proof -
    have "hw_asid s p < 256" by (simp add: hw_asid_def asid_hw_less)
    from M(8)[OF this] show ?thesis using that[unfolded M(7)] by blast
  qed
  have act: "cpu < ARMOS_MAX_CPUS \<and> current ?s (asid_active_vm ?s cpu)" if "asid_active_vm ?s cpu \<noteq> 0" for cpu
    using that A(6)[of cpu] unfolding M(2,7) by blast
  show ?thesis
    unfolding asid_inv_def M(5) using M(1,4,9) A(3,4) old al act by blast
qed

text \<open>With four CPUs a rollover always leaves a free slot, so allocation cannot fail.\<close>

lemma rollover_room:
  assumes "moved s ARMOS_MAX_CPUS s'"
  shows "allocate_free_asid s' \<noteq> None"
proof
  assume none: "allocate_free_asid s' = None"
  let ?f = "\<lambda>cpu. hw_asid s (asid_active_vm s cpu)"
  have "a \<in> ?f ` {..<ARMOS_MAX_CPUS}" if "a \<in> of_nat ` {1..<256::nat}" for a :: u32
  proof -
    have "0 < a" "a < 256" using that by (auto simp: word_less_nat_alt unsigned_of_nat take_bit_nat_eq_self)
    then have "asid_is_allocated (asid_bitmap s') a" by (rule allocate_free_none[OF none])
    then show ?thesis unfolding movedD(8)[OF assms \<open>a < 256\<close>] by blast
  qed
  then have "(of_nat ` {1..<256::nat} :: u32 set) \<subseteq> ?f ` {..<ARMOS_MAX_CPUS}" by blast
  then have "card (of_nat ` {1..<256::nat} :: u32 set) \<le> card {..<ARMOS_MAX_CPUS}"
    by (meson card_image_le card_mono finite_imageI finite_lessThan le_trans)
  moreover have "inj_on (of_nat :: nat \<Rightarrow> u32) {1..<256}"
    by (auto simp: inj_on_def word_unat_eq_iff unsigned_of_nat take_bit_nat_eq_self)
  ultimately show False by (simp add: card_image ARMOS_MAX_CPUS_def)
qed

text \<open>What every successful allocation gives.\<close>

definition fresh_asid :: "machine \<Rightarrow> u32 \<Rightarrow> machine \<Rightarrow> bool" where
  "fresh_asid s r s' \<longleftrightarrow> asid_inv s' \<and> asid_active_vm s' = asid_active_vm s \<and> dom (vms s') = dom (vms s) \<and>
     (\<forall>p. current s' p \<longrightarrow> current s p) \<and>
     (\<exists>a. 0 < a \<and> a < 256 \<and> r = arm64_asid_make (asid_generation s') a \<and> asid_is_allocated (asid_bitmap s') a \<and>
        (\<forall>p. current s' p \<longrightarrow> hw_asid s' p \<noteq> a) \<and> (\<forall>cpu p. tlb (hw s') cpu a p = None))"

lemma take_fresh:
  assumes inv: "asid_inv s" and r: "allocate_free_asid s = Some (r, s')"
  shows "fresh_asid s r s'"
proof -
  obtain a where a: "0 < a" "a < 256" "\<not> asid_is_allocated (asid_bitmap s) a" "r = arm64_asid_make (asid_generation s) a" "s' = take_asid s a"
    by (rule allocate_free_some[OF r])
  note A = asid_invD[OF inv] and P = pool_okD[OF asid_invD(1)[OF inv]]
  have c: "current s' = current s" "hw_asid s' = hw_asid s"
    using a(5) by (auto simp: current_def hw_asid_def take_asid_def)
  have "tlb (hw s') cpu a p = None" for cpu p
    using P(6)[of cpu a p] a(3,5) by (cases "tlb (hw s) cpu a p") (auto simp: take_asid_def)
  moreover have "hw_asid s p \<noteq> a" if "current s p" for p using A(3)[OF that] a(3) by auto
  moreover have "asid_inv s'" using take_asid_inv[OF inv a(1,2)] a(5) by simp
  moreover have "asid_is_allocated (asid_bitmap s') a" using a P(1) by (simp add: take_asid_def)
  ultimately show ?thesis
    unfolding fresh_asid_def c using a by (auto simp: take_asid_def)
qed

lemma allocate_fresh:
  assumes inv: "asid_inv s" and g: "asid_generation s < 0xFFFFFF" and r: "allocate_asid_locked s = (r, s')"
  shows "fresh_asid s r s'"
proof (cases "allocate_free_asid s")
  case (Some x)
  then show ?thesis using take_fresh[OF inv] r by (simp add: allocate_asid_locked_def)
next
  case None
  note M = rollover_moved[OF inv g]
  obtain x where x: "allocate_free_asid (asid_rollover s) = Some x" using rollover_room[OF M] by blast
  then have "fresh_asid (asid_rollover s) r s'"
    using take_fresh[OF rollover_inv[OF inv g], of r s'] r None by (simp add: allocate_asid_locked_def Let_def)
  moreover have "current s p" if "current (asid_rollover s) p" for p
    using that[unfolded movedD(7)[OF M]] asid_invD(6)[OF inv] by blast
  ultimately show ?thesis unfolding fresh_asid_def movedD(2)[OF M] movedD(6)[OF M] by blast
qed

subsection \<open>Activation, creation and destruction\<close>

lemma switch_asid_inv:
  assumes inv: "asid_inv s" and cur: "current s p" "cpu < ARMOS_MAX_CPUS"
    and h: "\<And>c a q d. tlb h c a q = Some d \<Longrightarrow> tlb (hw s) c a q = Some d"
  shows "asid_inv (s\<lparr>hw := h, tlb_flush_count := x, asid_residency := y, asid_active_vm := (asid_active_vm s)(cpu := p)\<rparr>)"
    "asid_inv (s\<lparr>hw := h, tlb_preserve_count := z, asid_active_vm := (asid_active_vm s)(cpu := p)\<rparr>)" "asid_inv (s\<lparr>hw := h\<rparr>)"
proof -
  note A = asid_invD[OF inv]
  have "pool_ok s" "\<And>c a q d. tlb h c a q = Some d \<Longrightarrow> 0 < a \<and> a < 256 \<and> asid_is_allocated (asid_bitmap s) a"
    using A(1) h unfolding pool_ok_def by blast+
  then show "asid_inv (s\<lparr>hw := h, tlb_flush_count := x, asid_residency := y, asid_active_vm := (asid_active_vm s)(cpu := p)\<rparr>)"
    "asid_inv (s\<lparr>hw := h, tlb_preserve_count := z, asid_active_vm := (asid_active_vm s)(cpu := p)\<rparr>)" "asid_inv (s\<lparr>hw := h\<rparr>)"
    using inv cur unfolding asid_inv_def pool_ok_def slot_def current_def hw_asid_def by (simp_all) 
qed

lemma activate_current_inv:
  assumes "asid_inv s" "current s p" "cpu < ARMOS_MAX_CPUS" "activate_current s cpu p vm = (r, s')"
  shows "asid_inv s'"
proof -
  have sw: "tlb (snd (switch_user_ttbr0 (hw s) cpu t a f)) c b q = Some d \<Longrightarrow> tlb (hw s) c b q = Some d" for t a f c b q d
    by (auto simp: switch_user_ttbr0_def Let_def split: if_splits)
  let ?f = "asid_residency s cpu (arm64_asid_hw (asid vm)) \<noteq> (l1 vm, tlb_generation vm)"
  obtain r1 h where w: "switch_user_ttbr0 (hw s) cpu (l1 vm) (arm64_asid_hw (asid vm)) ?f = (r1, h)" by fastforce
  then have h: "\<And>c b q d. tlb h c b q = Some d \<Longrightarrow> tlb (hw s) c b q = Some d" using sw by (metis snd_conv)
  note S = switch_asid_inv[OF assms(1-3) h]
  show ?thesis
  proof (cases ?f)
    case True
    then show ?thesis
      using assms(4) w S(1,3) by (auto simp: activate_current_def arm64_mmu_switch_user_ttbr0_def Let_def split: if_splits)
  next
    case False
    then show ?thesis
      using assms(4) w S(2,3) by (auto simp: activate_current_def arm64_mmu_switch_user_ttbr0_preserve_def Let_def split: if_splits)
  qed
qed

lemma activate_inv:
  assumes inv: "asid_inv s" and g: "asid_generation s < 0xFFFFFF" and run: "arm64_user_vm_activate s cpu p = (r, s')"
  shows "asid_inv s'"
proof (cases "vms s p")
  case None
  then show ?thesis using inv run by (simp add: arm64_user_vm_activate_def)
next
  case (Some vm)
  note A = asid_invD[OF inv]
  consider "\<not> arm64_user_vm_validate_identity vm \<or> ARMOS_MAX_CPUS \<le> cpu"
    | (now) "arm64_user_vm_validate_identity vm" "cpu < ARMOS_MAX_CPUS" "drop_bit 8 (asid vm) = asid_generation s"
    | (stale) "arm64_user_vm_validate_identity vm" "cpu < ARMOS_MAX_CPUS" "drop_bit 8 (asid vm) \<noteq> asid_generation s" by linarith
  then show ?thesis
  proof cases
    case 1
    then show ?thesis using Some inv run by (auto simp: arm64_user_vm_activate_def split: if_splits)
  next
    case now
    then have "activate_current s cpu p vm = (r, s')" using Some run by (simp add: arm64_user_vm_activate_def)
    moreover have "current s p" using Some now(3) by (simp add: current_def)
    ultimately show ?thesis using activate_current_inv[OF inv _ now(2)] by blast
  next
    case stale
    obtain x s1 where al: "allocate_asid_locked s = (x, s1)" by fastforce
    note F = allocate_fresh[OF inv g al, unfolded fresh_asid_def]
    obtain a where a: "0 < a" "a < 256" "x = arm64_asid_make (asid_generation s1) a" "asid_is_allocated (asid_bitmap s1) a"
      "\<And>q. current s1 q \<Longrightarrow> hw_asid s1 q \<noteq> a"
      using F by blast
    have inv1: "asid_inv s1" using F by blast
    note P1 = pool_okD[OF asid_invD(1)[OF inv1]]
    have x0: "x \<noteq> 0" using asid_make_fields(3)[OF P1(4) a(2)] P1(3) a(3) by simp
    have "p \<in> dom (vms s1)" using F Some by blast
    then obtain vm1 where vm1: "vms s1 p = Some vm1" by blast
    have "\<not> current s p" using stale(3) Some by (simp add: current_def)
    then have idle: "asid_active_vm s1 c \<noteq> p" for c
      using F A(6)[of c] A(2) Some by (metis option.simps(3))
    let ?vm = "vm1\<lparr>asid := x, space := (space vm1)\<lparr>space_asid := x\<rparr>\<rparr>"
    have s2: "set_asid s1 p x = s1\<lparr>vms := (vms s1)(p \<mapsto> ?vm)\<rparr>" using vm1 by (simp add: set_asid_def)
    have p0: "p \<noteq> 0" using A(2) Some by auto
    have inv2: "asid_inv (set_asid s1 p x)"
    proof -
      have "asid ?vm = arm64_asid_make (asid_generation s1) a" using a(3) by simp
      then show ?thesis unfolding s2 by (intro give_asid_inv[OF inv1 a(1,2,4,5) p0 _ idle])
    qed
    have "current (set_asid s1 p x) p" unfolding s2 using asid_make_fields(2)[OF P1(4) a(2)] a(3) by (simp add: current_def)
    moreover have "activate_current (set_asid s1 p x) cpu p ?vm = (r, s')"
      using run Some stale al x0 unfolding s2 by (simp add: arm64_user_vm_activate_def Let_def s2)
    ultimately show ?thesis using activate_current_inv[OF inv2 _ stale(2)] by blast
  qed
qed

lemma deactivate_inv: "asid_inv s \<Longrightarrow> asid_inv (arm64_user_vm_deactivate_cpu s cpu)"
  by (simp add: arm64_user_vm_deactivate_cpu_def asid_inv_def pool_ok_def slot_def current_def hw_asid_def)

lemma generation_inv: "allocate_tlb_generation s = (g, s') \<Longrightarrow> asid_inv s' = asid_inv s"
proof -
  assume "allocate_tlb_generation s = (g, s')"
  then obtain n where "s' = s\<lparr>next_tlb_generation := n\<rparr>"
    by (auto simp: allocate_tlb_generation_def Let_def split: if_splits)
  moreover have "asid_inv (s\<lparr>next_tlb_generation := n\<rparr>) = asid_inv s" for n
    by (simp add: asid_inv_def pool_ok_def slot_def current_def hw_asid_def)
  ultimately show ?thesis by simp
qed

lemma put_fresh_inv:
  assumes F: "fresh_asid s r s'" and p: "vms s p = None" "p \<noteq> 0" and inv: "asid_inv s" and vm: "asid vm = r"
  shows "asid_inv (s'\<lparr>vms := (vms s')(p \<mapsto> vm)\<rparr>)"
proof -
  note F = F[unfolded fresh_asid_def]
  obtain a where a: "0 < a" "a < 256" "r = arm64_asid_make (asid_generation s') a" "asid_is_allocated (asid_bitmap s') a"
    "\<And>q. current s' q \<Longrightarrow> hw_asid s' q \<noteq> a"
    using F by blast
  have "\<not> current s p" using p(1) by (simp add: current_def)
  then have idle: "asid_active_vm s' c \<noteq> p" for c using F asid_invD(6)[OF inv, of c] p(2) by metis
  have "asid_inv s'" using F by blast
  from give_asid_inv[OF this a(1,2,4,5) p(2) _ idle] show ?thesis using vm a(3) by simp
qed

text \<open>Creation changes the pool only through the allocation, and through the release when it fails later.\<close>

lemma init_pool:
  assumes run: "arm64_user_vm_init e p s = (r, vm, s')"
  obtains x s1 where "allocate_asid_locked s = (x, s1)"
    "r = 0 \<and> asid vm = x \<and> (\<exists>ph n. s' = s1\<lparr>phys := ph, next_tlb_generation := n\<rparr>) \<or>
     r < 0 \<and> x = 0 \<and> s' = s1 \<or> r < 0 \<and> (\<exists>ph. s' = release_asid (s1\<lparr>phys := ph\<rparr>) x)"
proof -
  obtain x s1 where x: "allocate_asid_locked s = (x, s1)" by fastforce
  obtain r2 t s2 where t: "arm64_vm_alloc_pages e s1 1 = (r2, t, s2)" by (metis prod_cases3)
  then obtain ph where s2: "s2 = s1\<lparr>phys := ph\<rparr>" by (auto simp: arm64_vm_alloc_pages_def Let_def split: prod.splits if_splits)
  obtain r3 m where m: "arm64_mmu_prepare_user_ttbr0 (pmem (phys s2)) t = (r3, m)" by fastforce
  obtain g s4 where g: "allocate_tlb_generation (set_pmem s2 m) = (g, s4)" by fastforce
  then obtain n where s4: "s4 = (set_pmem s2 m)\<lparr>next_tlb_generation := n\<rparr>"
    by (auto simp: allocate_tlb_generation_def Let_def split: if_splits)
  have "r = 0 \<and> asid vm = x \<and> (\<exists>ph n. s' = s1\<lparr>phys := ph, next_tlb_generation := n\<rparr>) \<or>
     r < 0 \<and> x = 0 \<and> s' = s1 \<or> r < 0 \<and> (\<exists>ph. s' = release_asid (s1\<lparr>phys := ph\<rparr>) x)"
  proof (cases "x = 0")
    case True
    then show ?thesis using run x by (simp add: arm64_user_vm_init_def allocate_asid_def)
  next
    case x0: False
    show ?thesis
    proof (cases "r2 = 0")
      case False
      then have "s' = release_asid s2 x" "r = -3" using run x t x0 by (simp_all add: arm64_user_vm_init_def allocate_asid_def Let_def)
      then show ?thesis using s2 by auto
    next
      case r2: True
      show ?thesis
      proof (cases "r3 = 0")
        case False
        then have "s' = release_asid (snd (arm64_vm_free_pages e (set_pmem s2 m) t 1)) x" "r = -4"
          using run x t x0 r2 m by (simp_all add: arm64_user_vm_init_def allocate_asid_def Let_def)
        then show ?thesis using s2 by (auto simp: arm64_vm_free_pages_def set_pmem_def)
      next
        case True
        then have "r = 0" "asid vm = x" "s' = s4"
          using run x t x0 r2 m g by (auto simp: arm64_user_vm_init_def allocate_asid_def Let_def)
        then show ?thesis using s4 s2 by (auto simp: set_pmem_def)
      qed
    qed
  qed
  with that[OF x] show ?thesis .
qed

lemma asid_inv_upd:
  "asid_inv (s\<lparr>phys := ph, next_tlb_generation := n\<rparr>) = asid_inv s" "current (s\<lparr>phys := ph, next_tlb_generation := n\<rparr>) = current s"
  "fresh_asid s r (s'\<lparr>phys := ph, next_tlb_generation := n\<rparr>) = fresh_asid s r s'" "fresh_asid s r (s'\<lparr>phys := ph\<rparr>) = fresh_asid s r s'"
  by (simp_all add: fresh_asid_def asid_inv_def pool_ok_def slot_def current_def hw_asid_def fun_eq_iff)

lemma init_inv:
  assumes inv: "asid_inv s" and g: "asid_generation s < 0xFFFFFF" and run: "arm64_user_vm_init e p s = (r, vm, s')"
  shows "r = 0 \<Longrightarrow> vms s p = None \<Longrightarrow> p \<noteq> 0 \<Longrightarrow> asid_inv (put_vm s' p vm)" "r \<noteq> 0 \<Longrightarrow> asid_inv s'"
proof -
  from run obtain x s1 where x: "allocate_asid_locked s = (x, s1)" and
    c: "r = 0 \<and> asid vm = x \<and> (\<exists>ph n. s' = s1\<lparr>phys := ph, next_tlb_generation := n\<rparr>) \<or>
     r < 0 \<and> x = 0 \<and> s' = s1 \<or> r < 0 \<and> (\<exists>ph. s' = release_asid (s1\<lparr>phys := ph\<rparr>) x)"
    by (rule init_pool)
  note F = allocate_fresh[OF inv g x]
  have inv1: "asid_inv s1" using F by (simp add: fresh_asid_def)
  show "asid_inv (put_vm s' p vm)" if "r = 0" "vms s p = None" "p \<noteq> 0"
  proof -
    have v: "asid vm = x" "fresh_asid s x s'" using c that(1) F asid_inv_upd(3) by auto
    show ?thesis unfolding put_vm_def by (rule put_fresh_inv[OF v(2) that(2,3) inv v(1)])
  qed
  show "asid_inv s'" if "r \<noteq> 0"
  proof -
    obtain a where a: "a < 256" "x = arm64_asid_make (asid_generation s1) a" "\<And>q. current s1 q \<Longrightarrow> hw_asid s1 q \<noteq> a"
      using F unfolding fresh_asid_def by blast
    have "arm64_asid_hw x = a" using asid_make_fields(1)[OF pool_okD(4)[OF asid_invD(1)[OF inv1]] a(1)] a(2) by simp
    then have "asid_inv (release_asid (s1\<lparr>phys := ph\<rparr>) x)" for ph
      using a(3) inv1 by (intro release_inv) (simp_all add: current_def hw_asid_def)
    then show ?thesis using c that inv1 by auto
  qed
qed

end
