(* ===== verification/Simulation.thy ===== *)
theory Simulation
  imports Main
begin

text \<open>
  Components that are driven by a sequence of commands. A client knows such a component by an invariant, by what
  the component represents (\<open>abs\<close>) and by a specification of one command that relates the represented value
  before, the result code and the represented value after. The locale lifts that contract to any sequence of
  legal commands; the theories of the components interpret it on their operations.
\<close>

fun run_cmds :: "('c \<Rightarrow> 's \<Rightarrow> (int \<times> 's) option) \<Rightarrow> 'c list \<Rightarrow> 's \<Rightarrow> (int list \<times> 's) option" where
  "run_cmds exec [] s = Some ([], s)"
| "run_cmds exec (c # cs) s =
     (case exec c s of
        None \<Rightarrow> None
      | Some (r, s1) \<Rightarrow>
          (case run_cmds exec cs s1 of None \<Rightarrow> None | Some (rs, s2) \<Rightarrow> Some (r # rs, s2)))"

inductive spec_run :: "('c \<Rightarrow> 'a \<Rightarrow> int \<Rightarrow> 'a \<Rightarrow> bool) \<Rightarrow> 'c list \<Rightarrow> 'a \<Rightarrow> int list \<Rightarrow> 'a \<Rightarrow> bool" for spec where
  spec_nil: "spec_run spec [] a [] a"
| spec_cons: "spec c a r b \<Longrightarrow> spec_run spec cs b rs d \<Longrightarrow> spec_run spec (c # cs) a (r # rs) d"

inductive_simps spec_run_simps [simp]: "spec_run spec [] a rs d" "spec_run spec (c # cs) a rs d"

locale command_sim =
  fixes exec :: "'c \<Rightarrow> 's \<Rightarrow> (int \<times> 's) option" and inv :: "'s \<Rightarrow> bool" and abs :: "'s \<Rightarrow> 'a"
    and legal :: "'c \<Rightarrow> bool" and spec :: "'c \<Rightarrow> 'a \<Rightarrow> int \<Rightarrow> 'a \<Rightarrow> bool" and rel :: "'s \<Rightarrow> 's \<Rightarrow> bool"
  assumes rel_refl: "inv s \<Longrightarrow> rel s s"
    and rel_trans: "rel s t \<Longrightarrow> rel t u \<Longrightarrow> rel s u"
    and sim: "inv s \<Longrightarrow> legal c \<Longrightarrow> \<exists>r t. exec c s = Some (r, t) \<and> inv t \<and> rel s t \<and> spec c (abs s) r (abs t)"
begin

lemma sim_run:
  assumes "inv s" "list_all legal cs"
  shows "\<exists>rs t. run_cmds exec cs s = Some (rs, t) \<and> inv t \<and> rel s t \<and> spec_run spec cs (abs s) rs (abs t)"
  using assms
proof (induction cs arbitrary: s)
  case Nil
  then show ?case by (auto intro: rel_refl)
next
  case (Cons c cs)
  obtain r t where t: "exec c s = Some (r, t)" "inv t" "rel s t" "spec c (abs s) r (abs t)"
    using sim[of s c] Cons.prems by auto
  obtain rs u where u: "run_cmds exec cs t = Some (rs, u)" "inv u" "rel t u" "spec_run spec cs (abs t) rs (abs u)"
    using Cons.IH[OF t(2)] Cons.prems by auto
  show ?case using t u rel_trans[OF t(3) u(3)] by auto
qed

end

end
