(* ===== verification/UserVM_Correct.thy ===== *)
theory UserVM_Correct
  imports UserVM_Asid Simulation
begin

text \<open>
  The properties of user address spaces: creation, sequences of mapping commands against the partial map they
  implement, stale translations, W^X, ASIDs, and the growth of the inventories.
\<close>

lemma init_tables_ok:
  assumes "table_address_valid t" "l1 vm = t" "l2_tables vm = []" "l3_tables vm = []" "mappings vm = []" "t \<noteq> 0"
  shows "vm_ok (set_entry (clear_table m t) t 1 kernel_block_descriptor) vm"
proof -
  have "table_entry (set_entry (clear_table m t) t 1 kernel_block_descriptor) t i AND 3 \<noteq> 3" if "i < 512" for i
    using that valid_page[OF assms(1)] by (simp add: entry_set entry_clear kernel_block_descriptor_def desc_defs)
  then show ?thesis using assms by (simp add: vm_ok_def records_ok_def tables_ok_def tables_of_def)
qed

lemma empty_heap_ok:
  assumes "heap_set h R" "mappings_ptr vm = 0" "l2_ptr vm = 0" "l3_ptr vm = 0"
    "mapping_capacity vm = 0" "l2_table_capacity vm = 0" "l3_table_capacity vm = 0"
  shows "heap_ok h vm R"
  using assms by (simp add: heap_ok_def vm_blocks_def ptrs_ok_def arr_def)

lemma allocate_same:
  "allocate_asid_locked s = (x, s') \<Longrightarrow> phys s' = phys s \<and> kheap s' = kheap s"
proof -
  have r: "phys (reserve_active_asid s k) = phys s \<and> kheap (reserve_active_asid s k) = kheap s" for s k
    by (auto simp: reserve_active_asid_def take_asid_def Let_def split: option.splits)
  have f: "phys (foldl reserve_active_asid s ks) = phys s \<and> kheap (foldl reserve_active_asid s ks) = kheap s" for s ks
    by (induction ks arbitrary: s) (simp_all add: r)
  have "phys (asid_rollover s) = phys s \<and> kheap (asid_rollover s) = kheap s" by (simp add: asid_rollover_def Let_def f)
  moreover have "allocate_free_asid s = Some (x, s') \<Longrightarrow> phys s' = phys s \<and> kheap s' = kheap s" for s x s'
    by (erule allocate_free_some) (simp add: take_asid_def)
  ultimately show "allocate_asid_locked s = (x, s') \<Longrightarrow> phys s' = phys s \<and> kheap s' = kheap s"
    by (fastforce simp: allocate_asid_locked_def Let_def split: option.splits)
qed

lemma init_vm_inv:
  assumes inv: "asid_inv s" "asid_generation s < 0xFFFFFF" and own: "owns e (phys s) P" and heap: "heap_set (kheap s) R"
    and ram: "unat (ram_end e) \<le> 2 ^ 48" and run: "arm64_user_vm_init e p s = (0, vm, s')"
  shows "l1 vm \<notin> P" "vm_inv e s' vm (insert (l1 vm) P) R" "tables_of vm = [l1 vm]" "lookup_map vm = Map.empty"
proof -
  obtain x s1 where x: "allocate_asid_locked s = (x, s1)" by fastforce
  note F = allocate_fresh[OF inv x, unfolded fresh_asid_def] and same = allocate_same[OF x]
  obtain a where a: "0 < a" "a < 256" "x = arm64_asid_make (asid_generation s1) a" "\<And>cpu q. tlb (hw s1) cpu a q = None"
    using F by blast
  have pool1: "pool_ok s1" using F asid_invD(1) by blast
  note mk = asid_make_fields[OF pool_okD(4)[OF pool1] a(2)]
  have x0: "x \<noteq> 0" "arm64_asid_hw x = a" using mk pool_okD(3)[OF pool1] a(3) by auto
  have own1: "owns e (phys s1) P" using own same by simp
  from own1 obtain t ph where t: "arm64_vm_alloc_pages e s1 1 = (0, t, s1\<lparr>phys := ph\<rparr>)" "owns e ph (insert t P)" "t \<notin> P" "t \<noteq> 0"
  proof (cases rule: alloc_page_cases)
    case none
    then show ?thesis using run x x0(1) by (simp add: arm64_user_vm_init_def allocate_asid_def)
  next
    case (some t ph)
    then show ?thesis using that by blast
  qed
  have tv: "table_address_valid t" using owns_valid[OF t(2) _ ram] by simp
  let ?m = "set_entry (clear_table (pmem ph) t) t 1 kernel_block_descriptor"
  let ?s3 = "set_pmem (s1\<lparr>phys := ph\<rparr>) ?m"
  have prep: "arm64_mmu_prepare_user_ttbr0 (pmem ph) t = (0, ?m)" using tv by (simp add: arm64_mmu_prepare_user_ttbr0_def)
  obtain g s4 where g: "allocate_tlb_generation ?s3 = (g, s4)" by fastforce
  then obtain n where s4: "s4 = ?s3\<lparr>next_tlb_generation := n\<rparr>"
    by (auto simp: allocate_tlb_generation_def Let_def split: if_splits)
  have "s' = s4 \<and> l1 vm = t \<and> asid vm = x \<and> l2_tables vm = [] \<and> l3_tables vm = [] \<and> mappings vm = [] \<and> magic vm = ARM64_USER_VM_MAGIC \<and>
      pgdir (space vm) = t \<and> pgdir_alloc (space vm) = t \<and> space_asid (space vm) = x \<and> arch_private (space vm) = vm_self vm \<and>
      mappings_ptr vm = 0 \<and> l2_ptr vm = 0 \<and> l3_ptr vm = 0 \<and>
      mapping_capacity vm = 0 \<and> l2_table_capacity vm = 0 \<and> l3_table_capacity vm = 0"
    using run x x0(1) t(1) prep g
    by (auto simp: arm64_user_vm_init_def allocate_asid_def Let_def empty_vm_def vm_initialize_user_layout_def)
  then have v: "s' = s4" "l1 vm = t" "asid vm = x" "l2_tables vm = []" "l3_tables vm = []" "mappings vm = []" "magic vm = ARM64_USER_VM_MAGIC"
      "pgdir (space vm) = t" "pgdir_alloc (space vm) = t" "space_asid (space vm) = x" "arch_private (space vm) = vm_self vm"
      "mappings_ptr vm = 0" "l2_ptr vm = 0" "l3_ptr vm = 0" "mapping_capacity vm = 0" "l2_table_capacity vm = 0" "l3_table_capacity vm = 0"
    by blast+
  have s': "phys s' = ph\<lparr>pmem := ?m\<rparr>" "kheap s' = kheap s" "hw s' = hw s1" using v(1) s4 same by simp_all
  show "l1 vm \<notin> P" using t(3) v(2) by simp
  show "tables_of vm = [l1 vm]" using v by (simp add: tables_of_def)
  show "lookup_map vm = Map.empty" using v by (auto simp: lookup_map_def)
  have "vm_ok ?m vm" using init_tables_ok[OF tv v(2,4,5,6) t(4)] .
  moreover have "heap_ok (kheap s) vm R" by (rule empty_heap_ok[OF heap v(12-17)])
  moreover have "ident_ok vm" using v x0 a(1) by (simp add: ident_ok_def)
  moreover have "coherent (hw s1) vm" using v(3) x0(2) a(4) by (simp add: coherent_def)
  ultimately show "vm_inv e s' vm (insert (l1 vm) P) R"
    using s' t(2) v ram by (simp add: vm_inv_def counts_ok_def tables_of_def)
qed

text \<open>Mapping a page of its own: the page is fresh, reads zero, and is no table.\<close>

lemma alloc_inv:
  assumes inv: "vm_inv e s vm P R" and p: "owns e ph (insert p P)" "p \<notin> P" "pmem ph = set_range (pmem (phys s)) p 4096 0"
  shows "vm_inv e (s\<lparr>phys := ph\<rparr>) vm (insert p P) R"
  using vm_invD[OF inv] zero_vm_ok[OF inv p(1,2)] p by (auto simp: vm_inv_def)

lemma zero_inside: "in_page p x \<Longrightarrow> set_range m p 4096 0 x = 0"
  by (simp add: set_range_def in_page_def)

lemma map_new_page_step:
  assumes inv: "vm_inv e s vm P R"
  obtains r page vm' s' P' where "arm64_user_vm_map_new_page e vm s va flags = Some (r, page, vm', s')" "vm_inv e s' vm' P' R"
    "r < 0 \<and> vm_step e R (s, vm, P) (s', vm', P') \<and> lookup_map vm' = lookup_map vm \<or>
     r = 0 \<and> lookup_map vm va = None \<and> page \<notin> P - set (tables_of vm) \<and> page \<noteq> 0 \<and> P' - set (tables_of vm') = insert page (P - set (tables_of vm)) \<and>
     (\<forall>x. in_page page x \<longrightarrow> pmem (phys s') x = 0) \<and>
     (\<forall>p \<in> P - set (tables_of vm). \<forall>x. in_page p x \<longrightarrow> pmem (phys s') x = pmem (phys s) x) \<and>
     lookup_map vm' = (lookup_map vm)(va \<mapsto> \<lparr>virtual_address = va, physical_address = page, mflags = flags\<rparr>)"
proof (cases "user_va va \<and> arm64_user_vm_flags_valid flags \<and> flags AND VMA_LAZY = 0")
  case False
  then have run: "arm64_user_vm_map_new_page e vm s va flags = Some (-1, 0, vm, s)"
    by (auto simp: arm64_user_vm_map_new_page_def PAGE_OFFSET_MASK_def user_va_def page_mask word_le_nat_alt not_less)
  show ?thesis by (rule that[OF run inv]) (simp add: vm_step_refl[OF inv])
next
  case ok: True
  note I = vm_invD[OF inv] and res = that
  have pre: "arm64_user_vm_validate_identity vm" "va AND PAGE_OFFSET_MASK = 0" "\<not> 0x8000000000 \<le> va" "arm64_user_vm_flags_valid flags"
    "flags AND VMA_LAZY = 0"
    using vm_inv_valid[OF inv] ok by (simp_all add: PAGE_OFFSET_MASK_def user_va_def page_mask word_le_nat_alt not_less)
  note body = arm64_user_vm_map_new_page_def[of e vm s va flags]
  show ?thesis
  using I(2) proof (cases rule: mapping_index_cases[of vm va])
    case (present mp)
    then have run: "arm64_user_vm_map_new_page e vm s va flags = Some (-2, 0, vm, s)" unfolding body using pre by simp
    show ?thesis by (rule res[OF run inv]) (simp add: vm_step_refl[OF inv])
  next
    case absent
    obtain r1 vm1 s1 where R1: "reserve_mappings vm s (item_count (mappings vm) + 1) = Some (r1, vm1, s1)"
      "vm_step e R (s, vm, P) (s1, vm1, P)" "mappings vm1 = mappings vm" "l2_tables vm1 = l2_tables vm" "l3_tables vm1 = l3_tables vm"
      "r1 = 0 \<and> length (mappings vm) < unat (mapping_capacity vm1) \<or> r1 = -1"
      by (rule reserve_mappings_step[OF inv])
    obtain r2 tbl vm2 s2 P2 where E: "ensure_l3 e vm1 s1 va = Some (r2, tbl, vm2, s2)" "vm_step e R (s1, vm1, P) (s2, vm2, P2)"
      "mappings vm2 = mappings vm1" "mapping_capacity vm2 = mapping_capacity vm1"
      "r2 = 0 \<Longrightarrow> \<exists>t \<in> set (l3_tables vm2). l3_table t = tbl \<and> l3_key t = va_key va"
      by (rule ensure_l3_step[OF vm_stepD[OF R1(2), THEN conjunct1], of va]) blast
    note st2 = vm_step_trans[OF R1(2) E(2)]
    have inv2: "vm_inv e s2 vm2 P2 R" using vm_stepD[OF st2] by blast
    have look2: "lookup_map vm2 = lookup_map vm" using lookup_map_same[of vm2 vm] E(3) R1(3) by simp
    obtain rr vm3 s3 P3 where C: "reclaim_empty_tables e vm2 s2 va = (rr, vm3, s3)" "vm_step e R (s2, vm2, P2) (s3, vm3, P3)"
      "mappings vm3 = mappings vm2"
      by (rule reclaim_step[OF inv2, of va])
    note st3 = vm_step_trans[OF st2 C(2)]
    have look3: "lookup_map vm3 = lookup_map vm" using lookup_map_same[of vm3 vm2] C(3) look2 by simp
    have fail: ?thesis if "arm64_user_vm_map_new_page e vm s va flags = Some (r, 0, vm', s')" "r < 0"
      "vm_step e R (s, vm, P) (s', vm', P')" "lookup_map vm' = lookup_map vm" for r vm' s' P'
      using res[OF that(1) vm_stepD[OF that(3), THEN conjunct1]] that by blast
    note simps = Let_def pre absent(2) R1(1)
    show ?thesis
    proof (cases "r1 = 0 \<and> r2 = 0")
      case False
      then consider "r1 \<noteq> 0" | "r1 = 0" "r2 \<noteq> 0" by blast
      then show ?thesis
      proof cases
        case 1
        then have "arm64_user_vm_map_new_page e vm s va flags = Some (-3, 0, vm1, s1)" unfolding body by (simp add: simps)
        then show ?thesis by (rule fail[OF _ _ R1(2)]) (simp_all add: lookup_map_same[of vm1 vm] R1(3))
      next
        case 2
        then have "arm64_user_vm_map_new_page e vm s va flags = Some (-4, 0, vm3, s3)" unfolding body by (simp add: simps E(1) C(1))
        then show ?thesis by (rule fail[OF _ _ st3]) (simp_all add: look3)
      qed
    next
      case both: True
      obtain t where t: "t \<in> set (l3_tables vm2)" "l3_table t = tbl" "l3_key t = va_key va" using E(5) both by blast
      show ?thesis
      using vm_invD(3)[OF inv2] proof (cases rule: alloc_page_cases)
        case none
        then have "arm64_user_vm_map_new_page e vm s va flags = Some (-5, 0, vm3, s3)"
          unfolding body using both by (simp add: simps E(1) C(1))
        then show ?thesis by (rule fail[OF _ _ st3]) (simp_all add: look3)
      next
        case (some pg ph)
        let ?mp = "\<lparr>virtual_address = va, physical_address = pg, mflags = flags\<rparr>"
        have inv3: "vm_inv e (s2\<lparr>phys := ph\<rparr>) vm2 (insert pg P2) R" by (rule alloc_inv[OF inv2 some(2,3,7)])
        have mo: "mapping_ok ?mp" using ok some(4) owns_valid[OF some(2) _ I(9)] by (simp add: mapping_ok_def)
        have room: "length (mappings vm2) < unat (mapping_capacity vm2)" using R1(3,6) E(3,4) both by simp
        obtain mh where M: "arm64_mmu_map_user_l3_page (pmem ph) (hw s2) tbl va pg (prot flags) (arm64_asid_hw (asid vm2)) = (0, mh)"
          "vm_step e R (s2\<lparr>phys := ph\<rparr>, vm2, insert pg P2) (set_mem_hw (s2\<lparr>phys := ph\<rparr>) mh, vm2\<lparr>mappings := mappings vm2 @ [?mp]\<rparr>, insert pg P2)"
          "lookup_map (vm2\<lparr>mappings := mappings vm2 @ [?mp]\<rparr>) = (lookup_map vm2)(va \<mapsto> ?mp)"
          using map_l3_step[OF inv3 t(1) _ _ mo room] t(2,3) absent(1) look2 by auto
        obtain vm4 s4 where N: "new_tlb_generation (vm2\<lparr>mappings := mappings vm2 @ [?mp]\<rparr>) (set_mem_hw (s2\<lparr>phys := ph\<rparr>) mh) = (vm4, s4)"
          "vm_step e R (set_mem_hw (s2\<lparr>phys := ph\<rparr>) mh, vm2\<lparr>mappings := mappings vm2 @ [?mp]\<rparr>, insert pg P2) (s4, vm4, insert pg P2)"
          "mappings vm4 = mappings (vm2\<lparr>mappings := mappings vm2 @ [?mp]\<rparr>)"
          by (rule new_tlb_step[OF vm_stepD[OF M(2), THEN conjunct1]])
        note st4 = vm_step_trans[OF M(2) N(2)]
        have run: "arm64_user_vm_map_new_page e vm s va flags = Some (0, pg, vm4, s4)"
          unfolding body using both some(1) M(1) N(1) by (simp add: simps E(1) prot_def)
        have look: "lookup_map vm4 = (lookup_map vm)(va \<mapsto> ?mp)" using lookup_map_same[OF N(3)] M(3) look2 by simp
        have tab: "P2 - set (tables_of vm2) = P - set (tables_of vm)" "insert pg P2 - set (tables_of vm4) = insert pg P2 - set (tables_of vm2)"
          using st2 st4 by (simp_all add: vm_step_def)
        have pgT: "pg \<notin> set (tables_of vm2)" "pg \<notin> P - set (tables_of vm)" using some(3) vm_invD(4)[OF inv2] tab(1) by auto
        have z: "pmem (phys s4) x = 0" if "in_page pg x" for x
        proof -
          have "pmem (phys s4) x = pmem ph x" using st4 that pgT(1) by (auto simp: vm_step_def)
          then show ?thesis using that some(7) zero_inside by simp
        qed
        have fr: "pmem (phys s4) x = pmem (phys s) x" if "q \<in> P - set (tables_of vm)" "in_page q x" for q x
        proof -
          have q: "q \<in> P2 - set (tables_of vm2)" using that(1) tab(1) by simp
          then have "pmem (phys s4) x = pmem ph x" using st4 that(2) by (auto simp: vm_step_def)
          also have "\<dots> = pmem (phys s2) x" using fresh_outside[OF some(2,3) _ that(2)] q some(7) zero_frame by simp
          also have "\<dots> = pmem (phys s) x" using st2 that by (simp add: vm_step_def)
          finally show ?thesis .
        qed
        show ?thesis
          by (rule res[OF run vm_stepD[OF st4, THEN conjunct1]]) (use absent(1) look tab pgT some(4) z fr in auto)
      qed
    qed
  qed
qed

subsection \<open>Commands on an address space\<close>

datatype vm_cmd = VmMap u64 u64 u32 | VmUnmap u64 | VmProtect u64 u32

fun vm_exec :: "platform \<Rightarrow> vm_cmd \<Rightarrow> arm64_user_vm \<times> machine \<Rightarrow> (int \<times> arm64_user_vm \<times> machine) option" where
  "vm_exec e (VmMap va pa flags) (vm, s) = arm64_user_vm_map_page e vm s va pa flags"
| "vm_exec e (VmUnmap va) (vm, s) = Some (arm64_user_vm_unmap_page e vm s va)"
| "vm_exec e (VmProtect va flags) (vm, s) = Some (arm64_user_vm_protect_page vm s va flags)"

text \<open>The contract, on the partial map from page addresses to recorded mappings.\<close>

fun vm_spec :: "vm_cmd \<Rightarrow> (u64 \<Rightarrow> user_vm_mapping option) \<Rightarrow> int \<Rightarrow> (u64 \<Rightarrow> user_vm_mapping option) \<Rightarrow> bool" where
  "vm_spec (VmMap va pa flags) M r M' \<longleftrightarrow>
     r = 0 \<and> M va = None \<and> user_va va \<and>
       M' = M(va \<mapsto> \<lparr>virtual_address = va, physical_address = pa, mflags = flags AND NOT VMA_LAZY\<rparr>) \<or>
     r < 0 \<and> M' = M"
| "vm_spec (VmUnmap va) M r M' \<longleftrightarrow>
     (if M va = None then r < 0 \<and> M' = M else r = 0 \<and> M' = M(va := None))"
| "vm_spec (VmProtect va flags) M r M' \<longleftrightarrow>
     (case M (va AND PAGE_MASK) of
        None \<Rightarrow> r < 0 \<and> M' = M
      | Some mp \<Rightarrow>
          if arm64_user_vm_flags_valid (flags AND NOT VMA_LAZY)
          then r = 0 \<and> M' = M(va AND PAGE_MASK \<mapsto> mp\<lparr>mflags := flags AND NOT VMA_LAZY\<rparr>)
          else r < 0 \<and> M' = M)"

fun vm_legal :: "vm_cmd \<Rightarrow> bool" where
  "vm_legal (VmMap va pa flags) \<longleftrightarrow> pa \<noteq> 0 \<and> table_address_valid pa"
| "vm_legal (VmUnmap va) \<longleftrightarrow> True"
| "vm_legal (VmProtect va flags) \<longleftrightarrow> True"

text \<open>What one run of commands may change, whatever pages \<open>P\<close> are allocated.\<close>

definition vm_rel :: "platform \<Rightarrow> block set \<Rightarrow> arm64_user_vm \<times> machine \<Rightarrow> arm64_user_vm \<times> machine \<Rightarrow> bool" where
  "vm_rel e R = (\<lambda>(vm, s) (vm', s'). \<forall>P. vm_inv e s vm P R \<longrightarrow> (\<exists>P'. vm_step e R (s, vm, P) (s', vm', P')))"

lemma unmap_absent:
  assumes inv: "vm_inv e s vm P R" and va: "lookup_map vm va = None"
  shows "fst (arm64_user_vm_unmap_page e vm s va) < 0" "snd (arm64_user_vm_unmap_page e vm s va) = (vm, s)"
  using vm_invD(2)[OF inv]
  by (cases rule: mapping_index_cases[of vm va]; use va in \<open>simp add: arm64_user_vm_unmap_page_def\<close>)+

lemma protect_refused:
  assumes inv: "vm_inv e s vm P R" and va: "lookup_map vm (va AND PAGE_MASK) = None \<or> \<not> arm64_user_vm_flags_valid (flags AND NOT VMA_LAZY)"
  shows "fst (arm64_user_vm_protect_page vm s va flags) < 0" "snd (arm64_user_vm_protect_page vm s va flags) = (vm, s)"
  using vm_invD(2)[OF inv]
  by (cases rule: mapping_index_cases[of vm "va AND PAGE_MASK"];
      use va in \<open>auto simp: arm64_user_vm_protect_page_def Let_def split: option.splits\<close>)+

lemma vm_sim:
  assumes inv: "vm_inv e s vm P R" and legal: "vm_legal c"
  shows "\<exists>r vm' s' P'. vm_exec e c (vm, s) = Some (r, vm', s') \<and> vm_step e R (s, vm, P) (s', vm', P') \<and>
    vm_spec c (lookup_map vm) r (lookup_map vm')"
proof (cases c)
  case (VmMap va pa flags)
  then have pa: "pa \<noteq> 0" "table_address_valid pa" using legal by auto
  obtain r vm' s' P' where r: "arm64_user_vm_map_page e vm s va pa flags = Some (r, vm', s')" "vm_step e R (s, vm, P) (s', vm', P')"
    "r = 0 \<and> lookup_map vm va = None \<and> user_va va \<and> lookup_map vm' = (lookup_map vm)(va \<mapsto> \<lparr>virtual_address = va, physical_address = pa, mflags = flags AND NOT VMA_LAZY\<rparr>) \<or>
     r < 0 \<and> lookup_map vm' = lookup_map vm"
    by (rule map_page_step[OF inv pa])
  show ?thesis
    unfolding VmMap vm_exec.simps vm_spec.simps by (intro exI[of _ r] exI[of _ vm'] exI[of _ s'] exI[of _ P'] conjI) (rule r)+
next
  case (VmUnmap va)
  show ?thesis
  proof (cases "lookup_map vm va")
    case None
    then show ?thesis
      using unmap_absent[OF inv None] vm_step_refl[OF inv] unfolding VmUnmap
      by (cases "arm64_user_vm_unmap_page e vm s va") auto
  next
    case (Some mp)
    obtain vm' s' P' where "arm64_user_vm_unmap_page e vm s va = (0, vm', s')" "vm_step e R (s, vm, P) (s', vm', P')"
      "lookup_map vm' = (lookup_map vm)(va := None)"
      by (rule unmap_step[OF inv Some])
    then show ?thesis using Some unfolding VmUnmap by auto
  qed
next
  case (VmProtect va flags)
  show ?thesis
  proof (cases "lookup_map vm (va AND PAGE_MASK) = None \<or> \<not> arm64_user_vm_flags_valid (flags AND NOT VMA_LAZY)")
    case True
    then show ?thesis
      using protect_refused[OF inv True] vm_step_refl[OF inv] unfolding VmProtect
      by (cases "arm64_user_vm_protect_page vm s va flags") (auto split: option.splits)
  next
    case False
    then obtain mp where mp: "lookup_map vm (va AND PAGE_MASK) = Some mp" "arm64_user_vm_flags_valid (flags AND NOT VMA_LAZY)" by auto
    obtain vm' s' where "arm64_user_vm_protect_page vm s va flags = (0, vm', s')" "vm_step e R (s, vm, P) (s', vm', P)"
      "lookup_map vm' = (lookup_map vm)(va AND PAGE_MASK \<mapsto> mp\<lparr>mflags := flags AND NOT VMA_LAZY\<rparr>)"
      by (rule protect_step[OF inv mp])
    then show ?thesis using mp unfolding VmProtect by auto
  qed
qed

interpretation user_pages: command_sim "vm_exec e" "\<lambda>(vm, s). \<exists>P. vm_inv e s vm P R" "\<lambda>(vm, s). lookup_map vm" vm_legal vm_spec
  "vm_rel e R" for e R
proof
  show "vm_rel e R st st" if "case st of (vm, s) \<Rightarrow> \<exists>P. vm_inv e s vm P R" for st
    by (cases st) (auto simp: vm_rel_def intro: vm_step_refl)
  show "vm_rel e R s u" if "vm_rel e R s t" "vm_rel e R t u" for s t u
    using that vm_step_trans vm_stepD unfolding vm_rel_def by (fastforce split: prod.splits)
  show "\<exists>r t. vm_exec e c st = Some (r, t) \<and> (case t of (vm, s) \<Rightarrow> \<exists>P. vm_inv e s vm P R) \<and> vm_rel e R st t \<and>
      vm_spec c (case st of (vm, s) \<Rightarrow> lookup_map vm) r (case t of (vm, s) \<Rightarrow> lookup_map vm)"
    if st0: "case st of (vm, s) \<Rightarrow> \<exists>P. vm_inv e s vm P R" and c: "vm_legal c" for st c
  proof -
    obtain vm s P where st: "st = (vm, s)" "vm_inv e s vm P R" using st0 by auto
    obtain r vm' s' P' where r: "vm_exec e c (vm, s) = Some (r, vm', s')" "vm_step e R (s, vm, P) (s', vm', P')"
      "vm_spec c (lookup_map vm) r (lookup_map vm')"
      using vm_sim[OF st(2) c] by blast
    have "vm_rel e R (vm, s) (vm', s')"
      using vm_sim[OF _ c] r(1) by (fastforce simp: vm_rel_def)
    then show ?thesis using st(1) r vm_stepD[OF r(2)] by auto
  qed
qed

subsection \<open>The life of the ASID pool\<close>

lemma release_user_phys: "\<exists>ph. foldl (\<lambda>s m. if physical_address m \<noteq> 0 \<and> mflags m AND VMA_EXTERNAL = 0
    then arm64_vm_release_user_page e s (physical_address m) else s) s ms = s\<lparr>phys := ph\<rparr>"
proof (induction ms arbitrary: s)
  case Nil
  show ?case by (simp, rule exI[of _ "phys s"]) simp
next
  case (Cons m ms)
  obtain ph where 1: "(if physical_address m \<noteq> 0 \<and> mflags m AND VMA_EXTERNAL = 0
    then arm64_vm_release_user_page e s (physical_address m) else s) = s\<lparr>phys := ph\<rparr>"
  proof (cases "physical_address m \<noteq> 0 \<and> mflags m AND VMA_EXTERNAL = 0")
    case False
    show ?thesis by (rule that[of "phys s"]) (simp only: if_not_P[OF False], simp)
  qed (use that in \<open>simp add: arm64_vm_release_user_page_def\<close>)
  obtain ph' where "foldl (\<lambda>s m. if physical_address m \<noteq> 0 \<and> mflags m AND VMA_EXTERNAL = 0
    then arm64_vm_release_user_page e s (physical_address m) else s) (s\<lparr>phys := ph\<rparr>) ms = (s\<lparr>phys := ph\<rparr>)\<lparr>phys := ph'\<rparr>"
    using Cons.IH[of "s\<lparr>phys := ph\<rparr>"] by blast
  then show ?case by (simp only: foldl_Cons 1) auto
qed

lemma free_tables_phys: "\<exists>ph. foldl (\<lambda>s t. snd (arm64_vm_free_pages e s (f t) 1)) s ts = s\<lparr>phys := ph\<rparr>"
proof (induction ts arbitrary: s)
  case Nil
  show ?case by (simp, rule exI[of _ "phys s"]) simp
next
  case (Cons t ts)
  then show ?case using Cons.IH[of "s\<lparr>phys := free_pages e (phys s) (f t) 1\<rparr>"] by (auto simp: arm64_vm_free_pages_def)
qed

lemma destroy_pool:
  assumes run: "arm64_user_vm_destroy e cpu vm s = Some (r, vm', s')"
  shows "r < 0 \<and> s' = s \<or> r = 0 \<and> (\<exists>ph h. s' = release_asid (s\<lparr>kheap := h, phys := ph\<rparr>) (asid vm))"
proof (cases "\<not> arm64_user_vm_validate_identity vm \<or> ttbr0 (hw s) cpu AND ARM64_TABLE_MASK = l1 vm")
  case True
  then show ?thesis using run by (auto simp: arm64_user_vm_destroy_def split: if_splits)
next
  case False
  obtain p1 where p1: "foldl (\<lambda>s m. if physical_address m \<noteq> 0 \<and> mflags m AND VMA_EXTERNAL = 0
    then arm64_vm_release_user_page e s (physical_address m) else s) s (mappings vm) = s\<lparr>phys := p1\<rparr>"
    using release_user_phys by blast
  note d = run[unfolded arm64_user_vm_destroy_def if_not_P[OF False] Let_def p1]
  obtain h1 where h1: "kfree (kheap (s\<lparr>phys := p1\<rparr>)) (mappings_ptr vm) = Some h1"
    using d False by (auto simp: bind_eq_Some_conv)
  let ?s1 = "s\<lparr>phys := p1, kheap := h1\<rparr>"
  obtain p2 where p2: "foldl (\<lambda>s t. snd (arm64_vm_free_pages e s (l3_table t) 1)) ?s1 (l3_tables vm) = ?s1\<lparr>phys := p2\<rparr>"
    using free_tables_phys by blast
  obtain p3 where p3: "foldl (\<lambda>s t. snd (arm64_vm_free_pages e s (l2_table t) 1)) (s\<lparr>kheap := h1, phys := p2\<rparr>) (l2_tables vm) = s\<lparr>kheap := h1, phys := p3\<rparr>"
    using free_tables_phys[of e l2_table "s\<lparr>kheap := h1, phys := p2\<rparr>" "l2_tables vm"] by auto
  show ?thesis
    using d False unfolding h1
    by (auto simp: p2[unfolded arm64_vm_free_pages_def snd_conv] p3[unfolded arm64_vm_free_pages_def snd_conv]
        arm64_vm_free_pages_def bind_eq_Some_conv)
qed

lemma asid_inv_alloc [simp]:
  "asid_inv (s\<lparr>kheap := h, phys := ph\<rparr>) = asid_inv s" "current (s\<lparr>kheap := h, phys := ph\<rparr>) = current s"
  "hw_asid (s\<lparr>kheap := h, phys := ph\<rparr>) = hw_asid s"
  by (simp_all add: asid_inv_def pool_ok_def slot_def current_def hw_asid_def fun_eq_iff)

lemma remove_vm_inv:
  assumes inv: "asid_inv s" and idle: "\<And>cpu. asid_active_vm s cpu \<noteq> p"
  shows "asid_inv (s\<lparr>vms := (vms s)(p := None)\<rparr>)"
proof -
  let ?s = "s\<lparr>vms := (vms s)(p := None)\<rparr>"
  have c: "current ?s q = (q \<noteq> p \<and> current s q)" "q \<noteq> p \<Longrightarrow> hw_asid ?s q = hw_asid s q" for q
    by (auto simp: current_def hw_asid_def)
  have "pool_ok ?s" using asid_invD(1)[OF inv] by (simp add: pool_ok_def slot_def)
  then show ?thesis unfolding asid_inv_def c(1) using asid_invD[OF inv] idle c(2) by (auto split: if_splits)
qed

lemma release_fields:
  "vms (release_asid s a) = vms s" "asid_active_vm (release_asid s a) = asid_active_vm s"
  by (simp_all add: release_asid_def release_asid_locked_def Let_def)

lemma destroy_inv:
  assumes inv: "asid_inv s" and vm: "vms s p = Some vm" and idle: "\<And>cpu. asid_active_vm s cpu \<noteq> p"
    and run: "arm64_user_vm_destroy e cpu vm s = Some (0, vm', s')"
  shows "asid_inv (s'\<lparr>vms := (vms s')(p := None)\<rparr>)"
proof -
  obtain ph h where s': "s' = release_asid (s\<lparr>kheap := h, phys := ph\<rparr>) (asid vm)" using destroy_pool[OF run] by auto
  let ?s = "s\<lparr>kheap := h, phys := ph, vms := (vms s)(p := None)\<rparr>"
  have "asid_inv (s\<lparr>kheap := h, phys := ph\<rparr>)" using inv by simp
  then have i: "asid_inv ?s" using remove_vm_inv[of "s\<lparr>kheap := h, phys := ph\<rparr>" p] idle by simp
  have mine: "hw_asid ?s q \<noteq> arm64_asid_hw (asid vm)" if "current ?s q" "drop_bit 8 (asid vm) = asid_generation ?s" for q
  proof
    assume eq: "hw_asid ?s q = arm64_asid_hw (asid vm)"
    have q: "q \<noteq> p" "current s q" "hw_asid s q = hw_asid s p" "current s p"
      using that eq vm by (auto simp: current_def hw_asid_def split: if_splits)
    then show False using asid_invD(4)[OF inv q(2,4,3)] by blast
  qed
  have "s'\<lparr>vms := (vms s')(p := None)\<rparr> = release_asid ?s (asid vm)"
    unfolding s' by (simp add: release_asid_def release_asid_locked_def Let_def cong: if_cong)
  then show ?thesis using release_inv[OF i mine] by simp
qed

text \<open>One event of the system, as far as ASIDs are concerned. \<open>fill\<close> is the hardware: a CPU that runs an address
  space may cache any translation under its ASID. The generation counter has 32 bits but an ASID stores only 24
  of them; the relation covers the generations below that bound.\<close>

inductive asid_step :: "platform \<Rightarrow> machine \<Rightarrow> machine \<Rightarrow> bool" for e where
  create: "arm64_user_vm_init e p s = (0, vm, s') \<Longrightarrow> vms s p = None \<Longrightarrow> p \<noteq> 0 \<Longrightarrow> asid_generation s < 0xFFFFFF \<Longrightarrow>
    asid_step e s (put_vm s' p vm)"
| create_fails: "arm64_user_vm_init e p s = (r, vm, s') \<Longrightarrow> r \<noteq> 0 \<Longrightarrow> asid_generation s < 0xFFFFFF \<Longrightarrow> asid_step e s s'"
| activate: "arm64_user_vm_activate s cpu p = (r, s') \<Longrightarrow> asid_generation s < 0xFFFFFF \<Longrightarrow> asid_step e s s'"
| deactivate: "asid_step e s (arm64_user_vm_deactivate_cpu s cpu)"
| destroy: "vms s p = Some vm \<Longrightarrow> (\<And>c. asid_active_vm s c \<noteq> p) \<Longrightarrow> arm64_user_vm_destroy e cpu vm s = Some (0, vm', s') \<Longrightarrow>
    asid_step e s (s'\<lparr>vms := (vms s')(p := None)\<rparr>)"
| fill: "asid_active_vm s cpu = p \<Longrightarrow> p \<noteq> 0 \<Longrightarrow>
    asid_step e s (s\<lparr>hw := (hw s)\<lparr>tlb := (tlb (hw s))(cpu := (tlb (hw s) cpu)(hw_asid s p := (tlb (hw s) cpu (hw_asid s p))(vpn \<mapsto> d)))\<rparr>\<rparr>)"

inductive_cases asid_stepE: "asid_step e s s'"

lemma asid_step_inv:
  assumes "asid_step e s s'" "asid_inv s"
  shows "asid_inv s'"
  using assms
proof cases
  case (create p vm s'')
  then show ?thesis using init_inv(1)[OF assms(2)] by simp
next
  case (create_fails p r vm)
  then show ?thesis using init_inv(2)[OF assms(2)] by simp
next
  case (activate cpu p r)
  then show ?thesis using activate_inv[OF assms(2)] by simp
next
  case (deactivate cpu)
  then show ?thesis using deactivate_inv[OF assms(2)] by simp
next
  case (destroy p vm cpu vm' s'')
  then show ?thesis using destroy_inv[OF assms(2), of p vm e cpu vm' s''] by simp
next
  case (fill cpu p vpn d)
  have cur: "current s p" using asid_invD(6)[OF assms(2), of cpu] fill by simp
  have "0 < hw_asid s p" "hw_asid s p < 256" "asid_is_allocated (asid_bitmap s) (hw_asid s p)"
    using asid_invD(3)[OF assms(2) cur] asid_hw_less by (auto simp: hw_asid_def)
  then show ?thesis
    unfolding fill(1) using pool_okD(6)[OF asid_invD(1)[OF assms(2)]] by (intro asid_inv_hw[OF assms(2)]) (auto split: if_splits)
qed

lemma boot_asid_inv: "asid_inv (boot_machine ph h)"
  by (auto simp: asid_inv_def pool_ok_def slot_def current_def boot_machine_def boot_mmu_def word_less_nat_alt)

lemma asid_reach_inv: "(asid_step e)\<^sup>*\<^sup>* (boot_machine ph h) s \<Longrightarrow> asid_inv s"
  by (induction rule: rtranclp_induct) (auto intro: boot_asid_inv asid_step_inv)

subsection \<open>Properties\<close>

lemma user_page_attributes:
  "user_page_descriptor pa f AND DESC_PXN = DESC_PXN" "user_page_descriptor pa f AND DESC_NG = DESC_NG"
  "user_page_descriptor pa f AND 0xC0 = (if f AND ARM64_USER_PAGE_WRITE \<noteq> 0 then DESC_AP_RW_EL0 else DESC_AP_RO_EL0)"
  "user_page_descriptor pa f AND DESC_UXN = (if f AND ARM64_USER_PAGE_EXEC = 0 then DESC_UXN else 0)"
  by (simp_all add: user_page_descriptor_def desc_defs Let_def and.assoc bit.conj_disj_distrib2)

lemma flags_wx:
  assumes "arm64_user_vm_flags_valid f" "prot f AND ARM64_USER_PAGE_WRITE \<noteq> 0"
  shows "prot f AND ARM64_USER_PAGE_EXEC = 0"
proof -
  have wx: "f AND 6 \<noteq> 6" "f AND 2 \<noteq> 0"
    using assms by (simp_all add: arm64_user_vm_flags_valid_def prot_def vma_flag_defs desc_defs and.assoc)
  have b: "bit f 1" using wx(2) by (simp add: bit_iff_and_push_bit_not_eq_0)
  have "\<not> bit f 2"
  proof
    assume "bit f 2"
    then have "f AND 6 = 6"
      using b by (intro bit_word_eqI) (auto simp: bit_and_iff bit_numeral_rec(1) numeral_eq_Suc less_Suc_eq)
    then show False using wx(1) by blast
  qed
  then have "f AND 4 = 0" by (simp add: bit_iff_and_push_bit_not_eq_0)
  then show ?thesis by (simp add: prot_def vma_flag_defs desc_defs and.assoc)
qed

lemma walk_of_inv:
  "vm_inv e s vm P R \<Longrightarrow> user_va va \<Longrightarrow> user_walk (pmem (phys s)) (l1 vm) va = map_option mapping_desc (lookup_map vm va)"
  using walk_agrees vm_invD(1) by (simp add: vm_ok_def)

text \<open>An address space for the examples: three pages of the small arena are its tables, the heap holds its arrays,
  and nothing is mapped yet.\<close>

definition demo_page :: "u64 \<Rightarrow> page_info" where
  "demo_page a = mark_used a 1 zero_info"

definition demo_tables :: physmem where
  "demo_tables = demo_pages\<lparr>page_infos := [demo_page 0x3000, demo_page 0x4000, demo_page 0x5000, zero_info, zero_info]\<rparr>"

lemma demo_tables_owned: "owns demo_platform demo_tables {0x3000, 0x4000, 0x5000}"
proof -
  have mx: "max_pages demo_platform demo_tables = 4"
    by (simp add: max_pages_def demo_platform_def demo_boot_def demo_tables_def demo_pages_def boot_physmem_def ram_end_def)
  have ar: "arena_ok demo_platform demo_tables"
    unfolding arena_ok_def mx by (simp add: demo_platform_def demo_boot_def demo_tables_def demo_pages_def boot_physmem_def ram_end_def)
  have pa: "page_addr demo_tables i = 0x3000 + of_nat i * 4096" for i
    by (simp add: page_addr_def demo_tables_def demo_pages_def)
  have infos: "page_infos demo_tables = [demo_page 0x3000, demo_page 0x4000, demo_page 0x5000, zero_info, zero_info]"
    by (simp add: demo_tables_def)
  have i4: "i < 4 \<Longrightarrow> i = 0 \<or> i = 1 \<or> i = 2 \<or> i = (3 :: nat)" for i by linarith
  have "pm_inv demo_platform demo_tables {(0, 1), (1, 1), (2, 1)}"
    unfolding pm_inv_def mx infos pa using ar
    by (auto simp: block_pages_def demo_page_def mark_used_def zero_info_def dest!: i4)
  moreover have "{page_addr demo_tables r |r. (r, 1) \<in> {(0, 1), (1, 1), (2, 1 :: nat)}} = {0x3000, 0x4000, 0x5000}"
  proof -
    have "{page_addr demo_tables r |r. (r, 1) \<in> {(0, 1), (1, 1), (2, 1 :: nat)}} = page_addr demo_tables ` {0, 1, 2}" by auto
    then show ?thesis by (simp add: pa)
  qed
  ultimately show ?thesis unfolding owns_def by blast
qed

lemma demo_arrays:
  obtains h where "kheap_live h [(0x1388, 64), (0x1330, 64), (0x1018, 768)]"
proof -
  obtain h1 where h1: "kheap_inv h1 [(0x1318, 0x1FCD8)] {(0x1000, 0x318)}"
    using kmalloc_spec[OF demo_heap_inv, of 768] by (auto simp: align_up_def rest_of_def)
  obtain h2 where h2: "kheap_inv h2 [(0x1370, 0x1FC80)] {(0x1318, 0x58), (0x1000, 0x318)}"
    using kmalloc_spec[OF h1, of 64] by (auto simp: align_up_def rest_of_def)
  obtain h3 where h3: "kheap_inv h3 [(0x13C8, 0x1FC28)] {(0x1370, 0x58), (0x1318, 0x58), (0x1000, 0x318)}"
    using kmalloc_spec[OF h2, of 64] by (auto simp: align_up_def rest_of_def)
  have "kheap_live h3 [(0x1388, 64), (0x1330, 64), (0x1018, 768)]"
    unfolding kheap_live_def using h3 by (auto simp: blk_of_def align_up_def)
  from that[OF this] show ?thesis .
qed

definition demo_mem0 :: bmem where
  "demo_mem0 = set_entry (clear_table (\<lambda>_. 0) 0x3000) 0x3000 1 kernel_block_descriptor"

definition demo_mem1 :: bmem where
  "demo_mem1 = set_entry (clear_table demo_mem0 0x4000) 0x3000 0 (table_descriptor 0x4000)"

definition demo_mem2 :: bmem where
  "demo_mem2 = set_entry (clear_table demo_mem1 0x5000) 0x4000 2 (table_descriptor 0x5000)"

definition demo_vm :: arm64_user_vm where
  "demo_vm = (empty_vm 0x7000)\<lparr>magic := ARM64_USER_VM_MAGIC, l1 := 0x3000, asid := 0x101, mapping_capacity := 32,
     l2_table_capacity := 4, l3_table_capacity := 4, mappings_ptr := 0x1018, l2_ptr := 0x1330, l3_ptr := 0x1388,
     l2_tables := [\<lparr>l2_l1 = 0, l2_table = 0x4000\<rparr>], l3_tables := [\<lparr>l3_l1 = 0, l3_l2 = 2, l3_table = 0x5000\<rparr>],
     space := empty_space\<lparr>pgdir := 0x3000, pgdir_alloc := 0x3000, space_asid := 0x101, arch_private := 0x7000\<rparr>\<rparr>"

definition demo_machine :: "kheap \<Rightarrow> machine" where
  "demo_machine h = boot_machine (demo_tables\<lparr>pmem := demo_mem2\<rparr>) h"

lemma demo_vm_ok: "vm_ok demo_mem2 demo_vm"
proof -
  have v: "table_address_valid 0x3000" "table_address_valid 0x4000" "table_address_valid 0x5000"
    by (simp_all add: table_address_valid_def ARM64_TABLE_MASK_def)
  let ?v0 = "demo_vm\<lparr>l2_tables := [], l3_tables := []\<rparr>" and ?v1 = "demo_vm\<lparr>l3_tables := []\<rparr>"
  have 0: "vm_ok demo_mem0 ?v0"
    unfolding demo_mem0_def by (rule init_tables_ok) (simp_all add: v demo_vm_def empty_vm_def)
  have "vm_ok demo_mem1 (?v0\<lparr>l2_tables := l2_tables ?v0 @ [\<lparr>l2_l1 = 0, l2_table = 0x4000\<rparr>]\<rparr>)"
    using add_l2[OF 0, of 0 "0x4000"] v by (simp add: demo_mem1_def tables_of_def demo_vm_def)
  moreover have "?v0\<lparr>l2_tables := l2_tables ?v0 @ [\<lparr>l2_l1 = 0, l2_table = 0x4000\<rparr>]\<rparr> = ?v1" by (simp add: demo_vm_def)
  ultimately have 1: "vm_ok demo_mem1 ?v1" by simp
  have "vm_ok demo_mem2 (?v1\<lparr>l3_tables := l3_tables ?v1 @ [\<lparr>l3_l1 = 0, l3_l2 = 2, l3_table = 0x5000\<rparr>]\<rparr>)"
    using add_l3[OF 1, of "\<lparr>l2_l1 = 0, l2_table = 0x4000\<rparr>" 0 2 "0x5000"] v by (simp add: demo_mem2_def tables_of_def demo_vm_def)
  moreover have "?v1\<lparr>l3_tables := l3_tables ?v1 @ [\<lparr>l3_l1 = 0, l3_l2 = 2, l3_table = 0x5000\<rparr>]\<rparr> = demo_vm" by (simp add: demo_vm_def)
  ultimately show ?thesis by simp
qed

lemma demo_space:
  obtains h where "vm_inv demo_platform (demo_machine h) demo_vm {0x3000, 0x4000, 0x5000} {}"
proof -
  obtain h where "kheap_live h [(0x1388, 64), (0x1330, 64), (0x1018, 768)]" by (rule demo_arrays)
  then have "heap_set h {(0x1018, 768), (0x1330, 64), (0x1388, 64)}"
    unfolding heap_set_def by (intro exI[of _ "[(0x1388, 64), (0x1330, 64), (0x1018, 768)]"]) auto
  then have "heap_ok h demo_vm {}"
    by (simp add: heap_ok_def vm_blocks_def arr_def ptrs_ok_def demo_vm_def empty_vm_def insert_commute)
  moreover have "owns demo_platform (phys (demo_machine h)) {0x3000, 0x4000, 0x5000}"
    using demo_tables_owned by (simp add: demo_machine_def boot_machine_def)
  moreover have "ident_ok demo_vm"
    by (simp add: ident_ok_def demo_vm_def empty_vm_def arm64_asid_hw_def ARM64_ASID_COUNT_def)
  moreover have "counts_ok demo_vm" "set (tables_of demo_vm) = {0x3000, 0x4000, 0x5000}"
    by (auto simp: counts_ok_def demo_vm_def empty_vm_def tables_of_def)
  moreover have "coherent (hw (demo_machine h)) demo_vm" "unat (ram_end demo_platform) \<le> 2 ^ 48"
    by (simp_all add: coherent_def demo_machine_def boot_machine_def boot_mmu_def demo_platform_def demo_boot_def ram_end_def)
  ultimately have "vm_inv demo_platform (demo_machine h) demo_vm {0x3000, 0x4000, 0x5000} {}"
    using demo_vm_ok by (simp add: vm_inv_def demo_machine_def boot_machine_def)
  from that[OF this] show ?thesis .
qed

text \<open>With its table in place and room in the array, mapping a free page cannot fail.\<close>

lemma map_ready:
  assumes inv: "vm_inv e s vm P R" and pa: "pa \<noteq> 0" "table_address_valid pa" and va: "user_va va" "lookup_map vm va = None"
    and fl: "arm64_user_vm_flags_valid (flags AND NOT VMA_LAZY)" and room: "length (mappings vm) < unat (mapping_capacity vm)"
    and t: "t \<in> set (l3_tables vm)" "l3_key t = va_key va"
  obtains vm' s' where "arm64_user_vm_map_page e vm s va pa flags = Some (0, vm', s')" "vm_step e R (s, vm, P) (s', vm', P)"
    "lookup_map vm' = (lookup_map vm)(va \<mapsto> \<lparr>virtual_address = va, physical_address = pa, mflags = flags AND NOT VMA_LAZY\<rparr>)"
proof -
  note I = vm_invD[OF inv]
  let ?mp = "\<lparr>virtual_address = va, physical_address = pa, mflags = flags AND NOT VMA_LAZY\<rparr>"
  have ix: "mapping_index vm va = length (mappings vm)"
    using I(2) va(2) by (cases rule: mapping_index_cases[of vm va]) auto
  have "item_count (mappings vm) + 1 \<le> mapping_capacity vm"
  proof -
    have l: "length (mappings vm) \<le> 2 ^ 27" by (rule inventory_bounds(3)[OF I(2)])
    then have "unat (item_count (mappings vm)) = length (mappings vm)" by (simp add: item_count_def unsigned_of_nat take_bit_nat_eq_self)
    then have "unat (item_count (mappings vm) + 1) = length (mappings vm) + 1" using l by (simp add: unat_word_ariths)
    then show ?thesis using room by (simp add: word_le_nat_alt)
  qed
  then have r1: "reserve_mappings vm s (item_count (mappings vm) + 1) = Some (0, vm, s)" by (simp add: reserve_mappings_def)
  have "va_key va \<in> l3_key ` set (l3_tables vm)" using t by (metis imageI)
  then obtain u where f: "find_l3 vm va = Some u" using find_l3D(2)[of vm va] by (cases "find_l3 vm va") auto
  have u: "u \<in> set (l3_tables vm)" "l3_key u = va_key va" using find_l3D(1)[OF f] by auto
  have r2: "ensure_l3 e vm s va = Some (0, l3_table u, vm, s)" using f by (simp add: ensure_l3_def)
  have mo: "mapping_ok ?mp" using va(1) pa fl by (simp add: mapping_ok_def)
  obtain mh where M: "arm64_mmu_map_user_l3_page (pmem (phys s)) (hw s) (l3_table u) va pa (prot (flags AND NOT VMA_LAZY)) (arm64_asid_hw (asid vm)) = (0, mh)"
    "vm_step e R (s, vm, P) (set_mem_hw s mh, vm\<lparr>mappings := mappings vm @ [?mp]\<rparr>, P)"
    "lookup_map (vm\<lparr>mappings := mappings vm @ [?mp]\<rparr>) = (lookup_map vm)(va \<mapsto> ?mp)"
    using map_l3_step[OF inv u(1) _ _ mo room] u(2) va(2) by auto
  obtain vm4 s4 where N: "new_tlb_generation (vm\<lparr>mappings := mappings vm @ [?mp]\<rparr>) (set_mem_hw s mh) = (vm4, s4)"
    "vm_step e R (set_mem_hw s mh, vm\<lparr>mappings := mappings vm @ [?mp]\<rparr>, P) (s4, vm4, P)"
    "mappings vm4 = mappings (vm\<lparr>mappings := mappings vm @ [?mp]\<rparr>)"
    by (rule new_tlb_step[OF vm_stepD[OF M(2), THEN conjunct1]])
  have run: "arm64_user_vm_map_page e vm s va pa flags = Some (0, vm4, s4)"
    using vm_inv_valid[OF inv] va(1) pa(2) fl ix r1 r2 M(1) N(1)
    by (simp add: arm64_user_vm_map_page_def Let_def PAGE_OFFSET_MASK_def user_va_def page_mask table_address_valid_def prot_def)
  show ?thesis using that[OF run vm_step_trans[OF M(2) N(2)]] lookup_map_same[OF N(3)] M(3) by simp
qed

lemma demo_mapped:
  obtains h vm s where "arm64_user_vm_map_page demo_platform demo_vm (demo_machine h) 0x400000 0x6000 3 = Some (0, vm, s)"
    "vm_inv demo_platform s vm {0x3000, 0x4000, 0x5000} {}" "lookup_map vm 0x400000 = Some \<lparr>virtual_address = 0x400000, physical_address = 0x6000, mflags = 3\<rparr>"
proof -
  obtain h where h: "vm_inv demo_platform (demo_machine h) demo_vm {0x3000, 0x4000, 0x5000} {}" by (rule demo_space)
  have a: "(0x6000 :: u64) \<noteq> 0" "table_address_valid 0x6000" "user_va 0x400000" "lookup_map demo_vm 0x400000 = None"
    "arm64_user_vm_flags_valid (3 AND NOT VMA_LAZY)" "length (mappings demo_vm) < unat (mapping_capacity demo_vm)"
    by (simp_all add: table_address_valid_def ARM64_TABLE_MASK_def user_va_def page_def demo_vm_def empty_vm_def lookup_map_def
        arm64_user_vm_flags_valid_def vma_flag_defs)
  have t: "\<lparr>l3_l1 = 0, l3_l2 = 2, l3_table = 0x5000\<rparr> \<in> set (l3_tables demo_vm)" "l3_key \<lparr>l3_l1 = 0, l3_l2 = 2, l3_table = 0x5000\<rparr> = va_key 0x400000"
    by (simp_all add: demo_vm_def l3_key_def va_key_def l1_index_def l2_index_def)
  from h a t obtain vm s where m: "arm64_user_vm_map_page demo_platform demo_vm (demo_machine h) 0x400000 0x6000 3 = Some (0, vm, s)"
    "vm_step demo_platform {} (demo_machine h, demo_vm, {0x3000, 0x4000, 0x5000}) (s, vm, {0x3000, 0x4000, 0x5000})"
    "lookup_map vm = (lookup_map demo_vm)(0x400000 \<mapsto> \<lparr>virtual_address = 0x400000, physical_address = 0x6000, mflags = 3 AND NOT VMA_LAZY\<rparr>)"
    by (rule map_ready)
  have "lookup_map vm 0x400000 = Some \<lparr>virtual_address = 0x400000, physical_address = 0x6000, mflags = 3\<rparr>"
    unfolding m(3) by (simp add: vma_flag_defs)
  then show ?thesis using that[OF m(1)] vm_stepD[OF m(2)] by blast
qed

lemma init_returns:
  assumes inv: "asid_inv s" "asid_generation s < 0xFFFFFF" and own: "owns e (phys s) P" and run: "has_run e (phys s) 1"
    and ram: "unat (ram_end e) \<le> 2 ^ 48"
  obtains vm s' where "arm64_user_vm_init e p s = (0, vm, s')"
proof -
  obtain x s1 where x: "allocate_asid_locked s = (x, s1)" by fastforce
  note F = allocate_fresh[OF inv x, unfolded fresh_asid_def] and same = allocate_same[OF x]
  obtain a where a: "a < 256" "x = arm64_asid_make (asid_generation s1) a" "asid_inv s1" using F by blast
  note pool1 = pool_okD[OF asid_invD(1)[OF a(3)]]
  have x0: "x \<noteq> 0" using asid_make_fields(3)[OF pool1(4) a(1)] pool1(3) a(2) by simp
  have own1: "owns e (phys s1) P" using own same by simp
  from own1 show ?thesis
  proof (cases rule: alloc_page_cases)
    case none
    obtain B where B: "pm_inv e (phys s) B" using own by (auto simp: owns_def)
    have "snd (buddy_alloc e (phys s) 1) \<noteq> 0"
      using buddy_alloc_some[OF B, of 1] run by fastforce
    then show ?thesis using none same by (auto simp: arm64_vm_alloc_pages_def allocate_pages_def split: prod.splits if_splits)
  next
    case (some t ph)
    have tv: "table_address_valid t" using owns_valid[OF some(2) _ ram] by simp
    then have "fst (arm64_user_vm_init e p s) = 0"
      using x x0 some(1)
      by (simp add: arm64_user_vm_init_def allocate_asid_def Let_def arm64_mmu_prepare_user_ttbr0_def split: prod.split)
    then show ?thesis using that by (cases "arm64_user_vm_init e p s") auto
  qed
qed

lemma init_current:
  assumes inv: "asid_inv s" "asid_generation s < 0xFFFFFF" and run: "arm64_user_vm_init e p s = (0, vm, s')"
  shows "current (put_vm s' p vm) p"
proof -
  from run obtain x s1 where x: "allocate_asid_locked s = (x, s1)" "asid vm = x" "\<exists>ph n. s' = s1\<lparr>phys := ph, next_tlb_generation := n\<rparr>"
    by (rule init_pool) auto
  obtain a where a: "a < 256" "x = arm64_asid_make (asid_generation s1) a" "asid_inv s1"
    using allocate_fresh[OF inv x(1)] unfolding fresh_asid_def by blast
  have "drop_bit 8 x = asid_generation s1" using asid_make_fields(2)[OF pool_okD(4)[OF asid_invD(1)[OF a(3)]] a(1)] a(2) by simp
  then show ?thesis using x(2,3) by (auto simp: current_def put_vm_def)
qed

lemma demo_boot_ready:
  "asid_generation (boot_machine demo_pages demo_heap) < 0xFFFFFF" "owns demo_platform (phys (boot_machine demo_pages demo_heap)) {}"
  "has_run demo_platform (phys (boot_machine demo_pages demo_heap)) 1" "unat (ram_end demo_platform) \<le> 2 ^ 48"
proof -
  show "owns demo_platform (phys (boot_machine demo_pages demo_heap)) {}"
    unfolding owns_def by (intro exI[of _ "{}"]) (simp add: boot_machine_def demo_pages_inv)
  show "has_run demo_platform (phys (boot_machine demo_pages demo_heap)) 1"
    unfolding boot_machine_def machine.simps has_run_def demo_max
    by (intro exI[of _ 0]) (simp add: run_free_def page_free_def demo_pages_def boot_physmem_def zero_info_def)
qed (simp_all add: boot_machine_def demo_platform_def demo_boot_def ram_end_def)

lemma demo_boot_init:
  obtains vm s where "arm64_user_vm_init demo_platform 0x5000 (boot_machine demo_pages demo_heap) = (0, vm, s)"
  by (rule init_returns[OF boot_asid_inv demo_boot_ready])

text \<open>C20. An address space is a map from pages to mappings, and the hardware sees that map: any sequence of
  \<open>arm64_user_vm_map_page\<close>, \<open>arm64_user_vm_unmap_page\<close> and \<open>arm64_user_vm_protect_page\<close> returns, each call does on the
  recorded map what its contract says (error codes included), and after the sequence a walk of the translation
  tables in memory yields, for every user address, exactly the descriptor of the recorded mapping, while no
  allocated page outside the tables of this address space has changed.\<close>

theorem user_vm_refines:
  assumes "vm_inv e s vm P R" "list_all vm_legal cs"
  shows "\<exists>rs vm' s' P'. run_cmds (vm_exec e) cs (vm, s) = Some (rs, vm', s') \<and> vm_inv e s' vm' P' R \<and>
    spec_run vm_spec cs (lookup_map vm) rs (lookup_map vm') \<and>
    (\<forall>va. user_va va \<longrightarrow> user_walk (pmem (phys s')) (l1 vm) va = map_option mapping_desc (lookup_map vm' va)) \<and>
    (\<forall>p \<in> P - set (tables_of vm). \<forall>x. in_page p x \<longrightarrow> pmem (phys s') x = pmem (phys s) x)"
proof -
  obtain rs vm' s' where r: "run_cmds (vm_exec e) cs (vm, s) = Some (rs, vm', s')" "vm_rel e R (vm, s) (vm', s')"
    "spec_run vm_spec cs (lookup_map vm) rs (lookup_map vm')"
    using user_pages.sim_run[of e R "(vm, s)" cs] assms by auto
  obtain P' where P': "vm_step e R (s, vm, P) (s', vm', P')" using r(2) assms(1) by (auto simp: vm_rel_def)
  have inv': "vm_inv e s' vm' P' R" "l1 vm' = l1 vm" using vm_stepD[OF P'] by auto
  have "user_va va \<Longrightarrow> user_walk (pmem (phys s')) (l1 vm) va = map_option mapping_desc (lookup_map vm' va)" for va
    using walk_of_inv[OF inv'(1)] inv'(2) by simp
  moreover have "\<forall>p \<in> P - set (tables_of vm). \<forall>x. in_page p x \<longrightarrow> pmem (phys s') x = pmem (phys s) x"
    using P' by (simp add: vm_step_def)
  ultimately show ?thesis using r(1,3) inv'(1) by blast
qed

theorem user_vm_refines_witness:
  "\<exists>h rs vm' s'. vm_inv demo_platform (demo_machine h) demo_vm {0x3000, 0x4000, 0x5000} {} \<and>
     run_cmds (vm_exec demo_platform) [VmMap 0x400000 0x6000 3, VmProtect 0x400000 1, VmUnmap 0x400000] (demo_vm, demo_machine h) =
       Some (rs, vm', s') \<and> length rs = 3 \<and> lookup_map vm' 0x400000 = None"
proof -
  obtain h where h: "vm_inv demo_platform (demo_machine h) demo_vm {0x3000, 0x4000, 0x5000} {}" by (rule demo_space)
  have "list_all vm_legal [VmMap 0x400000 0x6000 3, VmProtect 0x400000 1, VmUnmap 0x400000]"
    by (simp add: table_address_valid_def ARM64_TABLE_MASK_def)
  from user_vm_refines[OF h this] obtain rs vm' s' where
    r: "run_cmds (vm_exec demo_platform) [VmMap 0x400000 0x6000 3, VmProtect 0x400000 1, VmUnmap 0x400000] (demo_vm, demo_machine h) = Some (rs, vm', s')"
    "spec_run vm_spec [VmMap 0x400000 0x6000 3, VmProtect 0x400000 1, VmUnmap 0x400000] (lookup_map demo_vm) rs (lookup_map vm')"
    by blast
  have "length rs = 3 \<and> lookup_map vm' 0x400000 = None" using r(2) by (auto split: if_splits)
  then show ?thesis using h r(1) by blast
qed

lemma drop_bit_12:
  fixes a b :: u64
  assumes "drop_bit 12 a = drop_bit 12 b"
  shows "drop_bit 21 a = drop_bit 21 b" "drop_bit 30 a = drop_bit 30 b"
proof -
  have "drop_bit 9 (drop_bit 12 a) = drop_bit 9 (drop_bit 12 b)" "drop_bit 18 (drop_bit 12 a) = drop_bit 18 (drop_bit 12 b)"
    using assms by simp_all
  then show "drop_bit 21 a = drop_bit 21 b" "drop_bit 30 a = drop_bit 30 b" by (simp_all add: drop_bit_drop_bit)
qed

text \<open>C21. No stale translation survives an unmap: unmapping a mapped page returns 0, afterwards the table walk finds
  nothing at that address, no TLB of any CPU holds the page under the ASID of the address space, and every other
  user address translates as before.\<close>

theorem user_unmap_no_stale:
  assumes "vm_inv e s vm P R" "lookup_map vm va = Some mp"
  shows "\<exists>vm' s'. arm64_user_vm_unmap_page e vm s va = (0, vm', s') \<and>
    user_walk (pmem (phys s')) (l1 vm) va = None \<and>
    (\<forall>cpu. tlb (hw s') cpu (arm64_asid_hw (asid vm)) (drop_bit 12 va) = None) \<and>
    (\<forall>va'. user_va va' \<longrightarrow> va' \<noteq> va \<longrightarrow>
       user_walk (pmem (phys s')) (l1 vm) va' = user_walk (pmem (phys s)) (l1 vm) va')"
proof -
  obtain vm' s' P' where u: "arm64_user_vm_unmap_page e vm s va = (0, vm', s')" "vm_step e R (s, vm, P) (s', vm', P')"
    "lookup_map vm' = (lookup_map vm)(va := None)"
    by (rule unmap_step[OF assms])
  have inv': "vm_inv e s' vm' P' R" "l1 vm' = l1 vm" "asid vm' = asid vm" using vm_stepD[OF u(2)] by auto
  have mp: "mp \<in> set (mappings vm)" "virtual_address mp = va" "user_va va"
    using lookup_map_Some[OF vm_invD(2)[OF assms(1)]] assms(2) records_okD(8)[OF vm_invD(2)[OF assms(1)]] by (auto simp: mapping_ok_def)
  have "tlb (hw s') cpu (arm64_asid_hw (asid vm)) (drop_bit 12 va) = None" for cpu
  proof (rule ccontr)
    assume "tlb (hw s') cpu (arm64_asid_hw (asid vm)) (drop_bit 12 va) \<noteq> None"
    then obtain q where q: "q \<in> set (mappings vm')" "drop_bit 12 (virtual_address q) = drop_bit 12 va"
      using vm_invD(8)[OF inv'(1)] inv'(3) by (fastforce simp: coherent_def)
    have "user_va (virtual_address q)" using records_okD(8)[OF vm_invD(2)[OF inv'(1)] q(1)] by (simp add: mapping_ok_def)
    moreover have "va_key (virtual_address q) = va_key va" "l3_index (virtual_address q) = l3_index va"
      using q(2) drop_bit_12[of "virtual_address q" va] by (simp_all add: va_key_def l1_index_def l2_index_def l3_index_def)
    ultimately have "virtual_address q = va" using va_index_inj mp(3) by blast
    then show False using lookup_map_Some[OF vm_invD(2)[OF inv'(1)], of va q] q(1) u(3) by simp
  qed
  moreover have "user_walk (pmem (phys s')) (l1 vm) a = map_option mapping_desc (lookup_map vm' a)"
    "user_walk (pmem (phys s)) (l1 vm) a = map_option mapping_desc (lookup_map vm a)" if "user_va a" for a
    using walk_of_inv[OF inv'(1) that] walk_of_inv[OF assms(1) that] inv'(2) by simp_all
  ultimately show ?thesis using u(1,3) mp(3) by (intro exI[of _ vm'] exI[of _ s']) auto
qed

theorem user_unmap_no_stale_witness:
  "\<exists>h vm s vm' s'. arm64_user_vm_map_page demo_platform demo_vm (demo_machine h) 0x400000 0x6000 3 = Some (0, vm, s) \<and>
     arm64_user_vm_unmap_page demo_platform vm s 0x400000 = (0, vm', s') \<and>
     user_walk (pmem (phys s')) (l1 vm) 0x400000 = None"
proof -
  obtain h vm s where d: "arm64_user_vm_map_page demo_platform demo_vm (demo_machine h) 0x400000 0x6000 3 = Some (0, vm, s)"
    "vm_inv demo_platform s vm {0x3000, 0x4000, 0x5000} {}" "lookup_map vm 0x400000 = Some \<lparr>virtual_address = 0x400000, physical_address = 0x6000, mflags = 3\<rparr>"
    by (rule demo_mapped)
  from user_unmap_no_stale[OF d(2,3)] d(1) show ?thesis by blast
qed

text \<open>C22. User memory is never writable and executable at once, and the kernel never executes it: every descriptor
  the walk of an address space yields has PXN and nG set, points at a page frame, and is either not writable or
  not executable at EL0.\<close>

theorem user_pages_wx:
  assumes "vm_inv e s vm P R" "user_va va" "user_walk (pmem (phys s)) (l1 vm) va = Some d"
  shows "d AND DESC_PXN = DESC_PXN \<and> d AND DESC_NG = DESC_NG \<and> d AND 3 = 3 \<and>
    (d AND 0xC0 = DESC_AP_RW_EL0 \<longrightarrow> d AND DESC_UXN = DESC_UXN)"
proof -
  obtain mp where mp: "lookup_map vm va = Some mp" "d = mapping_desc mp"
    using walk_of_inv[OF assms(1,2)] assms(3) by (cases "lookup_map vm va") auto
  have "mapping_ok mp"
    using lookup_map_Some[OF vm_invD(2)[OF assms(1)]] mp(1) records_okD(8)[OF vm_invD(2)[OF assms(1)]] by blast
  then have "prot (mflags mp) AND ARM64_USER_PAGE_WRITE \<noteq> 0 \<Longrightarrow> prot (mflags mp) AND ARM64_USER_PAGE_EXEC = 0"
    using flags_wx by (simp add: mapping_ok_def)
  then show ?thesis
    unfolding mp(2) mapping_desc_def by (simp add: user_page_attributes user_page_descriptor_fields) (simp add: desc_defs)
qed

theorem user_pages_wx_witness:
  "\<exists>h vm s d. arm64_user_vm_map_page demo_platform demo_vm (demo_machine h) 0x400000 0x6000 3 = Some (0, vm, s) \<and>
     user_walk (pmem (phys s)) (l1 vm) 0x400000 = Some d \<and> d AND DESC_PXN = DESC_PXN \<and> d AND DESC_UXN = DESC_UXN"
proof -
  obtain h vm s where d: "arm64_user_vm_map_page demo_platform demo_vm (demo_machine h) 0x400000 0x6000 3 = Some (0, vm, s)"
    "vm_inv demo_platform s vm {0x3000, 0x4000, 0x5000} {}" "lookup_map vm 0x400000 = Some \<lparr>virtual_address = 0x400000, physical_address = 0x6000, mflags = 3\<rparr>"
    by (rule demo_mapped)
  have va: "user_va 0x400000" by (simp add: user_va_def page_def)
  have w: "user_walk (pmem (phys s)) (l1 vm) 0x400000 = Some (user_page_descriptor 0x6000 3)"
    using walk_of_inv[OF d(2) va] d(3) by (simp add: mapping_desc_def prot_def vma_flag_defs)
  have "user_page_descriptor 0x6000 3 AND 0xC0 = DESC_AP_RW_EL0" by (simp add: user_page_attributes desc_defs)
  then show ?thesis using user_pages_wx[OF d(2) va w] d(1) w by blast
qed





text \<open>C25. The doubling loop of the three inventories ends for every nonzero capacity, with a capacity that suffices or
  with the overflow failure; from capacity 0 it would never end, which is why the callers start at 32 or 4.\<close>

theorem grow_capacity_ends:
  "(capacity \<noteq> 0 \<longrightarrow> (\<exists>r. grow_capacity capacity required = Some r \<and> (\<forall>c. r = Some c \<longrightarrow> required \<le> c))) \<and>
   (required \<noteq> 0 \<longrightarrow> grow_capacity 0 required = None)"
proof -
  have "capacity = 0 \<longrightarrow> required = 0" if "grow_capacity capacity required = Some r" for capacity required r
    using that by (rule grow_capacity.raw_induct[where P = "\<lambda>c q r. c = 0 \<longrightarrow> q = 0", rotated]) (auto split: if_splits simp: word_gt_0)
  then show ?thesis using grow_capacity_returns by (metis option.exhaust)
qed

theorem grow_capacity_ends_witness:
  "(\<exists>r. grow_capacity 32 100 = Some r) \<and> grow_capacity 0 1 = None"
  using grow_capacity_ends[of 32 100] grow_capacity_ends[of 0 1] by auto





text \<open>C28. The generation of the pool has 32 bits but an ASID keeps only 24 of them: from generation \<open>2^24\<close> on, no ASID
  that is handed out ever compares equal to the current generation, so every activation takes a new slot, and a
  release never frees the slot.\<close>

theorem asid_generation_truncated:
  assumes "0x1000000 \<le> asid_generation s" "length (asid_slot_generation s) = 256" "0 < a" "a < 256"
  shows "drop_bit 8 (arm64_asid_make (asid_generation s) a) \<noteq> asid_generation (take_asid s a) \<and>
    release_asid (take_asid s a) (arm64_asid_make (asid_generation s) a) = take_asid s a"
proof -
  let ?x = "arm64_asid_make (asid_generation s) a"
  have hw: "arm64_asid_hw b = take_bit 8 b" for b
    by (simp add: arm64_asid_hw_def ARM64_ASID_COUNT_def take_bit_eq_mask mask_eq_exp_minus_1)
  have a8: "take_bit 8 a = a" using assms(4) by (simp add: word_unat_eq_iff unsigned_take_bit_eq take_bit_nat_eq_self word_less_nat_alt)
  have x: "?x = push_bit 8 (asid_generation s) OR take_bit 8 a" by (simp add: arm64_asid_make_def hw)
  have h: "arm64_asid_hw ?x = a" unfolding x hw using a8 by (auto intro!: bit_word_eqI simp: bit_simps)
  have d: "drop_bit 8 ?x = take_bit 24 (asid_generation s)" unfolding x by (auto intro!: bit_word_eqI simp: bit_simps)
  have "unat (take_bit 24 (asid_generation s)) < 2 ^ 24"
    using take_bit_nat_less_exp[of 24 "unat (asid_generation s)"] by (simp add: unsigned_take_bit_eq)
  moreover have "2 ^ 24 \<le> unat (asid_generation s)" using assms(1) by (simp add: word_le_nat_alt)
  ultimately have ne: "drop_bit 8 ?x \<noteq> asid_generation s" using d by auto
  have "asid_slot_generation (take_asid s a) ! unat a = asid_generation s"
    using slot_update[OF assms(2,4,4)] by (simp add: take_asid_def)
  then show ?thesis using ne h by (simp add: release_asid_def release_asid_locked_def Let_def) (simp add: take_asid_def)
qed

theorem asid_generation_truncated_witness:
  "drop_bit 8 (arm64_asid_make 0x1000000 5) \<noteq> asid_generation (take_asid ((boot_machine demo_pages demo_heap)\<lparr>asid_generation := 0x1000000\<rparr>) 5)"
  using asid_generation_truncated[of "(boot_machine demo_pages demo_heap)\<lparr>asid_generation := 0x1000000\<rparr>" 5]
  by (simp add: boot_machine_def)

end
