(* ===== verification/Shm.thy ===== *)
theory Shm
  imports UserVM
begin

text \<open>
  Shared-memory objects: the object table of \<open>kernel/syscalls/shm.c\<close>, its page vectors and its reference counts.
  An object is named by its index in the table, which is what \<open>file->private_data\<close> points to. The page vector
  of an object is the list \<open>shm_phys\<close> (\<open>pages\<close> is its length) in the heap block \<open>shm_phys_ptr\<close> of
  \<open>shm_capacity\<close> entries. Each operation runs under \<open>shm_lock\<close> and is one step. The system calls
  and the mapping operations are in the theory \<open>ShmCalls\<close>.
\<close>

definition SHM_NAME_MAX :: nat where "SHM_NAME_MAX = 64"
definition SHM_GLOBAL_MAX_BYTES :: u64 where "SHM_GLOBAL_MAX_BYTES = 0x10000000"
definition SHM_GLOBAL_MAX_PAGES :: u32 where "SHM_GLOBAL_MAX_PAGES = 0x10000"

definition ARMOS_SHM_OPEN_CREATE :: u32 where "ARMOS_SHM_OPEN_CREATE = 1"
definition ARMOS_SHM_OPEN_EXCLUSIVE :: u32 where "ARMOS_SHM_OPEN_EXCLUSIVE = 2"
definition ARMOS_SHM_OPEN_READONLY :: u32 where "ARMOS_SHM_OPEN_READONLY = 4"
definition ARMOS_SHM_OPEN_CLOEXEC :: u32 where "ARMOS_SHM_OPEN_CLOEXEC = 8"
definition ARMOS_SHM_OPEN_TRUNCATE :: u32 where "ARMOS_SHM_OPEN_TRUNCATE = 16"

text \<open>The negated error number that the C functions return.\<close>

definition neg :: "errno \<Rightarrow> int" where
  "neg e = - errno_code e"

subsection \<open>The object table\<close>

definition shm_at :: "machine \<Rightarrow> nat \<Rightarrow> shm_object" where
  "shm_at s i = shm_objects s ! i"

definition set_shm :: "machine \<Rightarrow> nat \<Rightarrow> shm_object \<Rightarrow> machine" where
  "set_shm s i obj = s\<lparr>shm_objects := (shm_objects s)[i := obj]\<rparr>"

definition shm_find :: "machine \<Rightarrow> (shm_object \<Rightarrow> bool) \<Rightarrow> nat option" where
  "shm_find s P = (let i = index_where P (shm_objects s) in if i < length (shm_objects s) then Some i else None)"

definition shm_find_by_name :: "machine \<Rightarrow> u8 list \<Rightarrow> nat option" where
  "shm_find_by_name s name = shm_find s (\<lambda>obj. shm_used obj \<and> \<not> shm_unlinked obj \<and> shm_name obj = name)"

definition shm_find_by_id :: "machine \<Rightarrow> u32 \<Rightarrow> nat option" where
  "shm_find_by_id s i = shm_find s (\<lambda>obj. shm_used obj \<and> shm_obj_id obj = i)"

definition shm_alloc_slot :: "machine \<Rightarrow> nat option" where
  "shm_alloc_slot s = shm_find s (\<lambda>obj. \<not> shm_used obj)"

subsection \<open>Pages of an object\<close>

definition free_page_at :: "platform \<Rightarrow> machine \<Rightarrow> u64 \<Rightarrow> machine" where
  "free_page_at e s p = s\<lparr>phys := free_page e (phys s) p\<rparr>"

definition free_page_list :: "platform \<Rightarrow> machine \<Rightarrow> u64 list \<Rightarrow> machine" where
  "free_page_list e s ps = foldl (free_page_at e) s ps"

definition shm_free_object_pages :: "platform \<Rightarrow> machine \<Rightarrow> nat \<Rightarrow> machine option" where
  "shm_free_object_pages e s i =
     (let obj = shm_at s i;
          s1 = free_page_list e s (filter (\<lambda>p. p \<noteq> 0) (shm_phys obj));
          pages = item_count (shm_phys obj);
          s2 = s1\<lparr>shm_global_pages := (if pages \<le> shm_global_pages s1 then shm_global_pages s1 - pages else 0)\<rparr>
      in do {
        h \<leftarrow> kfree (kheap s2) (shm_phys_ptr obj);
        Some (set_shm (s2\<lparr>kheap := h\<rparr>) i (obj\<lparr>shm_phys := [], shm_phys_ptr := 0, shm_capacity := 0\<rparr>))
      })"

text \<open>The allocation loop of \<open>shm_resize_locked\<close>: the pages it got before it was done or memory ran out.\<close>

fun shm_allocate :: "platform \<Rightarrow> machine \<Rightarrow> nat \<Rightarrow> u64 list \<times> machine" where
  "shm_allocate e s 0 = ([], s)"
| "shm_allocate e s (Suc n) =
     (let (ph, page) = allocate_page e (phys s); s1 = s\<lparr>phys := ph\<rparr> in
      if page = 0 then ([], s1)
      else let (ps, s2) = shm_allocate e s1 n in (page # ps, s2))"

definition shm_resize_locked :: "platform \<Rightarrow> machine \<Rightarrow> nat \<Rightarrow> u64 \<Rightarrow> (int \<times> machine) option" where
  "shm_resize_locked e s i requested_size =
     (let obj = shm_at s i in
      if \<not> shm_used obj then Some (neg EINVAL, s)
      else if SHM_GLOBAL_MAX_BYTES < requested_size then Some (neg EFBIG, s)
      else let requested_size = align_up requested_size PAGE_SIZE;
               new_pages = ucast (requested_size div PAGE_SIZE) :: u32;
               old_pages = item_count (shm_phys obj) in
      if new_pages = old_pages then Some (0, set_shm s i (obj\<lparr>shm_size := requested_size\<rparr>))
      else if new_pages < old_pages then
        if shm_mappings obj \<noteq> 0 then Some (neg EBUSY, s)
        else let s1 = free_page_list e s (drop (unat new_pages) (shm_phys obj)) in
          Some (0, set_shm (s1\<lparr>shm_global_pages := shm_global_pages s1 - (old_pages - new_pages)\<rparr>) i
                     (obj\<lparr>shm_phys := take (unat new_pages) (shm_phys obj), shm_size := requested_size\<rparr>))
      else if SHM_GLOBAL_MAX_PAGES - shm_global_pages s < new_pages - old_pages then Some (neg ENOSPC, s)
      else do {
        (h1, new_phys) \<leftarrow> (if shm_capacity obj < new_pages then kcalloc (kheap s) (ucast new_pages) 8
                           else Some (kheap s, shm_phys_ptr obj));
        if shm_capacity obj < new_pages \<and> new_phys = 0 then Some (neg ENOMEM, s\<lparr>kheap := h1\<rparr>)
        else let (ps, s1) = shm_allocate e (s\<lparr>kheap := h1\<rparr>) (unat (new_pages - old_pages)) in
        if length ps \<noteq> unat (new_pages - old_pages) then do {
          let s2 = free_page_list e s1 (rev ps);
          h2 \<leftarrow> (if new_phys \<noteq> shm_phys_ptr obj then kfree (kheap s2) new_phys else Some (kheap s2));
          Some (neg ENOMEM, s2\<lparr>kheap := h2\<rparr>)
        } else do {
          h2 \<leftarrow> (if new_phys \<noteq> shm_phys_ptr obj then kfree (kheap s1) (shm_phys_ptr obj) else Some (kheap s1));
          Some (0, set_shm (s1\<lparr>kheap := h2, shm_global_pages := shm_global_pages s1 + (new_pages - old_pages)\<rparr>) i
                     (obj\<lparr>shm_phys := shm_phys obj @ ps, shm_size := requested_size, shm_phys_ptr := new_phys,
                          shm_capacity := (if new_phys \<noteq> shm_phys_ptr obj then new_pages else shm_capacity obj)\<rparr>))
        }
      })"

definition shm_try_destroy_locked :: "platform \<Rightarrow> machine \<Rightarrow> nat \<Rightarrow> machine option" where
  "shm_try_destroy_locked e s i =
     (let obj = shm_at s i in
      if \<not> shm_used obj \<or> \<not> shm_unlinked obj \<or> shm_mappings obj \<noteq> 0 \<or> shm_handles obj \<noteq> 0 then Some s
      else do {
        s1 \<leftarrow> shm_free_object_pages e s i;
        Some (set_shm s1 i zero_shm)
      })"

subsection \<open>Descriptors\<close>

text \<open>The locked part of \<open>shm_file_close\<close>, which \<open>shm_install_handle\<close> repeats when it cannot build a file.\<close>

definition shm_file_close :: "platform \<Rightarrow> machine \<Rightarrow> nat \<Rightarrow> machine option" where
  "shm_file_close e s i =
     (let obj = shm_at s i;
          s1 = (if shm_used obj \<and> 0 < shm_handles obj
                then set_shm s i (obj\<lparr>shm_handles := shm_handles obj - 1\<rparr>) else s)
      in shm_try_destroy_locked e s1 i)"

definition shm_file_truncate :: "platform \<Rightarrow> machine \<Rightarrow> nat \<Rightarrow> 64 word \<Rightarrow> (int \<times> machine) option" where
  "shm_file_truncate e s i len =
     (if sint len < 0 then Some (neg EINVAL, s) else shm_resize_locked e s i len)"

text \<open>\<open>files\<close> tells whether \<open>create_file\<close> and \<open>create_inode\<close> both succeed and what \<open>vfs_install_file\<close>
  returns; a file that cannot be installed is closed, which drops the handle again.\<close>

definition shm_install_handle :: "platform \<Rightarrow> bool \<times> int \<Rightarrow> machine \<Rightarrow> nat \<Rightarrow> (int \<times> machine) option" where
  "shm_install_handle e files s i =
     (if \<not> fst files then do {
        s1 \<leftarrow> shm_file_close e s i;
        Some (neg ENOMEM, s1)
      } else if snd files < 0 then do {
        s1 \<leftarrow> shm_file_close e s i;
        Some (snd files, s1)
      } else Some (snd files, s))"

text \<open>The part of \<open>sys_shm_open\<close> under the lock: an error, or the object whose handle was counted.\<close>

definition shm_open_locked :: "platform \<Rightarrow> machine \<Rightarrow> u8 list \<Rightarrow> u64 \<Rightarrow> u32 \<Rightarrow> ((int + nat) \<times> machine) option" where
  "shm_open_locked e s name sz flags =
     (case shm_find_by_name s name of
        Some i \<Rightarrow>
          if flags AND ARMOS_SHM_OPEN_CREATE \<noteq> 0 \<and> flags AND ARMOS_SHM_OPEN_EXCLUSIVE \<noteq> 0
          then Some (Inl (neg EEXIST), s)
          else if shm_size (shm_at s i) < sz then Some (Inl (neg EINVAL), s)
          else do {
            (r, s1) \<leftarrow> (if flags AND ARMOS_SHM_OPEN_TRUNCATE \<noteq> 0 then shm_resize_locked e s i 0 else Some (0, s));
            if r < 0 then Some (Inl r, s1)
            else Some (Inr i, set_shm s1 i ((shm_at s1 i)\<lparr>shm_handles := shm_handles (shm_at s1 i) + 1\<rparr>))
          }
      | None \<Rightarrow>
          if flags AND ARMOS_SHM_OPEN_CREATE = 0 then Some (Inl (neg ENOENT), s)
          else case shm_alloc_slot s of
            None \<Rightarrow> Some (Inl (neg ENFILE), s)
          | Some i \<Rightarrow>
              let next = shm_next_id s + 1;
                  s1 = set_shm (s\<lparr>shm_next_id := (if next = 0 then 1 else next)\<rparr>) i
                         (zero_shm\<lparr>shm_used := True, shm_obj_id := shm_next_id s,
                                   shm_name := take (SHM_NAME_MAX - 1) name\<rparr>)
              in do {
                (r, s2) \<leftarrow> shm_resize_locked e s1 i sz;
                if r < 0 then Some (Inl r, set_shm s2 i zero_shm)
                else Some (Inr i, set_shm s2 i ((shm_at s2 i)\<lparr>shm_handles := 1\<rparr>))
              })"

text \<open>The part of \<open>sys_shm_unlink\<close> under the lock.\<close>

definition shm_unlink_locked :: "platform \<Rightarrow> machine \<Rightarrow> u8 list \<Rightarrow> (int \<times> machine) option" where
  "shm_unlink_locked e s name =
     (case shm_find_by_name s name of
        None \<Rightarrow> Some (neg ENOENT, s)
      | Some i \<Rightarrow> do {
          s1 \<leftarrow> shm_try_destroy_locked e (set_shm s i ((shm_at s i)\<lparr>shm_unlinked := True, shm_name := []\<rparr>)) i;
          Some (0, s1)
        })"

subsection \<open>References from mappings\<close>

definition shm_retain_mapping :: "machine \<Rightarrow> u32 \<Rightarrow> machine" where
  "shm_retain_mapping s k =
     (case shm_find_by_id s k of
        None \<Rightarrow> s
      | Some i \<Rightarrow> set_shm s i ((shm_at s i)\<lparr>shm_mappings := shm_mappings (shm_at s i) + 1\<rparr>))"

definition shm_release_mapping :: "platform \<Rightarrow> machine \<Rightarrow> u32 \<Rightarrow> machine option" where
  "shm_release_mapping e s k =
     (case shm_find_by_id s k of
        None \<Rightarrow> Some s
      | Some i \<Rightarrow>
          let obj = shm_at s i;
              s1 = (if 0 < shm_mappings obj then set_shm s i (obj\<lparr>shm_mappings := shm_mappings obj - 1\<rparr>) else s)
          in shm_try_destroy_locked e s1 i)"

end
