(* ===== verification/VmArea.thy ===== *)
theory VmArea
  imports Shm
begin

text \<open>
  The architecture-neutral part of a user address space (\<open>kernel/memory/virtual.c\<close>): the list of areas (VMAs),
  range validation, free ranges, unmapping, fork and the demand faults; and the operations of
  \<open>arch/arm64/mmu/virtual.c\<close> that create, destroy and copy-on-write an address space. A space is named by the
  address of its record, 0 is NULL. \<open>rel\<close> is the call through the \<open>release\<close> pointer of an area, \<open>cur\<close> the
  address space of the running process (0 when there is none), \<open>kimg\<close> the linker symbols \<open>KERNEL_START\<close> and
  \<open>KERNEL_HEAP_END\<close>. A fault handler holds \<open>vm_fault_lock\<close> for its whole body and is one step.
\<close>

type_synonym release_call = "u64 \<Rightarrow> u64 \<Rightarrow> machine \<Rightarrow> machine"

definition sizeof_vma :: u64 where "sizeof_vma = 48"
definition sizeof_user_vm :: u64 where "sizeof_user_vm = 152"

subsection \<open>The area list\<close>

definition vmas :: "machine \<Rightarrow> u64 \<Rightarrow> vma list" where
  "vmas s sp = (case vms s sp of None \<Rightarrow> [] | Some vm \<Rightarrow> vma_list (space vm))"

definition set_vmas :: "machine \<Rightarrow> u64 \<Rightarrow> vma list \<Rightarrow> machine" where
  "set_vmas s sp l =
     (case vms s sp of
        None \<Rightarrow> s
      | Some vm \<Rightarrow> put_vm s sp (vm\<lparr>space := (space vm)\<lparr>vma_list := l\<rparr>\<rparr>))"

definition space_pgdir :: "machine \<Rightarrow> u64 \<Rightarrow> u64" where
  "space_pgdir s sp = (case vms s sp of None \<Rightarrow> 0 | Some vm \<Rightarrow> pgdir (space vm))"

definition space_asid_of :: "machine \<Rightarrow> u64 \<Rightarrow> u32" where
  "space_asid_of s sp = (case vms s sp of None \<Rightarrow> 0 | Some vm \<Rightarrow> space_asid (space vm))"

definition has_flag :: "vma \<Rightarrow> u32 \<Rightarrow> bool" where
  "has_flag v f \<longleftrightarrow> vma_flags v AND f \<noteq> 0"

definition vm_range_overlaps :: "vma \<Rightarrow> u64 \<Rightarrow> u64 \<Rightarrow> bool" where
  "vm_range_overlaps v start end \<longleftrightarrow> start < vma_end v \<and> vma_start v < end"

text \<open>Giving one area back: the shared-memory reference, the release call and the record itself. This is the
  body of \<open>vm_release_vmas\<close> and the end of a complete unmapping.\<close>

definition drop_vma :: "platform \<Rightarrow> release_call \<Rightarrow> machine \<Rightarrow> vma \<Rightarrow> machine option" where
  "drop_vma e rel s v = do {
     s1 \<leftarrow> (if has_flag v VMA_SHARED \<and> \<not> has_flag v VMA_EXTERNAL then shm_release_mapping e s (shm_id v) else Some s);
     let s2 = (if release_fn v \<noteq> 0 then rel (release_fn v) (release_cookie v) s1 else s1);
     h \<leftarrow> kfree (kheap s2) (vma_ptr v);
     Some (s2\<lparr>kheap := h\<rparr>)
   }"

fun drop_vmas :: "platform \<Rightarrow> release_call \<Rightarrow> machine \<Rightarrow> vma list \<Rightarrow> machine option" where
  "drop_vmas e rel s [] = Some s"
| "drop_vmas e rel s (v # vs) = do { s1 \<leftarrow> drop_vma e rel s v; drop_vmas e rel s1 vs }"

definition vm_release_vmas :: "platform \<Rightarrow> release_call \<Rightarrow> machine \<Rightarrow> u64 \<Rightarrow> machine option" where
  "vm_release_vmas e rel s sp = drop_vmas e rel (set_vmas s sp []) (vmas s sp)"

text \<open>The area record at address \<open>p\<close> of a space.\<close>

definition update_vma :: "machine \<Rightarrow> u64 \<Rightarrow> u64 \<Rightarrow> (vma \<Rightarrow> vma) \<Rightarrow> machine" where
  "update_vma s sp p f = set_vmas s sp (map (\<lambda>v. if vma_ptr v = p then f v else v) (vmas s sp))"

definition vm_set_vma_release :: "machine \<Rightarrow> u64 \<Rightarrow> u64 \<Rightarrow> u64 \<Rightarrow> u64 \<Rightarrow> machine" where
  "vm_set_vma_release s sp p release cookie =
     (if p = 0 then s else update_vma s sp p (\<lambda>v. v\<lparr>release_fn := release, release_cookie := cookie\<rparr>))"

definition find_area :: "vma list \<Rightarrow> u64 \<Rightarrow> vma option" where
  "find_area vs address = find (\<lambda>v. vma_start v \<le> address \<and> address < vma_end v) vs"

definition find_vma :: "machine \<Rightarrow> u64 \<Rightarrow> u64 \<Rightarrow> vma option" where
  "find_vma s sp address = (if sp = 0 then None else find_area (vmas s sp) address)"

definition memory_low_kernel_alias_start :: "u64 \<times> u64 \<Rightarrow> u64" where
  "memory_low_kernel_alias_start kimg = fst kimg AND 0xFFF00000"

definition memory_low_kernel_alias_end :: "u64 \<times> u64 \<Rightarrow> u64" where
  "memory_low_kernel_alias_end kimg =
     (let end = (snd kimg + 0xFFFFF) AND 0xFFF00000 in
      if get_split_boundary < end then get_split_boundary else end)"

definition memory_range_overlaps_low_kernel_alias :: "u64 \<times> u64 \<Rightarrow> u64 \<Rightarrow> u64 \<Rightarrow> bool" where
  "memory_range_overlaps_low_kernel_alias kimg start end_exclusive \<longleftrightarrow>
     \<not> (get_split_boundary \<le> fst kimg \<or> end_exclusive \<le> start) \<and>
     start < memory_low_kernel_alias_end kimg \<and> memory_low_kernel_alias_start kimg < end_exclusive"

definition memory_is_low_kernel_alias :: "u64 \<times> u64 \<Rightarrow> u64 \<Rightarrow> bool" where
  "memory_is_low_kernel_alias kimg addr \<longleftrightarrow> memory_range_overlaps_low_kernel_alias kimg addr (addr + 1)"

definition memory_is_kernel_address :: "u64 \<times> u64 \<Rightarrow> u64 \<Rightarrow> bool" where
  "memory_is_kernel_address kimg addr \<longleftrightarrow> get_split_boundary \<le> addr \<or> memory_is_low_kernel_alias kimg addr"

function validate_walk :: "vma list \<Rightarrow> u32 \<Rightarrow> u64 \<Rightarrow> u64 \<Rightarrow> bool" where
  "validate_walk vs required_flags end cursor =
     (if cursor < end then
        (case find_area vs cursor of
           None \<Rightarrow> False
         | Some v \<Rightarrow>
             if vma_flags v AND required_flags \<noteq> required_flags \<or> vma_end v \<le> cursor then False
             else validate_walk vs required_flags end (if vma_end v < end then vma_end v else end))
      else True)"
  by pat_completeness auto
termination
  by (relation "measure (\<lambda>(vs, f, end, cursor). unat end - unat cursor)")
    (auto simp: word_less_nat_alt word_le_nat_alt)

declare validate_walk.simps [simp del]

definition vm_validate_user_range :: "u64 \<times> u64 \<Rightarrow> machine \<Rightarrow> u64 \<Rightarrow> u64 \<Rightarrow> u64 \<Rightarrow> u32 \<Rightarrow> bool" where
  "vm_validate_user_range kimg s sp address len required_flags =
     (if sp = 0 \<or> len = 0 \<or> required_flags = 0 then False
      else let end = address + len in
      if end \<le> address \<or> get_split_boundary < end \<or> memory_range_overlaps_low_kernel_alias kimg address end then False
      else validate_walk (vmas s sp) required_flags end address)"

text \<open>The record that \<open>create_vma\<close> builds, and the sorted insertion point.\<close>

definition new_vma :: "u64 \<Rightarrow> u64 \<Rightarrow> u64 \<Rightarrow> u32 \<Rightarrow> vma" where
  "new_vma p start end flags = \<lparr>vma_start = start, vma_end = end, vma_flags = flags, shm_id = 0, release_fn = 0,
     release_cookie = 0, vma_ptr = p\<rparr>"

definition create_vma :: "machine \<Rightarrow> u64 \<Rightarrow> u64 \<Rightarrow> u64 \<Rightarrow> u32 \<Rightarrow> (u64 \<times> machine) option" where
  "create_vma s sp start sz flags =
     (if sp = 0 \<or> sz = 0 then Some (0, s)
      else let end = start + sz in
      if end \<le> start \<or> get_split_boundary < end then Some (0, s)
      else let before = takeWhile (\<lambda>v. vma_end v \<le> start) (vmas s sp);
               link = dropWhile (\<lambda>v. vma_end v \<le> start) (vmas s sp) in
      if link \<noteq> [] \<and> vma_start (hd link) < end then Some (0, s)
      else do {
        (h, p) \<leftarrow> kzalloc (kheap s) sizeof_vma;
        if p = 0 then Some (0, s\<lparr>kheap := h\<rparr>)
        else Some (p, set_vmas (s\<lparr>kheap := h\<rparr>) sp (before @ new_vma p start end flags # link))
      })"

definition remove_vma :: "release_call \<Rightarrow> machine \<Rightarrow> u64 \<Rightarrow> u64 \<Rightarrow> u64 \<Rightarrow> (int \<times> machine) option" where
  "remove_vma rel s sp start end =
     (if sp = 0 \<or> end \<le> start then Some (neg EINVAL, s)
      else let i = index_where (\<lambda>v. vma_start v = start \<and> vma_end v = end) (vmas s sp) in
      if i = length (vmas s sp) then Some (neg ENOENT, s)
      else let v = vmas s sp ! i;
               s1 = set_vmas s sp (take i (vmas s sp) @ drop (Suc i) (vmas s sp));
               s2 = (if release_fn v \<noteq> 0 then rel (release_fn v) (release_cookie v) s1 else s1)
      in do {
        h \<leftarrow> kfree (kheap s2) (vma_ptr v);
        Some (0, s2\<lparr>kheap := h\<rparr>)
      })"

fun find_gap :: "vma list \<Rightarrow> u64 \<Rightarrow> u64 \<Rightarrow> u64 \<Rightarrow> u64 \<Rightarrow> u64" where
  "find_gap [] sz base limit address = (if address < limit \<and> sz \<le> limit - address then address else 0)"
| "find_gap (v # vs) sz base limit address =
     (if vma_end v \<le> address \<or> vma_end v \<le> base then find_gap vs sz base limit address
      else if limit \<le> vma_start v then (if address < limit \<and> sz \<le> limit - address then address else 0)
      else if sz \<le> vma_start v - address then address
      else let address = (if address < vma_end v then align_up (vma_end v) PAGE_SIZE else address);
               address = (if address < base then base else address) in
      if limit \<le> address \<or> limit - address < sz then 0 else find_gap vs sz base limit address)"

definition vm_find_free_range :: "machine \<Rightarrow> u64 \<Rightarrow> u64 \<Rightarrow> u64 \<Rightarrow> u64 \<Rightarrow> u64 \<Rightarrow> u64" where
  "vm_find_free_range s sp hint sz base limit =
     (if sp = 0 \<or> sz = 0 \<or> \<not> is_page_aligned sz \<or> \<not> is_page_aligned base \<or> \<not> is_page_aligned limit \<or>
         limit \<le> base \<or> limit - base < sz then 0
      else if base \<le> hint \<and> hint < limit \<and> is_page_aligned hint \<and> sz \<le> limit - hint \<and>
              \<not> list_ex (\<lambda>v. vm_range_overlaps v hint (hint + sz)) (vmas s sp) then hint
      else find_gap (vmas s sp) sz base limit base)"

subsection \<open>Unmapping\<close>

text \<open>The pages that \<open>for (page = a; page < b; page += PAGE_SIZE)\<close> visits; every caller has \<open>b\<close> at most the
  user/kernel boundary, so the counter does not wrap.\<close>

definition page_steps :: "u64 \<Rightarrow> u64 \<Rightarrow> u64 list" where
  "page_steps a b = map (\<lambda>k. a + of_nat k * PAGE_SIZE) [0..<(unat b - unat a + 4095) div 4096]"

definition unmap_one :: "platform \<Rightarrow> u64 \<Rightarrow> bool \<Rightarrow> machine \<Rightarrow> u64 \<Rightarrow> machine" where
  "unmap_one e sp external s page =
     (let physical = get_physical_address s (space_pgdir s sp) page in
      if physical = 0 then s
      else let (r, s1) = unmap_user_page e s (space_pgdir s sp) page (space_asid_of s sp) in
      if r = 0 \<and> \<not> external then free_page_at e s1 physical else s1)"

definition unmap_pages :: "platform \<Rightarrow> u64 \<Rightarrow> bool \<Rightarrow> machine \<Rightarrow> u64 \<Rightarrow> u64 \<Rightarrow> machine" where
  "unmap_pages e sp external s a b = foldl (unmap_one e sp external) s (page_steps a b)"

text \<open>The second loop of \<open>vm_unmap_range\<close>: \<open>before\<close> are the areas already passed, the argument list the rest.\<close>

fun unmap_areas :: "platform \<Rightarrow> release_call \<Rightarrow> u64 \<Rightarrow> u64 \<Rightarrow> u64 \<Rightarrow> vma list \<Rightarrow> vma list \<Rightarrow> machine \<Rightarrow> (int \<times> machine) option" where
  "unmap_areas e rel sp start end before [] s = Some (0, s)"
| "unmap_areas e rel sp start end before (v # next) s =
     (if vma_end v \<le> start then unmap_areas e rel sp start end (before @ [v]) next s
      else if end \<le> vma_start v then Some (0, s)
      else let cut_start = (if vma_start v < start then start else vma_start v);
               cut_end = (if end < vma_end v then end else vma_end v) in
      if cut_end \<le> cut_start then unmap_areas e rel sp start end (before @ [v]) next s
      else if vma_start v < cut_start \<and> cut_end < vma_end v then do {
        (h, p) \<leftarrow> kmalloc (kheap s) sizeof_vma;
        if p = 0 then Some (neg ENOMEM, s\<lparr>kheap := h\<rparr>)
        else let s1 = unmap_pages e sp (has_flag v VMA_EXTERNAL) (s\<lparr>kheap := h\<rparr>) cut_start cut_end;
                 left = v\<lparr>vma_end := cut_start\<rparr>;
                 right = v\<lparr>vma_start := cut_end, vma_ptr := p\<rparr>
             in unmap_areas e rel sp start end (before @ [left, right]) next
                  (set_vmas s1 sp (before @ [left, right] @ next))
      } else let s1 = unmap_pages e sp (has_flag v VMA_EXTERNAL) s cut_start cut_end in
      if cut_start = vma_start v \<and> cut_end = vma_end v then do {
        s2 \<leftarrow> drop_vma e rel (set_vmas s1 sp (before @ next)) v;
        unmap_areas e rel sp start end before next s2
      } else let v' = (if cut_start = vma_start v then v\<lparr>vma_start := cut_end\<rparr> else v\<lparr>vma_end := cut_start\<rparr>)
        in unmap_areas e rel sp start end (before @ [v']) next (set_vmas s1 sp (before @ [v'] @ next)))"

text \<open>The first loop: a shared area may only be unmapped as a whole.\<close>

definition shared_cut :: "vma \<Rightarrow> u64 \<Rightarrow> u64 \<Rightarrow> bool" where
  "shared_cut v start end \<longleftrightarrow> vm_range_overlaps v start end \<and> has_flag v VMA_SHARED \<and>
     (let cut_start = (if vma_start v < start then start else vma_start v);
          cut_end = (if end < vma_end v then end else vma_end v)
      in cut_start \<noteq> vma_start v \<or> cut_end \<noteq> vma_end v)"

definition vm_unmap_range :: "platform \<Rightarrow> release_call \<Rightarrow> machine \<Rightarrow> u64 \<Rightarrow> u64 \<Rightarrow> u64 \<Rightarrow> (int \<times> machine) option" where
  "vm_unmap_range e rel s sp start sz =
     (if sp = 0 \<or> sz = 0 \<or> \<not> is_page_aligned start then Some (neg EINVAL, s)
      else let sz = align_up sz PAGE_SIZE; end = start + sz in
      if end \<le> start \<or> get_split_boundary < end then Some (neg EINVAL, s)
      else if list_ex (\<lambda>v. shared_cut v start end) (vmas s sp) then Some (neg EINVAL, s)
      else unmap_areas e rel sp start end [] (vmas s sp) s)"

definition vm_virtual_kb :: "machine \<Rightarrow> u64 \<Rightarrow> u32" where
  "vm_virtual_kb s sp =
     (let bytes = foldl (\<lambda>b v. b + (vma_end v - vma_start v)) 0 (if sp = 0 then [] else vmas s sp) in
      if 0xFFFFFFFF < bytes div 1024 then 0xFFFFFFFF else ucast (bytes div 1024))"

subsection \<open>Creating and destroying a space\<close>

definition create_vm_space :: "platform \<Rightarrow> nat \<Rightarrow> machine \<Rightarrow> (u64 \<times> machine) option" where
  "create_vm_space e cpu s = do {
     (h, p) \<leftarrow> kzalloc (kheap s) sizeof_user_vm;
     if p = 0 then Some (0, s\<lparr>kheap := h\<rparr>)
     else let (r, vm, s1) = arm64_user_vm_init e p (s\<lparr>kheap := h\<rparr>);
              s2 = put_vm s1 p vm;
              (registered, s3) = (if r \<noteq> 0 then (False, s2) else register_backend s2 p)
          in if r \<noteq> 0 \<or> \<not> registered then do {
               s4 \<leftarrow> (if magic vm = ARM64_USER_VM_MAGIC then do {
                        (r, vm1, s4) \<leftarrow> arm64_user_vm_destroy e cpu vm s3;
                        Some (put_vm s4 p vm1)
                      } else Some s3);
               h1 \<leftarrow> kfree (kheap s4) p;
               Some (0, s4\<lparr>kheap := h1, vms := (vms s4)(p := None)\<rparr>)
             } else Some (p, s3)
   }"

definition destroy_vm_space :: "platform \<Rightarrow> nat \<Rightarrow> release_call \<Rightarrow> machine \<Rightarrow> u64 \<Rightarrow> machine option" where
  "destroy_vm_space e cpu rel s sp =
     (let p = backend s sp in
      case vms s p of
        None \<Rightarrow> Some s
      | Some vm \<Rightarrow>
          if p = 0 then Some s
          else do {
            (r, vm1, s1) \<leftarrow> arm64_user_vm_destroy e cpu vm s;
            let s2 = put_vm s1 p vm1;
            if r = 0 then do {
              s3 \<leftarrow> vm_release_vmas e rel s2 sp;
              let s4 = unregister_backend s3 p;
              h \<leftarrow> kfree (kheap s4) p;
              Some (s4\<lparr>kheap := h, vms := (vms s4)(p := None)\<rparr>)
            } else Some s2
          })"

subsection \<open>Fork\<close>

definition vm_clone_resident_page ::
    "platform \<Rightarrow> u64 \<Rightarrow> machine \<Rightarrow> u64 \<Rightarrow> u64 \<Rightarrow> vma \<Rightarrow> u64 \<Rightarrow> (int \<times> machine) option" where
  "vm_clone_resident_page e cur s parent child v page =
     (let physical = get_physical_address s (space_pgdir s parent) page in
      if physical = 0 then Some (0, s)
      else let physical = physical AND PAGE_MASK; (ref, ph) = page_ref_inc e (phys s) physical; s1 = s\<lparr>phys := ph\<rparr> in
      if isl ref then Some (neg ENOMEM, s1)
      else let (r, s2) = (if has_flag v VMA_WRITE \<and> \<not> has_flag v VMA_SHARED
                          then set_user_page_readonly s1 (space_pgdir s1 parent) page (space_asid_of s1 parent)
                          else (0, s1)) in
      if r < 0 then Some (neg EFAULT, free_page_at e s2 physical)
      else do {
        (r, s3) \<leftarrow> (if has_flag v VMA_SHARED
                    then map_user_page e cur s2 (space_pgdir s2 child) page physical (vma_flags v) (space_asid_of s2 child)
                    else map_user_page_readonly e cur s2 (space_pgdir s2 child) page physical (vma_flags v)
                           (space_asid_of s2 child));
        if r < 0 then
          let s4 = free_page_at e s3 physical;
              s5 = (if has_flag v VMA_WRITE \<and> page_ref_count e (phys s4) physical = 1
                    then snd (set_user_page_writable s4 (space_pgdir s4 parent) page (space_asid_of s4 parent)) else s4)
          in Some (r, s5)
        else Some (0, s3)
      })"

fun clone_pages :: "platform \<Rightarrow> u64 \<Rightarrow> machine \<Rightarrow> u64 \<Rightarrow> u64 \<Rightarrow> vma \<Rightarrow> u64 list \<Rightarrow> (bool \<times> machine) option" where
  "clone_pages e cur s parent child v [] = Some (True, s)"
| "clone_pages e cur s parent child v (page # ps) = do {
     (r, s1) \<leftarrow> vm_clone_resident_page e cur s parent child v page;
     if r < 0 then Some (False, s1) else clone_pages e cur s1 parent child v ps
   }"

fun fork_areas :: "platform \<Rightarrow> u64 \<Rightarrow> machine \<Rightarrow> u64 \<Rightarrow> u64 \<Rightarrow> vma list \<Rightarrow> (bool \<times> machine) option" where
  "fork_areas e cur s parent child [] = Some (True, s)"
| "fork_areas e cur s parent child (v # vs) =
     (if vma_end v \<le> vma_start v \<or> has_flag v VMA_DONTFORK then fork_areas e cur s parent child vs
      else do {
        (copy, s1) \<leftarrow> create_vma s child (vma_start v) (vma_end v - vma_start v) (vma_flags v);
        if copy = 0 then Some (False, s1)
        else let s2 = update_vma s1 child copy (\<lambda>c. c\<lparr>shm_id := shm_id v\<rparr>);
                 s3 = (if has_flag v VMA_SHARED then shm_retain_mapping s2 (shm_id v) else s2)
             in do {
               (ok, s4) \<leftarrow> clone_pages e cur s3 parent child v
                             (page_steps (align_down (vma_start v) PAGE_SIZE) (align_up (vma_end v) PAGE_SIZE));
               if \<not> ok then Some (False, s4) else fork_areas e cur s4 parent child vs
             }
      })"

definition fork_vm_space :: "platform \<Rightarrow> nat \<Rightarrow> release_call \<Rightarrow> u64 \<Rightarrow> machine \<Rightarrow> u64 \<Rightarrow> (u64 \<times> machine) option" where
  "fork_vm_space e cpu rel cur s parent =
     (if parent = 0 then Some (0, s)
      else do {
        (child, s1) \<leftarrow> create_vm_space e cpu s;
        if child = 0 then Some (0, s1)
        else do {
          (ok, s2) \<leftarrow> fork_areas e cur s1 parent child (vmas s1 parent);
          if \<not> ok then do {
            s3 \<leftarrow> destroy_vm_space e cpu rel s2 child;
            Some (0, s3)
          } else (case (vms s2 parent, vms s2 child) of
              (Some pv, Some cv) \<Rightarrow>
                Some (child, put_vm s2 child (cv\<lparr>space := (space cv)\<lparr>heap_start := heap_start (space pv),
                  heap_end := heap_end (space pv), brk := brk (space pv), stack_start := stack_start (space pv)\<rparr>\<rparr>))
            | _ \<Rightarrow> Some (child, s2))
        }
      })"

subsection \<open>Faults\<close>

text \<open>The end of both demand faults: a fresh page for the faulting address.\<close>

definition fault_in :: "platform \<Rightarrow> machine \<Rightarrow> u64 \<Rightarrow> vma \<Rightarrow> u64 \<Rightarrow> (int \<times> machine) option" where
  "fault_in e s cur v page_address =
     (if get_physical_address s (space_pgdir s cur) page_address \<noteq> 0 then Some (0, s)
      else let (ph, page) = allocate_page e (phys s); s1 = s\<lparr>phys := ph\<rparr> in
      if page = 0 then Some (neg ENOMEM, s1)
      else do {
        (r, s2) \<leftarrow> map_user_page e cur s1 (space_pgdir s1 cur) page_address page (vma_flags v) (space_asid_of s1 cur);
        Some (if r < 0 then (neg ENOMEM, free_page_at e s2 page) else (0, s2))
      })"

definition handle_lazy_anon_fault :: "platform \<Rightarrow> machine \<Rightarrow> u64 \<Rightarrow> u64 \<Rightarrow> bool \<Rightarrow> (int \<times> machine) option" where
  "handle_lazy_anon_fault e s cur address write =
     (if cur = 0 then Some (neg EINVAL, s)
      else case find_vma s cur address of
        None \<Rightarrow> Some (neg EINVAL, s)
      | Some v \<Rightarrow>
          if \<not> has_flag v VMA_LAZY then Some (neg EINVAL, s)
          else if write \<and> \<not> has_flag v VMA_WRITE \<or> \<not> write \<and> \<not> has_flag v VMA_READ then Some (neg EACCES, s)
          else fault_in e s cur v (address AND PAGE_MASK))"

definition handle_user_stack_fault :: "platform \<Rightarrow> machine \<Rightarrow> u64 \<Rightarrow> u64 \<Rightarrow> (int \<times> machine) option" where
  "handle_user_stack_fault e s cur address =
     (if cur = 0 \<or> address < USER_STACK_BOTTOM + PAGE_SIZE \<or> USER_STACK_TOP \<le> address then Some (neg EINVAL, s)
      else case find_vma s cur address of
        None \<Rightarrow> Some (neg EACCES, s)
      | Some v \<Rightarrow>
          if \<not> has_flag v VMA_WRITE then Some (neg EACCES, s)
          else fault_in e s cur v (address AND PAGE_MASK))"

definition handle_cow_fault :: "platform \<Rightarrow> machine \<Rightarrow> u64 \<Rightarrow> u64 \<Rightarrow> (int \<times> machine) option" where
  "handle_cow_fault e s cur address =
     (if cur = 0 then Some (neg EINVAL, s)
      else case find_vma s cur address of
        None \<Rightarrow> Some (neg EACCES, s)
      | Some v \<Rightarrow>
          if \<not> has_flag v VMA_WRITE \<or> has_flag v VMA_SHARED then Some (neg EACCES, s)
          else let page = address AND PAGE_MASK;
                   old_page = get_physical_address s (space_pgdir s cur) page AND PAGE_MASK in
          if old_page = 0 then Some (neg EFAULT, s)
          else let references = page_ref_count e (phys s) old_page in
          if references = 0 then Some (neg EFAULT, s)
          else if references = 1
          then Some (set_user_page_writable s (space_pgdir s cur) page (space_asid_of s cur))
          else let (ph, new_page) = allocate_page e (phys s); s1 = s\<lparr>phys := ph\<rparr> in
          if new_page = 0 then Some (neg ENOMEM, s1)
          else let s2 = set_pmem s1 (memcpy (pmem (phys s1)) new_page old_page 4096) in do {
            (r, s3) \<leftarrow> remap_user_page e cur s2 (space_pgdir s2 cur) page new_page (vma_flags v) (space_asid_of s2 cur);
            if r < 0 then Some (r, free_page_at e s3 new_page) else Some (0, free_page_at e s3 old_page)
          })"

end
