(* ===== verification/UserVM_Frame.thy ===== *)
theory UserVM_Frame
  imports VmArea UserVM_Steps
begin

text \<open>
  What the operations of \<open>user_vm.c\<close> and the page operations by root leave alone, whatever the state and whatever
  they return: the identity of the space they work on, every other space, and all state outside the allocators
  and the translation hardware.
\<close>

lemma same_rest_mem_phys [simp]:
  "same_rest s ((set_pmem s m)\<lparr>phys := ph\<rparr>)" "same_rest s ((set_mem_hw s mh)\<lparr>phys := ph\<rparr>)"
  by (simp_all add: same_rest_def set_pmem_def set_mem_hw_def)

lemma alloc_pages_rest: "arm64_vm_alloc_pages e s n = (r, p, s') \<Longrightarrow> same_rest s s'"
  by (auto simp: arm64_vm_alloc_pages_def split: prod.splits if_splits)

lemma free_pages_rest: "arm64_vm_free_pages e s p n = (r, s') \<Longrightarrow> same_rest s s'"
  by (auto simp: arm64_vm_free_pages_def)

lemma reserve_mappings_rest: "reserve_mappings vm s n = Some (r, vm', s') \<Longrightarrow> same_rest s s' \<and> same_id vm vm'"
  by (auto simp: reserve_mappings_def same_id_def bind_eq_Some_conv split: if_splits option.splits)

lemma reserve_l2_rest: "reserve_l2_tables vm s n = Some (r, vm', s') \<Longrightarrow> same_rest s s' \<and> same_id vm vm'"
  by (auto simp: reserve_l2_tables_def same_id_def bind_eq_Some_conv split: if_splits option.splits)

lemma reserve_l3_rest: "reserve_l3_tables vm s n = Some (r, vm', s') \<Longrightarrow> same_rest s s' \<and> same_id vm vm'"
  by (auto simp: reserve_l3_tables_def same_id_def bind_eq_Some_conv split: if_splits option.splits)

lemma same_id_trans: "same_id a b \<Longrightarrow> same_id b c \<Longrightarrow> same_id a c"
  by (simp add: same_id_def)

lemma same_id_tables [simp]:
  "same_id vm (vm\<lparr>l2_tables := a\<rparr>)" "same_id vm (vm\<lparr>l3_tables := b\<rparr>)" "same_id vm (vm\<lparr>mappings := c\<rparr>)" "same_id vm vm"
  "same_id vm (vm\<lparr>tlb_generation := g\<rparr>)"
  by (simp_all add: same_id_def)

lemmas rest_trans = same_rest_trans same_id_trans

lemma ensure_l2_rest:
  assumes "ensure_l2 e vm s va = Some (r, t, vm', s')"
  shows "same_rest s s' \<and> same_id vm vm'"
proof (cases "find_l2 vm va")
  case None
  obtain r1 vm1 s1 where 1: "reserve_l2_tables vm s (item_count (l2_tables vm) + 1) = Some (r1, vm1, s1)"
    using assms None by (auto simp: ensure_l2_def bind_eq_Some_conv)
  obtain r2 p s2 where 2: "arm64_vm_alloc_pages e s1 1 = (r2, p, s2)" by (cases "arm64_vm_alloc_pages e s1 1") auto
  note R = reserve_l2_rest[OF 1] alloc_pages_rest[OF 2]
  have "same_rest s2 s' \<and> same_id vm1 vm' \<or> same_rest s1 s' \<and> same_id vm1 vm'"
    using assms None 1 2
    by (auto simp: ensure_l2_def arm64_vm_free_pages_def Let_def split: if_splits prod.splits)
  then show ?thesis using R by (meson rest_trans)
qed (use assms in \<open>auto simp: ensure_l2_def\<close>)

lemma ensure_l3_rest:
  assumes "ensure_l3 e vm s va = Some (r, t, vm', s')"
  shows "same_rest s s' \<and> same_id vm vm'"
proof (cases "find_l3 vm va")
  case None
  obtain r0 l2 vm0 s0 where 0: "ensure_l2 e vm s va = Some (r0, l2, vm0, s0)"
    using assms None by (auto simp: ensure_l3_def bind_eq_Some_conv)
  note E = ensure_l2_rest[OF 0]
  show ?thesis
  proof (cases "r0 = 0")
    case True
    obtain r1 vm1 s1 where 1: "reserve_l3_tables vm0 s0 (item_count (l3_tables vm0) + 1) = Some (r1, vm1, s1)"
      using assms None 0 True by (auto simp: ensure_l3_def bind_eq_Some_conv)
    obtain r2 p s2 where 2: "arm64_vm_alloc_pages e s1 1 = (r2, p, s2)" by (cases "arm64_vm_alloc_pages e s1 1") auto
    note R = reserve_l3_rest[OF 1] alloc_pages_rest[OF 2]
    have "same_rest s2 s' \<and> same_id vm1 vm' \<or> same_rest s1 s' \<and> same_id vm1 vm'"
      using assms None 0 1 2 True
      by (auto simp: ensure_l3_def arm64_vm_free_pages_def Let_def split: if_splits prod.splits)
    then show ?thesis using R E by (meson rest_trans)
  qed (use assms None 0 E in \<open>auto simp: ensure_l3_def\<close>)
qed (use assms in \<open>auto simp: ensure_l3_def\<close>)

lemma reclaim_l3_rest: "reclaim_l3 e vm s va = (r, vm', s') \<Longrightarrow> same_rest s s' \<and> same_id vm vm'"
  by (auto simp: reclaim_l3_def arm64_vm_free_pages_def Let_def split: option.splits if_splits prod.splits)

lemma reclaim_l2_rest: "reclaim_l2 e vm s va = (r, vm', s') \<Longrightarrow> same_rest s s' \<and> same_id vm vm'"
  by (auto simp: reclaim_l2_def arm64_vm_free_pages_def Let_def split: option.splits if_splits prod.splits)

lemma reclaim_rest:
  assumes "reclaim_empty_tables e vm s va = (r, vm', s')"
  shows "same_rest s s' \<and> same_id vm vm'"
proof -
  obtain r1 vm1 s1 where 1: "reclaim_l3 e vm s va = (r1, vm1, s1)" by (cases "reclaim_l3 e vm s va") auto
  then show ?thesis
    using assms reclaim_l3_rest[OF 1] reclaim_l2_rest[of e vm1 s1 va r vm' s']
    by (auto simp: reclaim_empty_tables_def split: if_splits intro: rest_trans)
qed

lemma tlb_generation_rest: "new_tlb_generation vm s = (vm', s') \<Longrightarrow> same_rest s s' \<and> same_id vm vm'"
  by (auto simp: new_tlb_generation_def allocate_tlb_generation_def publish_targeted_generation_def same_rest_def Let_def
      split: if_splits)

lemma map_page_rest:
  assumes "arm64_user_vm_map_page e vm s va pa flags = Some (r, vm', s')"
  shows "same_rest s s' \<and> same_id vm vm'"
proof (cases "\<not> arm64_user_vm_validate_identity vm \<or> va AND PAGE_OFFSET_MASK \<noteq> 0 \<or> pa AND PAGE_OFFSET_MASK \<noteq> 0 \<or>
    \<not> arm64_user_vm_flags_valid (flags AND NOT VMA_LAZY) \<or>
    mapping_index vm va < length (mappings vm) \<and> physical_address (mappings vm ! mapping_index vm va) \<noteq> 0")
  case True
  then show ?thesis using assms by (auto simp: arm64_user_vm_map_page_def Let_def split: if_splits)
next
  case False
  obtain r1 vm1 s1 where 1: "(if mapping_index vm va = length (mappings vm)
      then reserve_mappings vm s (item_count (mappings vm) + 1) else Some (0, vm, s)) = Some (r1, vm1, s1)"
    using assms False by (auto simp: arm64_user_vm_map_page_def Let_def bind_eq_Some_conv split: if_splits)
  then have R1: "same_rest s s1 \<and> same_id vm vm1" by (auto split: if_splits dest: reserve_mappings_rest)
  show ?thesis
  proof (cases "r1 = 0")
    case True
    obtain r2 t vm2 s2 where 2: "ensure_l3 e vm1 s1 va = Some (r2, t, vm2, s2)"
      using assms False 1 True unfolding arm64_user_vm_map_page_def Let_def
      by (auto simp: bind_eq_Some_conv simp del: if_split split: if_split_asm)
    note R2 = ensure_l3_rest[OF 2]
    have "(\<exists>s3 r. same_rest s2 s3 \<and> reclaim_empty_tables e vm2 s3 va = (r, vm', s')) \<or>
      (\<exists>s3 vm3. same_rest s2 s3 \<and> same_id vm2 vm3 \<and> new_tlb_generation vm3 s3 = (vm', s'))"
      using assms False 1 2 True unfolding arm64_user_vm_map_page_def Let_def
      by (simp only: if_False if_True bind.bind_lunit prod.case de_Morgan_disj split: if_split_asm)
         (auto split: prod.splits if_splits)
    then have "same_rest s2 s' \<and> same_id vm2 vm'"
      by (elim disjE exE conjE) (auto dest!: reclaim_rest tlb_generation_rest intro: rest_trans)
    then show ?thesis using R1 R2 by (meson rest_trans)
  next
    case False
    then show ?thesis using assms 1 R1 \<open>\<not> (_ \<or> _)\<close> unfolding arm64_user_vm_map_page_def Let_def by auto
  qed
qed

lemma protect_page_rest:
  assumes "arm64_user_vm_protect_page vm s va flags = (r, vm', s')"
  shows "same_rest s s' \<and> same_id vm vm'"
proof -
  have trans: "same_rest s (set_mem_hw (set_mem_hw s a) b)" for a b by (meson same_rest_mem(2) same_rest_trans)
  then have "same_rest s s' \<and> same_id vm vm' \<or>
      (\<exists>s1 vm1. same_rest s s1 \<and> same_id vm vm1 \<and> new_tlb_generation vm1 s1 = (vm', s'))"
    using assms by (auto simp: arm64_user_vm_protect_page_def Let_def split: option.splits if_splits prod.splits)
  then show ?thesis by (elim disjE exE conjE) (auto dest!: tlb_generation_rest intro: rest_trans)
qed

lemma unmap_page_rest:
  assumes "arm64_user_vm_unmap_page e vm s va = (r, vm', s')"
  shows "same_rest s s' \<and> same_id vm vm'"
proof -
  have via: "same_rest s s' \<and> same_id vm vm'"
    if "new_tlb_generation (vm\<lparr>mappings := ms\<rparr>) (set_mem_hw s x) = (vm2, s2)"
      "reclaim_empty_tables e vm2 s2 va = (r', vm', s')" for ms x vm2 s2 r'
    using tlb_generation_rest[OF that(1)] reclaim_rest[OF that(2)] same_rest_mem(2)[of s x] same_id_tables(3)[of vm ms]
    by (meson rest_trans)
  then show ?thesis
    using assms by (auto simp: arm64_user_vm_unmap_page_def Let_def split: option.splits if_splits prod.splits)
qed

subsection \<open>The operations by root\<close>

definition frame :: "machine \<Rightarrow> machine \<Rightarrow> bool" where
  "frame s s' \<longleftrightarrow> (\<forall>q. map_option space (vms s' q) = map_option space (vms s q)) \<and> vm_registry s' = vm_registry s \<and>
     shm_objects s' = shm_objects s \<and> shm_next_id s' = shm_next_id s \<and> shm_global_pages s' = shm_global_pages s"

lemma frame_refl [simp]: "frame s s"
  by (simp add: frame_def)

lemma frame_trans: "frame s s' \<Longrightarrow> frame s' s'' \<Longrightarrow> frame s s''"
  by (simp add: frame_def)

lemma frame_upd [simp]: "frame s (s\<lparr>phys := ph\<rparr>)" "frame s (s\<lparr>kheap := h\<rparr>)" "frame s (set_pmem s m)" "frame s (free_page_at e s p)"
  by (simp_all add: frame_def set_pmem_def free_page_at_def)

lemma same_restD:
  assumes "same_rest s s'"
  shows "vms s' = vms s" "vm_registry s' = vm_registry s" "shm_objects s' = shm_objects s" "shm_next_id s' = shm_next_id s"
    "shm_global_pages s' = shm_global_pages s"
  using assms[unfolded same_rest_def, THEN arg_cong[where f = vms]] assms[unfolded same_rest_def, THEN arg_cong[where f = vm_registry]]
    assms[unfolded same_rest_def, THEN arg_cong[where f = shm_objects]] assms[unfolded same_rest_def, THEN arg_cong[where f = shm_next_id]]
    assms[unfolded same_rest_def, THEN arg_cong[where f = shm_global_pages]]
  by simp_all

lemma frame_put: "same_rest s s1 \<Longrightarrow> vms s p = Some vm \<Longrightarrow> same_id vm vm1 \<Longrightarrow> frame s (put_vm s1 p vm1)"
  by (simp add: same_restD frame_def put_vm_def same_id_def)

lemma frame_space:
  assumes "frame s s'"
  shows "vmas s' sp = vmas s sp" "space_pgdir s' sp = space_pgdir s sp" "space_asid_of s' sp = space_asid_of s sp"
    "vms s' sp = None \<longleftrightarrow> vms s sp = None"
proof -
  have q: "map_option space (vms s' sp) = map_option space (vms s sp)" using assms by (simp add: frame_def)
  then show "vms s' sp = None \<longleftrightarrow> vms s sp = None" by (cases "vms s sp"; cases "vms s' sp") auto
  show "vmas s' sp = vmas s sp" "space_pgdir s' sp = space_pgdir s sp" "space_asid_of s' sp = space_asid_of s sp"
    using q by (auto simp: vmas_def space_pgdir_def space_asid_of_def split: option.splits)
qed

lemma frame_shm:
  "frame s s' \<Longrightarrow> shm_objects s' = shm_objects s \<and> shm_next_id s' = shm_next_id s \<and> shm_global_pages s' = shm_global_pages s"
  by (simp add: frame_def)

lemma map_user_page_frame: "map_user_page e cur s pd va pa flags a = Some (r, s') \<Longrightarrow> frame s s'"
  by (auto simp: map_user_page_def Let_def bind_eq_Some_conv split: option.splits if_splits
      dest!: map_page_rest intro: frame_put)

lemma map_user_page_readonly_frame: "map_user_page_readonly e cur s pd va pa flags a = Some (r, s') \<Longrightarrow> frame s s'"
  unfolding map_user_page_readonly_def by (rule map_user_page_frame)

lemma unmap_user_page_frame: "unmap_user_page e s pd va a = (r, s') \<Longrightarrow> frame s s'"
  by (auto simp: unmap_user_page_def Let_def split: option.splits if_splits prod.splits dest!: unmap_page_rest intro: frame_put)

lemma protect_user_page_frame: "protect_user_page s pd va a f = (r, s') \<Longrightarrow> frame s s'"
  by (auto simp: protect_user_page_def Let_def split: option.splits if_splits prod.splits dest!: protect_page_rest intro: frame_put)

lemma set_user_page_frame:
  "set_user_page_readonly s pd va a = (r, s') \<Longrightarrow> frame s s'" "set_user_page_writable s pd va a = (r, s') \<Longrightarrow> frame s s'"
  unfolding set_user_page_readonly_def set_user_page_writable_def by (rule protect_user_page_frame, assumption)+

lemma remap_user_page_frame: "remap_user_page e cur s pd va pa flags a = Some (r, s') \<Longrightarrow> frame s s'"
  unfolding remap_user_page_def
  using map_user_page_frame unmap_user_page_frame frame_trans by (metis prod.collapse)

subsection \<open>Unmapping never touches the kernel heap\<close>

lemma reclaim_heap: "reclaim_empty_tables e vm s va = (r, vm', s') \<Longrightarrow> kheap s' = kheap s"
  by (auto simp: reclaim_empty_tables_def reclaim_l3_def reclaim_l2_def arm64_vm_free_pages_def Let_def
      split: option.splits if_splits prod.splits)

lemma tlb_generation_heap: "new_tlb_generation vm s = (vm', s') \<Longrightarrow> kheap s' = kheap s"
  by (auto simp: new_tlb_generation_def allocate_tlb_generation_def publish_targeted_generation_def Let_def split: if_splits)

lemma unmap_page_heap: "arm64_user_vm_unmap_page e vm s va = (r, vm', s') \<Longrightarrow> kheap s' = kheap s"
  by (auto simp: arm64_user_vm_unmap_page_def Let_def split: option.splits if_splits prod.splits
      dest!: reclaim_heap tlb_generation_heap)

lemma unmap_user_page_heap: "unmap_user_page e s pd va a = (r, s') \<Longrightarrow> kheap s' = kheap s"
  by (auto simp: unmap_user_page_def put_vm_def Let_def split: option.splits if_splits prod.splits dest!: unmap_page_heap)

lemma unmap_one_frame: "frame s (unmap_one e sp ext s pg) \<and> kheap (unmap_one e sp ext s pg) = kheap s"
proof (cases "unmap_user_page e s (space_pgdir s sp) pg (space_asid_of s sp)")
  case (Pair r s1)
  note F = unmap_user_page_frame[OF Pair] unmap_user_page_heap[OF Pair]
  have "kheap (free_page_at e s1 p) = kheap s1" for p by (simp add: free_page_at_def)
  then show ?thesis using F frame_trans[OF F(1) frame_upd(4)] Pair by (simp add: unmap_one_def Let_def)
qed

lemma unmap_pages_frame: "frame s (unmap_pages e sp ext s a b) \<and> kheap (unmap_pages e sp ext s a b) = kheap s"
proof -
  have "frame s (foldl (unmap_one e sp ext) s ps) \<and> kheap (foldl (unmap_one e sp ext) s ps) = kheap s" for ps
    by (induction ps arbitrary: s) (auto simp: unmap_one_frame intro: frame_trans[OF unmap_one_frame[THEN conjunct1]])
  then show ?thesis by (simp add: unmap_pages_def)
qed

end
