(* ===== verification/Shm_Heap.thy ===== *)
theory Shm_Heap
  imports UserVM_Frame
begin

text \<open>
  The heap blocks behind the page vectors of the shared-memory objects. As long as the kernel heap holds the
  block of every object beside the blocks \<open>B\<close> of some client, every operation of \<open>shm.c\<close> on the object table
  ends and keeps it so.
\<close>

subsection \<open>Zeroed blocks\<close>

lemma heap_set_zero:
  assumes S: "heap_set h S" "(p, n) \<in> S"
  shows "heap_set (h\<lparr>cells := memset0 (cells h) p n\<rparr>) S"
proof -
  obtain L F where L: "set L = S" "kheap_inv h F (blk_of ` S)" "distinct (map fst L)" "\<forall>b \<in> S. unat (snd b) + 32 \<le> 2 ^ 64"
    "kheap_live h L" using S(1) by (auto simp: heap_set_def kheap_live_def)
  have e: "blk_of (p, n) = (p - 24, 24 + align_up n 8)" by (simp add: blk_of_def)
  have b: "(p - 24, 24 + align_up n 8) \<in> blk_of ` S" using imageI[OF S(2), of blk_of] unfolding e .
  have n: "unat n + 32 \<le> 2 ^ 64" using L(4) S(2) by force
  have hb: "in_heap h (p - 24, 24 + align_up n 8)" using kheap_live_block(1)[OF L(5)] L(1) S(2) e by force
  have "kheap_inv (h\<lparr>cells := memset0 (cells h) (p - 24 + 24) n\<rparr>) F (blk_of ` S)"
    using total_size_facts(3)[OF n] b kheap_invD(2)[OF L(2)]
    by (intro kheap_inv_payload_write[OF L(2), of "p - 24" "24 + align_up n 8"] memset0_payload[OF hb]) auto
  then show ?thesis using L(1,3,4) by (auto simp: heap_set_def kheap_live_def)
qed

lemma heap_set_zalloc:
  assumes S: "heap_set h S" and n: "unat n + 32 \<le> 2 ^ 64"
  shows "kzalloc h n = Some (h, 0) \<or>
    (\<exists>h' p. kzalloc h n = Some (h', p) \<and> p \<noteq> 0 \<and> p \<notin> fst ` S \<and> heap_set h' (insert (p, n) S))"
  using heap_set_alloc[OF assms]
proof (elim disjE exE conjE)
  fix h' p assume "kmalloc h n = Some (h', p)" "p \<noteq> 0" "p \<notin> fst ` S" "heap_set h' (insert (p, n) S)"
  then show ?thesis using heap_set_zero[of h' "insert (p, n) S" p n] by (auto simp: kzalloc_def)
qed (simp add: kzalloc_def)

lemma kcalloc_kzalloc: "kcalloc h a b = kzalloc h (a * b)"
  by (simp add: kcalloc_def kzalloc_def Let_def)

subsection \<open>The blocks of the objects\<close>

definition obj_ptrs :: "shm_object list \<Rightarrow> u64 list" where
  "obj_ptrs objs = filter (\<lambda>p. p \<noteq> 0) (map shm_phys_ptr objs)"

definition obj_block :: "shm_object \<Rightarrow> block" where
  "obj_block ob = (shm_phys_ptr ob, ucast (shm_capacity ob) * 8)"

definition objs_heap :: "kheap \<Rightarrow> shm_object list \<Rightarrow> block set \<Rightarrow> bool" where
  "objs_heap h objs B \<longleftrightarrow> (\<exists>S. heap_set h S \<and> B \<subseteq> S \<and> (\<forall>ob \<in> set objs. shm_phys_ptr ob \<noteq> 0 \<longrightarrow> obj_block ob \<in> S)) \<and>
     distinct (obj_ptrs objs) \<and> fst ` B \<inter> set (obj_ptrs objs) = {}"

lemma heap_set_fst: "heap_set h S \<Longrightarrow> (p, n) \<in> S \<Longrightarrow> (p, k) \<in> S \<Longrightarrow> n = k"
  unfolding heap_set_def kheap_live_def by (auto dest: eq_key_imp_eq_value)

lemma obj_ptrs_split: "obj_ptrs (xs @ ob # ys) = obj_ptrs xs @ (if shm_phys_ptr ob = 0 then [] else [shm_phys_ptr ob]) @ obj_ptrs ys"
  by (simp add: obj_ptrs_def)

text \<open>Freeing the block of an object that has been emptied.\<close>

lemma objs_heap_free:
  assumes heap: "objs_heap h objs B" and i: "i < length objs"
    and ob: "shm_phys_ptr ob = 0"
  shows "\<exists>h'. kfree h (shm_phys_ptr (objs ! i)) = Some h' \<and> objs_heap h' (objs[i := ob]) B"
proof -
  let ?p = "shm_phys_ptr (objs ! i)" and ?b = "obj_block (objs ! i)"
  obtain S where S: "heap_set h S" "B \<subseteq> S" "\<And>ob. ob \<in> set objs \<Longrightarrow> shm_phys_ptr ob \<noteq> 0 \<Longrightarrow> obj_block ob \<in> S"
    using heap by (auto simp: objs_heap_def)
  have sp: "objs = take i objs @ objs ! i # drop (Suc i) objs" using i by (rule id_take_nth_drop)
  have up: "objs[i := ob] = take i objs @ ob # drop (Suc i) objs" using i by (rule upd_conv_take_nth_drop)
  have d: "distinct (obj_ptrs (take i objs @ objs ! i # drop (Suc i) objs))" using heap sp by (simp add: objs_heap_def)
  have ptrs: "distinct (obj_ptrs (objs[i := ob]))" "?p \<noteq> 0 \<Longrightarrow> ?p \<notin> set (obj_ptrs (objs[i := ob]))"
    "set (obj_ptrs (objs[i := ob])) \<subseteq> set (obj_ptrs objs)"
    using d ob unfolding up by (auto simp: obj_ptrs_split) (subst sp, auto simp: obj_ptrs_split)+
  show ?thesis
  proof (cases "?p = 0")
    case True
    then have "kfree h ?p = Some h" by (simp add: kfree_def)
    moreover have "objs_heap h (objs[i := ob]) B"
      unfolding objs_heap_def using S ptrs(1,3) heap ob set_update_subset_insert[of objs i ob]
      by (intro conjI exI[of _ S]) (auto simp: objs_heap_def)
    ultimately show ?thesis by blast
  next
    case False
    then have b: "?b \<in> S" using S(3) i by simp
    obtain h' where h': "kfree h ?p = Some h'" "heap_set h' (S - {?b})"
      using heap_set_free[OF S(1), of ?p] b by (auto simp: obj_block_def)
    have "obj_block o' \<in> S - {?b}" if "o' \<in> set (objs[i := ob])" "shm_phys_ptr o' \<noteq> 0" for o'
    proof -
      have "shm_phys_ptr o' \<in> set (obj_ptrs (objs[i := ob]))" using that by (auto simp: obj_ptrs_def)
      then have "shm_phys_ptr o' \<noteq> ?p" using ptrs(2) False by auto
      moreover have "o' \<in> set objs" using that ob set_update_subset_insert[of objs i ob] by auto
      ultimately show ?thesis using S(3) that(2) by (auto simp: obj_block_def)
    qed
    moreover have "?p \<in> set (obj_ptrs objs)" using False i by (auto simp: obj_ptrs_def)
    then have "B \<subseteq> S - {?b}" using S(2) heap by (auto simp: objs_heap_def obj_block_def)
    ultimately show ?thesis using h' ptrs heap unfolding objs_heap_def by (intro exI[of _ h']) auto
  qed
qed

lemma objs_heap_same: "objs_heap h objs B \<Longrightarrow> shm_phys_ptr ob = shm_phys_ptr (objs ! i) \<Longrightarrow>
    shm_capacity ob = shm_capacity (objs ! i) \<Longrightarrow> objs_heap h (objs[i := ob]) B"
proof (cases "i < length objs")
  case True
  assume h: "objs_heap h objs B" and eq: "shm_phys_ptr ob = shm_phys_ptr (objs ! i)" "shm_capacity ob = shm_capacity (objs ! i)"
  have "map shm_phys_ptr (objs[i := ob]) = map shm_phys_ptr objs"
    using True eq by (intro nth_equalityI) (auto simp: nth_list_update)
  then have ptrs: "obj_ptrs (objs[i := ob]) = obj_ptrs objs" by (simp add: obj_ptrs_def)
  obtain S where S: "heap_set h S" "B \<subseteq> S" "\<And>ob. ob \<in> set objs \<Longrightarrow> shm_phys_ptr ob \<noteq> 0 \<Longrightarrow> obj_block ob \<in> S"
    using h by (auto simp: objs_heap_def)
  have "obj_block ob = obj_block (objs ! i)" "objs ! i \<in> set objs" using eq True by (auto simp: obj_block_def)
  then have "obj_block o' \<in> S" if "o' \<in> set (objs[i := ob])" "shm_phys_ptr o' \<noteq> 0" for o'
    using S(3)[of o'] S(3)[of "objs ! i"] that eq set_update_subset_insert[of objs i ob] by (cases "o' = ob") auto
  then show ?thesis using S(1,2) h unfolding objs_heap_def ptrs by blast
qed (simp add: list_update_beyond)

text \<open>Blocks of the client.\<close>

lemma objs_heap_add:
  assumes "objs_heap h objs B" "\<And>S. heap_set h S \<Longrightarrow> heap_set h' (insert (p, n) S) \<and> p \<notin> fst ` S"
  shows "p \<notin> fst ` B \<and> objs_heap h' objs (insert (p, n) B)"
proof -
  obtain S where S: "heap_set h S" "B \<subseteq> S" "\<And>ob. ob \<in> set objs \<Longrightarrow> shm_phys_ptr ob \<noteq> 0 \<Longrightarrow> obj_block ob \<in> S"
    using assms(1) by (auto simp: objs_heap_def)
  have "p \<notin> set (obj_ptrs objs)" using assms(2)[OF S(1)] S(3) by (force simp: obj_ptrs_def obj_block_def)
  then show ?thesis using assms(1) assms(2)[OF S(1)] S
    unfolding objs_heap_def by (intro conjI exI[of _ "insert (p, n) S"]) auto
qed

lemma objs_heap_client_alloc:
  assumes "objs_heap h objs B" "unat n + 32 \<le> 2 ^ 64"
  shows "kmalloc h n = Some (h, 0) \<or>
    (\<exists>h' p. kmalloc h n = Some (h', p) \<and> p \<noteq> 0 \<and> p \<notin> fst ` B \<and> objs_heap h' objs (insert (p, n) B))"
proof (cases "kmalloc h n = Some (h, 0)")
  case False
  obtain S where S: "heap_set h S" using assms(1) by (auto simp: objs_heap_def)
  obtain h' p where r: "kmalloc h n = Some (h', p)" "p \<noteq> 0" using heap_set_alloc[OF S assms(2)] False by auto
  have "heap_set h' (insert (p, n) T) \<and> p \<notin> fst ` T" if "heap_set h T" for T
    using heap_set_alloc[OF that assms(2)] r by auto
  then show ?thesis using r objs_heap_add[OF assms(1), of h' p n] by auto
qed simp

lemma objs_heap_client_zalloc:
  assumes "objs_heap h objs B" "unat n + 32 \<le> 2 ^ 64"
  shows "kzalloc h n = Some (h, 0) \<or>
    (\<exists>h' p. kzalloc h n = Some (h', p) \<and> p \<noteq> 0 \<and> p \<notin> fst ` B \<and> objs_heap h' objs (insert (p, n) B))"
proof (cases "kzalloc h n = Some (h, 0)")
  case False
  obtain S where S: "heap_set h S" using assms(1) by (auto simp: objs_heap_def)
  obtain h' p where r: "kzalloc h n = Some (h', p)" "p \<noteq> 0" using heap_set_zalloc[OF S assms(2)] False by auto
  have "heap_set h' (insert (p, n) T) \<and> p \<notin> fst ` T" if "heap_set h T" for T
    using heap_set_zalloc[OF that assms(2)] r by auto
  then show ?thesis using r objs_heap_add[OF assms(1), of h' p n] by auto
qed simp

lemma objs_heap_client_free:
  assumes "objs_heap h objs (insert (p, n) B)" "p \<notin> fst ` B"
  shows "\<exists>h'. kfree h p = Some h' \<and> objs_heap h' objs B"
proof -
  obtain S where S: "heap_set h S" "insert (p, n) B \<subseteq> S" "\<And>ob. ob \<in> set objs \<Longrightarrow> shm_phys_ptr ob \<noteq> 0 \<Longrightarrow> obj_block ob \<in> S"
    using assms(1) by (auto simp: objs_heap_def)
  obtain h' where h': "kfree h p = Some h'" "heap_set h' (S - {(p, n)})" using heap_set_free[OF S(1), of p n] S(2) by auto
  have "p \<notin> set (obj_ptrs objs)" using assms(1) by (auto simp: objs_heap_def)
  then have "obj_block ob \<in> S - {(p, n)}" if "ob \<in> set objs" "shm_phys_ptr ob \<noteq> 0" for ob
    using S(3)[OF that] that by (auto simp: obj_ptrs_def obj_block_def)
  moreover have "B \<subseteq> S - {(p, n)}" using S(2) assms(2) by force
  ultimately show ?thesis using h' assms(1) unfolding objs_heap_def by auto
qed

subsection \<open>Giving up an object\<close>

lemma free_page_list_frame: "frame s (free_page_list e s ps) \<and> kheap (free_page_list e s ps) = kheap s \<and> vms (free_page_list e s ps) = vms s"
proof (induction ps arbitrary: s)
  case (Cons p ps)
  have "kheap (free_page_at e s p) = kheap s" "vms (free_page_at e s p) = vms s" by (simp_all add: free_page_at_def)
  then show ?case using Cons[of "free_page_at e s p"] frame_trans[OF frame_upd(4)[of s e p]] by (simp add: free_page_list_def)
qed (simp add: free_page_list_def)

lemma set_shm_sel [simp]: "kheap (set_shm s i ob) = kheap s" "vms (set_shm s i ob) = vms s" "phys (set_shm s i ob) = phys s"
  "shm_objects (set_shm s i ob) = (shm_objects s)[i := ob]" "shm_global_pages (set_shm s i ob) = shm_global_pages s"
  "shm_next_id (set_shm s i ob) = shm_next_id s"
  by (simp_all add: set_shm_def)

lemma shm_destroy_heap:
  assumes heap: "objs_heap (kheap s) (shm_objects s) B" and i: "i < length (shm_objects s)"
  shows "\<exists>s'. shm_try_destroy_locked e s i = Some s' \<and> objs_heap (kheap s') (shm_objects s') B \<and> vms s' = vms s \<and>
    length (shm_objects s') = length (shm_objects s)"
proof (cases "\<not> shm_used (shm_at s i) \<or> \<not> shm_unlinked (shm_at s i) \<or> shm_mappings (shm_at s i) \<noteq> 0 \<or> shm_handles (shm_at s i) \<noteq> 0")
  case True
  then show ?thesis using heap by (simp add: shm_try_destroy_locked_def)
next
  case False
  let ?ob = "shm_at s i"
  let ?s1 = "free_page_list e s (filter (\<lambda>p. p \<noteq> 0) (shm_phys ?ob))"
  note F = free_page_list_frame[of s e "filter (\<lambda>p. p \<noteq> 0) (shm_phys ?ob)"]
  have objs: "shm_objects ?s1 = shm_objects s" using F frame_shm by blast
  obtain h' where h': "kfree (kheap s) (shm_phys_ptr ?ob) = Some h'" "objs_heap h' ((shm_objects s)[i := zero_shm]) B"
    using objs_heap_free[OF heap i, of zero_shm] by (auto simp: zero_shm_def shm_at_def)
  show ?thesis using False h' F objs
    by (simp add: shm_try_destroy_locked_def shm_free_object_pages_def Let_def)
qed

lemma shm_find_lt: "shm_find s P = Some i \<Longrightarrow> i < length (shm_objects s) \<and> P (shm_objects s ! i)"
proof -
  assume a: "shm_find s P = Some i"
  then have "i = index_where P (shm_objects s)" "i < length (shm_objects s)" by (auto simp: shm_find_def Let_def split: if_splits)
  then show ?thesis using nth_length_takeWhile[of "\<lambda>x. \<not> P x" "shm_objects s"] by (simp add: index_where_def)
qed

lemma shm_release_heap:
  assumes heap: "objs_heap (kheap s) (shm_objects s) B"
  shows "\<exists>s'. shm_release_mapping e s k = Some s' \<and> objs_heap (kheap s') (shm_objects s') B \<and> vms s' = vms s"
proof (cases "shm_find_by_id s k")
  case None
  then show ?thesis using heap by (simp add: shm_release_mapping_def)
next
  case (Some i)
  then have i: "i < length (shm_objects s)" by (auto simp: shm_find_by_id_def dest: shm_find_lt)
  let ?s1 = "if 0 < shm_mappings (shm_at s i) then set_shm s i ((shm_at s i)\<lparr>shm_mappings := shm_mappings (shm_at s i) - 1\<rparr>) else s"
  have "objs_heap (kheap ?s1) (shm_objects ?s1) B" "i < length (shm_objects ?s1)" "vms ?s1 = vms s"
    using heap i objs_heap_same[OF heap] by (auto simp: shm_at_def)
  from shm_destroy_heap[OF this(1,2), of e] this(3) show ?thesis
    using Some by (auto simp: shm_release_mapping_def Let_def)
qed

end
