(* ===== verification/VmArea_Correct.thy ===== *)
theory VmArea_Correct
  imports Shm_Heap UserVM_Correct
begin

text \<open>
  Correctness of the area list (\<open>kernel/memory/virtual.c\<close>). The list is kept sorted and disjoint; what it stands for
  is the partial map from user addresses to area flags. Creating, removing and unmapping are commands on that
  map; the validation loop decides whether a range is covered; the search returns a free range.
\<close>

subsection \<open>Sorted areas\<close>

definition covers :: "vma \<Rightarrow> u64 \<Rightarrow> bool" where
  "covers v a \<longleftrightarrow> vma_start v \<le> a \<and> a < vma_end v"

definition area_ok :: "vma \<Rightarrow> bool" where
  "area_ok v \<longleftrightarrow> vma_start v < vma_end v \<and> vma_end v \<le> get_split_boundary"

definition areas_ok :: "vma list \<Rightarrow> bool" where
  "areas_ok vs \<longleftrightarrow> sorted_wrt (\<lambda>v w. vma_end v \<le> vma_start w) vs \<and> (\<forall>v \<in> set vs. area_ok v)"

definition flags_at :: "vma list \<Rightarrow> u64 \<Rightarrow> u32 option" where
  "flags_at vs a = map_option vma_flags (find_area vs a)"

lemma areas_ok_simps [simp]:
  "areas_ok []"
  "areas_ok (v # vs) \<longleftrightarrow> area_ok v \<and> areas_ok vs \<and> (\<forall>w \<in> set vs. vma_end v \<le> vma_start w)"
  "areas_ok (xs @ ys) \<longleftrightarrow> areas_ok xs \<and> areas_ok ys \<and> (\<forall>v \<in> set xs. \<forall>w \<in> set ys. vma_end v \<le> vma_start w)"
  by (auto simp: areas_ok_def sorted_wrt_append)

lemma find_area_simps [simp]:
  "find_area [] a = None"
  "find_area (v # vs) a = (if covers v a then Some v else find_area vs a)"
  by (simp_all add: find_area_def covers_def)

lemma find_area_None: "find_area vs a = None \<longleftrightarrow> (\<forall>v \<in> set vs. \<not> covers v a)"
  by (induction vs) auto

lemma find_area_append: "find_area (xs @ ys) a = (case find_area xs a of None \<Rightarrow> find_area ys a | Some v \<Rightarrow> Some v)"
  by (induction xs) auto

lemma find_area_Some: "find_area vs a = Some v \<Longrightarrow> v \<in> set vs \<and> covers v a"
  by (induction vs) (auto split: if_splits)

lemma covers_disjoint: "vma_end v \<le> vma_start w \<Longrightarrow> covers v a \<Longrightarrow> \<not> covers w a"
  by (auto simp: covers_def)

text \<open>In a sorted list the order of the search does not matter: each area speaks for its own addresses.\<close>

lemma flags_at_mid:
  assumes "areas_ok (xs @ v # ys)"
  shows "flags_at (xs @ v # ys) a = (if covers v a then Some (vma_flags v) else flags_at (xs @ ys) a)"
proof (cases "covers v a")
  case True
  then have "find_area xs a = None" using assms covers_disjoint[of _ v a] by (auto simp: find_area_None)
  then show ?thesis using True by (simp add: flags_at_def find_area_append)
qed (simp add: flags_at_def find_area_append split: option.splits)

lemma flags_at_None: "flags_at vs a = None \<longleftrightarrow> (\<forall>v \<in> set vs. \<not> covers v a)"
  by (simp add: flags_at_def find_area_None)

lemma flags_at_outside: "\<forall>v \<in> set vs. vma_end v \<le> start \<or> end \<le> vma_start v \<Longrightarrow> start \<le> a \<Longrightarrow> a < end \<Longrightarrow> flags_at vs a = None"
  by (auto simp: flags_at_None covers_def)

subsection \<open>The invariant of a space\<close>

definition vma_blocks :: "vma list \<Rightarrow> block set" where
  "vma_blocks vs = (\<lambda>v. (vma_ptr v, sizeof_vma)) ` set vs"

definition areas_heap :: "machine \<Rightarrow> vma list \<Rightarrow> bool" where
  "areas_heap s vs \<longleftrightarrow> objs_heap (kheap s) (shm_objects s) (vma_blocks vs) \<and> distinct (map vma_ptr vs) \<and>
     (\<forall>v \<in> set vs. release_fn v = 0)"

definition area_inv :: "u64 \<Rightarrow> machine \<Rightarrow> bool" where
  "area_inv sp s \<longleftrightarrow> sp \<noteq> 0 \<and> vms s sp \<noteq> None \<and> areas_ok (vmas s sp) \<and> areas_heap s (vmas s sp)"

lemma vma_blocks_simps [simp]:
  "vma_blocks [] = {}" "vma_blocks (v # vs) = insert (vma_ptr v, sizeof_vma) (vma_blocks vs)"
  "vma_blocks (xs @ ys) = vma_blocks xs \<union> vma_blocks ys" "fst ` vma_blocks vs = vma_ptr ` set vs"
  by (auto simp: vma_blocks_def image_image)

lemma set_vmas_sel [simp]:
  "kheap (set_vmas s sp l) = kheap s" "shm_objects (set_vmas s sp l) = shm_objects s" "phys (set_vmas s sp l) = phys s"
  "vms (set_vmas s sp l) sp = None \<longleftrightarrow> vms s sp = None"
  "vms s sp \<noteq> None \<Longrightarrow> vmas (set_vmas s sp l) sp = l"
  by (auto simp: set_vmas_def vmas_def put_vm_def split: option.splits)

lemma vmas_upd [simp]: "vmas (s\<lparr>kheap := h\<rparr>) sp = vmas s sp" "vmas (s\<lparr>phys := ph\<rparr>) sp = vmas s sp"
  by (simp_all add: vmas_def)

lemma areas_heap_cong: "kheap s' = kheap s \<Longrightarrow> shm_objects s' = shm_objects s \<Longrightarrow> areas_heap s' vs = areas_heap s vs"
  by (simp add: areas_heap_def)

lemma areas_heap_set_vmas [simp]: "areas_heap (set_vmas s sp l) vs = areas_heap s vs"
  by (simp add: areas_heap_def)

text \<open>Replacing an area by one with the same record address.\<close>

lemma areas_heap_replace:
  "areas_heap s (xs @ v # ys) \<Longrightarrow> vma_ptr v' = vma_ptr v \<Longrightarrow> release_fn v' = release_fn v \<Longrightarrow> areas_heap s (xs @ v' # ys)"
  by (auto simp: areas_heap_def)

lemma areas_heap_mid: "areas_heap s (xs @ v # ys) \<longleftrightarrow> areas_heap s (v # xs @ ys)"
  by (auto simp: areas_heap_def)

lemma sizeof_vma_small: "unat sizeof_vma + 32 \<le> 2 ^ 64"
  by (simp add: sizeof_vma_def)

lemma areas_heap_free:
  assumes "areas_heap s (v # vs)"
  shows "\<exists>h'. kfree (kheap s) (vma_ptr v) = Some h' \<and> areas_heap (s\<lparr>kheap := h'\<rparr>) vs"
proof -
  have h: "objs_heap (kheap s) (shm_objects s) (insert (vma_ptr v, sizeof_vma) (vma_blocks vs))" "vma_ptr v \<notin> fst ` vma_blocks vs"
    using assms by (simp_all add: areas_heap_def)
  show ?thesis using objs_heap_client_free[OF h] assms by (auto simp: areas_heap_def)
qed

lemma drop_vma_ok:
  assumes "areas_heap s (v # vs)"
  shows "\<exists>s'. drop_vma e rel s v = Some s' \<and> areas_heap s' vs \<and> vms s' = vms s"
proof -
  let ?sh = "has_flag v VMA_SHARED \<and> \<not> has_flag v VMA_EXTERNAL"
  obtain s1 where s1: "(if ?sh then shm_release_mapping e s (shm_id v) else Some s) = Some s1" "areas_heap s1 (v # vs)" "vms s1 = vms s"
    using shm_release_heap[of s "vma_blocks (v # vs)" e "shm_id v"] assms by (cases ?sh) (auto simp: areas_heap_def)
  obtain h' where "kfree (kheap s1) (vma_ptr v) = Some h'" "areas_heap (s1\<lparr>kheap := h'\<rparr>) vs" using areas_heap_free[OF s1(2)] by blast
  moreover have "release_fn v = 0" using assms by (simp add: areas_heap_def)
  ultimately show ?thesis using s1(1,3) by (simp add: drop_vma_def)
qed

subsection \<open>Unmapping\<close>

lemma unmap_pages_keeps:
  "vmas (unmap_pages e sp ext s a b) sp = vmas s sp" "vms (unmap_pages e sp ext s a b) sp = None \<longleftrightarrow> vms s sp = None"
  "areas_heap (unmap_pages e sp ext s a b) vs = areas_heap s vs"
  using unmap_pages_frame[of s e sp ext a b] frame_space(1,4)[of s "unmap_pages e sp ext s a b" sp]
    frame_shm[of s "unmap_pages e sp ext s a b"] areas_heap_cong[of "unmap_pages e sp ext s a b" s vs] by auto

text \<open>What the unmapping loop does with the areas still to come, when it has passed \<open>before\<close>.\<close>

definition unmap_done :: "u64 \<Rightarrow> u64 \<Rightarrow> u64 \<Rightarrow> vma list \<Rightarrow> int \<Rightarrow> machine \<Rightarrow> bool" where
  "unmap_done sp start end vs r s' \<longleftrightarrow> area_inv sp s' \<and>
     (r = 0 \<and> flags_at (vmas s' sp) = (\<lambda>a. if start \<le> a \<and> a < end then None else flags_at vs a) \<or>
      r = neg ENOMEM \<and> flags_at (vmas s' sp) = flags_at vs)"

lemma unmap_done_same:
  assumes "area_inv sp s" "vmas s sp = vs" "\<forall>v \<in> set vs. vma_end v \<le> start \<or> end \<le> vma_start v"
  shows "unmap_done sp start end vs 0 s"
  using assms flags_at_outside[OF assms(3)] by (auto simp: unmap_done_def)

text \<open>One step of the loop that leaves the rest of the areas to a later call: the map of the list before the step,
  cut to the outside of the range, is that of the list after it.\<close>

lemma unmap_done_step:
  assumes "unmap_done sp start end vs' r s'" "r = 0"
    and "\<And>a. \<not> (start \<le> a \<and> a < end) \<Longrightarrow> flags_at vs' a = flags_at vs a"
  shows "unmap_done sp start end vs r s'"
  using assms by (auto simp: unmap_done_def neg_def)

lemma area_invI:
  "sp \<noteq> 0 \<Longrightarrow> vms s sp \<noteq> None \<Longrightarrow> vmas s sp = vs \<Longrightarrow> areas_ok vs \<Longrightarrow> areas_heap s vs \<Longrightarrow> area_inv sp s"
  by (simp add: area_inv_def)

lemma area_invD:
  assumes "area_inv sp s"
  shows "sp \<noteq> 0" "vms s sp \<noteq> None" "areas_ok (vmas s sp)" "areas_heap s (vmas s sp)"
  using assms by (auto simp: area_inv_def)

text \<open>The cases of one iteration that overlaps the range: the new list, as a state.\<close>

lemma unmap_split:
  assumes inv: "area_inv sp s" "vmas s sp = before @ v # next" and m: "kmalloc (kheap s) sizeof_vma = Some (h, p)" "p \<noteq> 0"
    and cut: "vma_start v < start" "start < end" "end < vma_end v"
  defines "l \<equiv> v\<lparr>vma_end := start\<rparr>" and "r \<equiv> v\<lparr>vma_start := end, vma_ptr := p\<rparr>"
  shows "area_inv sp (set_vmas (unmap_pages e sp ext (s\<lparr>kheap := h\<rparr>) a b) sp (before @ [l, r] @ next))"
    "\<And>a. \<not> (start \<le> a \<and> a < end) \<Longrightarrow> flags_at (before @ [l, r] @ next) a = flags_at (before @ v # next) a"
proof -
  note I = area_invD[OF inv(1), unfolded inv(2)]
  have ok: "areas_ok (before @ [l, r] @ next)"
    using I(3) cut by (auto simp: l_def r_def area_ok_def)
  have "p \<notin> vma_ptr ` set (before @ v # next) \<and> objs_heap h (shm_objects s) (insert (p, sizeof_vma) (vma_blocks (before @ v # next)))"
    using objs_heap_client_alloc[OF _ sizeof_vma_small, of "kheap s" "shm_objects s" "vma_blocks (before @ v # next)"] I(4) m
    by (auto simp: areas_heap_def simp del: vma_blocks_simps(1-3))
  then have "areas_heap (s\<lparr>kheap := h\<rparr>) (before @ [l, r] @ next)"
    using I(4) by (auto simp: areas_heap_def l_def r_def insert_commute)
  then show "area_inv sp (set_vmas (unmap_pages e sp ext (s\<lparr>kheap := h\<rparr>) a b) sp (before @ [l, r] @ next))"
    using I(1,2) ok by (intro area_invI[where vs = "before @ [l, r] @ next"]) (auto simp: unmap_pages_keeps simp del: append.simps)
  show "flags_at (before @ [l, r] @ next) a = flags_at (before @ v # next) a" if "\<not> (start \<le> a \<and> a < end)" for a
    using flags_at_mid[of before l "r # next" a] flags_at_mid[of before r "next" a] flags_at_mid[OF I(3), of a] ok that cut
    by (auto simp: covers_def l_def r_def)
qed

lemma unmap_trim:
  assumes inv: "area_inv sp s" "vmas s sp = before @ v # next"
    and v': "vma_ptr v' = vma_ptr v" "release_fn v' = release_fn v" "vma_flags v' = vma_flags v"
      "vma_start v \<le> vma_start v'" "vma_end v' \<le> vma_end v" "vma_start v' < vma_end v'"
    and same: "\<And>a. \<not> (start \<le> a \<and> a < end) \<Longrightarrow> covers v' a = covers v a"
  shows "area_inv sp (set_vmas (unmap_pages e sp ext s a b) sp (before @ [v'] @ next))"
    "\<And>a. \<not> (start \<le> a \<and> a < end) \<Longrightarrow> flags_at (before @ [v'] @ next) a = flags_at (before @ v # next) a"
proof -
  note I = area_invD[OF inv(1), unfolded inv(2)]
  have ok: "areas_ok (before @ [v'] @ next)"
    using I(3) v'(4-6) by (auto simp: area_ok_def)
  have "areas_heap s (before @ [v'] @ next)" using areas_heap_replace[OF I(4) v'(1,2)] by simp
  then show "area_inv sp (set_vmas (unmap_pages e sp ext s a b) sp (before @ [v'] @ next))"
    using I(1,2) ok by (intro area_invI[where vs = "before @ [v'] @ next"]) (auto simp: unmap_pages_keeps)
  show "flags_at (before @ [v'] @ next) a = flags_at (before @ v # next) a" if "\<not> (start \<le> a \<and> a < end)" for a
    using flags_at_mid[of before v' "next" a] flags_at_mid[OF I(3), of a] ok same[OF that] v'(3) by auto
qed

lemma unmap_whole:
  assumes inv: "area_inv sp s" "vmas s sp = before @ v # next" and cut: "start \<le> vma_start v" "vma_end v \<le> end"
  obtains s2 where "drop_vma e rel (set_vmas (unmap_pages e sp ext s a b) sp (before @ next)) v = Some s2"
    "area_inv sp s2" "vmas s2 sp = before @ next"
    "\<And>a. \<not> (start \<le> a \<and> a < end) \<Longrightarrow> flags_at (before @ next) a = flags_at (before @ v # next) a"
proof -
  note I = area_invD[OF inv(1), unfolded inv(2)]
  let ?s1 = "set_vmas (unmap_pages e sp ext s a b) sp (before @ next)"
  have h: "areas_heap ?s1 (v # before @ next)"
    using I(4) by (simp add: unmap_pages_keeps areas_heap_mid)
  obtain s2 where s2: "drop_vma e rel ?s1 v = Some s2" "areas_heap s2 (before @ next)" "vms s2 = vms ?s1"
    using drop_vma_ok[OF h] by blast
  have v: "vmas s2 sp = before @ next" using s2(3) I(2) by (simp add: vmas_def[of s2] vmas_def[of ?s1, symmetric] unmap_pages_keeps)
  have "area_inv sp s2"
    using I(1-3) s2(2,3) v by (intro area_invI[OF _ _ v]) (auto simp: unmap_pages_keeps)
  then show ?thesis
    using flags_at_mid[OF I(3)] cut by (intro that[OF s2(1) _ v]) (auto simp: covers_def)
qed

lemma unmap_areas_ok:
  assumes "area_inv sp s" "vmas s sp = before @ rest" "\<forall>v \<in> set before. vma_end v \<le> start \<or> end \<le> vma_start v" "start < end"
  shows "\<exists>r s'. unmap_areas e rel sp start end before rest s = Some (r, s') \<and> unmap_done sp start end (before @ rest) r s' \<and>
    ((\<forall>v \<in> set rest. start \<le> vma_start v) \<longrightarrow> r = 0)"
  using assms
proof (induction rest arbitrary: before s)
  case Nil
  then show ?case using unmap_done_same[of sp s before] by simp
next
  case (Cons v "next")
  note inv = Cons.prems(1,2) and I = area_invD[OF Cons.prems(1), unfolded Cons.prems(2)]
  have v: "area_ok v" "\<forall>w \<in> set next. vma_end v \<le> vma_start w" using I(3) by auto
  have later: "\<exists>r s'. unmap_areas e rel sp start end b next s2 = Some (r, s') \<and> unmap_done sp start end (before @ v # next) r s' \<and> r = 0"
    if "area_inv sp s2" "vmas s2 sp = b @ next" "\<forall>v \<in> set b. vma_end v \<le> start \<or> end \<le> vma_start v" "start < vma_end v"
      "\<And>a. \<not> (start \<le> a \<and> a < end) \<Longrightarrow> flags_at (b @ next) a = flags_at (before @ v # next) a" for b s2
  proof -
    have "\<forall>w \<in> set next. start \<le> vma_start w" using v(2) that(4) by force
    then show ?thesis
      using Cons.IH[OF that(1-3) Cons.prems(4)] unmap_done_step[OF _ _ that(5)] by metis
  qed
  consider (passed) "vma_end v \<le> start" | (beyond) "start < vma_end v" "end \<le> vma_start v"
    | (split) "vma_start v < start" "end < vma_end v" | (whole) "start \<le> vma_start v" "vma_end v \<le> end" "start < vma_end v" "vma_start v < end"
    | (head) "start \<le> vma_start v" "vma_start v < end" "end < vma_end v" | (tail) "vma_start v < start" "start < vma_end v" "vma_end v \<le> end"
    by (meson not_le)
  then show ?case
  proof cases
    case passed
    then show ?thesis
      using Cons.IH[of s "before @ [v]"] Cons.prems by auto
  next
    case beyond
    have "\<forall>w \<in> set (before @ v # next). vma_end w \<le> start \<or> end \<le> vma_start w"
      using Cons.prems(3) beyond v by (auto simp: area_ok_def)
    from unmap_done_same[OF inv this] show ?thesis using beyond by (auto simp: not_le)
  next
    case split
    show ?thesis
    proof (cases "kmalloc (kheap s) sizeof_vma = Some (kheap s, 0)")
      case True
      then show ?thesis using split Cons.prems inv by (auto simp: unmap_done_def not_le)
    next
      case False
      obtain h p where m: "kmalloc (kheap s) sizeof_vma = Some (h, p)" "p \<noteq> 0"
        using objs_heap_client_alloc[OF I(4)[unfolded areas_heap_def, THEN conjunct1] sizeof_vma_small] False by auto
      note S = unmap_split[OF inv m split(1) Cons.prems(4) split(2)]
      let ?b = "before @ [v\<lparr>vma_end := start\<rparr>, v\<lparr>vma_start := end, vma_ptr := p\<rparr>]"
      let ?s1 = "set_vmas (unmap_pages e sp (has_flag v VMA_EXTERNAL) (s\<lparr>kheap := h\<rparr>) start end) sp (?b @ next)"
      have b: "vmas ?s1 sp = ?b @ next" "\<forall>w \<in> set ?b. vma_end w \<le> start \<or> end \<le> vma_start w" "start < vma_end v"
        using I(2) Cons.prems(3,4) split by (auto simp: unmap_pages_keeps)
      have nf: "\<not> vma_end v \<le> start" "\<not> end \<le> vma_start v" "\<not> vma_end v \<le> end" "\<not> end \<le> start" "\<not> start \<le> vma_start v"
        using split Cons.prems(4) by auto
      from later[of ?s1 ?b, OF _ b] S show ?thesis using nf split m Cons.prems(4) by (simp add: Let_def) blast
    qed
  next
    case whole
    obtain s2 where s2:
      "drop_vma e rel (set_vmas (unmap_pages e sp (has_flag v VMA_EXTERNAL) s (vma_start v) (vma_end v)) sp (before @ next)) v = Some s2"
      "area_inv sp s2" "vmas s2 sp = before @ next"
      "\<And>a. \<not> (start \<le> a \<and> a < end) \<Longrightarrow> flags_at (before @ next) a = flags_at (before @ v # next) a"
      by (rule unmap_whole[OF inv whole(1,2), where e = e and rel = rel and ext = "has_flag v VMA_EXTERNAL" and a = "vma_start v" and b = "vma_end v"]) simp
    show ?thesis using later[OF s2(2,3) Cons.prems(3) whole(3) s2(4)] s2(1) whole v(1) by (auto simp: area_ok_def not_le Let_def)
  next
    case head
    have c: "\<not> (start \<le> a \<and> a < end) \<Longrightarrow> covers (v\<lparr>vma_start := end\<rparr>) a = covers v a" for a using head by (auto simp: covers_def)
    have T: "area_inv sp (set_vmas (unmap_pages e sp ext s a b) sp (before @ [v\<lparr>vma_start := end\<rparr>] @ next))" for ext a b
      by (rule unmap_trim(1)[OF inv _ _ _ _ _ _ c]) (use head v(1) in \<open>auto simp: area_ok_def\<close>)
    have U: "flags_at (before @ [v\<lparr>vma_start := end\<rparr>] @ next) a = flags_at (before @ v # next) a" if "\<not> (start \<le> a \<and> a < end)" for a
      by (rule unmap_trim(2)[OF inv _ _ _ _ _ _ c that]) (use head v(1) in \<open>auto simp: area_ok_def\<close>)
    let ?s1 = "set_vmas (unmap_pages e sp (has_flag v VMA_EXTERNAL) s (vma_start v) end) sp (before @ [v\<lparr>vma_start := end\<rparr>] @ next)"
    have b: "vmas ?s1 sp = (before @ [v\<lparr>vma_start := end\<rparr>]) @ next" "\<forall>w \<in> set (before @ [v\<lparr>vma_start := end\<rparr>]). vma_end w \<le> start \<or> end \<le> vma_start w"
      "start < vma_end v" using I(2) Cons.prems(3,4) head by (auto simp: unmap_pages_keeps)
    have nf: "\<not> vma_end v \<le> start" "\<not> end \<le> vma_start v" "\<not> vma_end v \<le> end" "end \<noteq> vma_end v" "\<not> vma_start v < start" using head Cons.prems(4) by auto
    from later[of ?s1, OF _ b] T U show ?thesis using nf head by (simp add: Let_def) blast
  next
    case tail
    have c: "\<not> (start \<le> a \<and> a < end) \<Longrightarrow> covers (v\<lparr>vma_end := start\<rparr>) a = covers v a" for a using tail by (auto simp: covers_def)
    have T: "area_inv sp (set_vmas (unmap_pages e sp ext s a b) sp (before @ [v\<lparr>vma_end := start\<rparr>] @ next))" for ext a b
      by (rule unmap_trim(1)[OF inv _ _ _ _ _ _ c]) (use tail v(1) in \<open>auto simp: area_ok_def\<close>)
    have U: "flags_at (before @ [v\<lparr>vma_end := start\<rparr>] @ next) a = flags_at (before @ v # next) a" if "\<not> (start \<le> a \<and> a < end)" for a
      by (rule unmap_trim(2)[OF inv _ _ _ _ _ _ c that]) (use tail v(1) in \<open>auto simp: area_ok_def\<close>)
    let ?s1 = "set_vmas (unmap_pages e sp (has_flag v VMA_EXTERNAL) s start (vma_end v)) sp (before @ [v\<lparr>vma_end := start\<rparr>] @ next)"
    have b: "vmas ?s1 sp = (before @ [v\<lparr>vma_end := start\<rparr>]) @ next" "\<forall>w \<in> set (before @ [v\<lparr>vma_end := start\<rparr>]). vma_end w \<le> start \<or> end \<le> vma_start w"
      "start < vma_end v" using I(2) Cons.prems(3,4) tail by (auto simp: unmap_pages_keeps)
    have nf: "\<not> vma_end v \<le> start" "\<not> end \<le> vma_start v" "\<not> end < vma_end v" "start \<noteq> vma_start v" "\<not> end \<le> start" using tail Cons.prems(4) by auto
    from later[of ?s1, OF _ b] T U show ?thesis using nf tail by (simp add: Let_def) blast
  qed
qed

lemma vm_unmap_range_ok:
  fixes start sz :: u64
  assumes inv: "area_inv sp s"
  defines "end \<equiv> start + align_up sz PAGE_SIZE"
  obtains r s' where "vm_unmap_range e rel s sp start sz = Some (r, s')"
    "r = neg EINVAL \<and> s' = s \<or> start < end \<and> end \<le> get_split_boundary \<and> unmap_done sp start end (vmas s sp) r s'"
proof (cases "vm_unmap_range e rel s sp start sz = Some (neg EINVAL, s)")
  case False
  then have "vm_unmap_range e rel s sp start sz = unmap_areas e rel sp start end [] (vmas s sp) s" "start < end" "end \<le> get_split_boundary"
    by (auto simp: vm_unmap_range_def Let_def end_def not_le split: if_splits)
  then show ?thesis using unmap_areas_ok[OF inv, of "[]" "vmas s sp" start "end" e rel] that by auto
qed (use that in blast)

subsection \<open>Creating and removing\<close>

lemma areas_from: "areas_ok vs \<Longrightarrow> vs = [] \<or> k \<le> vma_start (hd vs) \<Longrightarrow> \<forall>v \<in> set vs. k \<le> vma_start v"
  by (cases vs) (auto simp: area_ok_def)

lemma create_vma_ok:
  assumes inv: "area_inv sp s"
  obtains (null) h where "create_vma s sp start sz flags = Some (0, s\<lparr>kheap := h\<rparr>)" "area_inv sp (s\<lparr>kheap := h\<rparr>)"
  | (made) p s' where "create_vma s sp start sz flags = Some (p, s')" "p \<noteq> 0" "area_inv sp s'" "start < start + sz"
      "start + sz \<le> get_split_boundary" "\<And>a. start \<le> a \<Longrightarrow> a < start + sz \<Longrightarrow> flags_at (vmas s sp) a = None"
      "flags_at (vmas s' sp) = (\<lambda>a. if start \<le> a \<and> a < start + sz then Some flags else flags_at (vmas s sp) a)"
proof -
  note I = area_invD[OF inv]
  let ?stop = "start + sz"
  define xs where "xs = takeWhile (\<lambda>v. vma_end v \<le> start) (vmas s sp)"
  define ys where "ys = dropWhile (\<lambda>v. vma_end v \<le> start) (vmas s sp)"
  have vs: "vmas s sp = xs @ ys" by (simp add: xs_def ys_def)
  show ?thesis
  proof (cases "sz = 0 \<or> ?stop \<le> start \<or> get_split_boundary < ?stop \<or> ys \<noteq> [] \<and> vma_start (hd ys) < ?stop")
    case True
    then have "create_vma s sp start sz flags = Some (0, s)" by (auto simp: create_vma_def Let_def ys_def)
    then show ?thesis using null[of "kheap s"] inv by simp
  next
    case False
    have xs: "\<forall>v \<in> set xs. vma_end v \<le> start" by (auto simp: xs_def dest: set_takeWhileD)
    have ok: "areas_ok xs" "areas_ok ys" "\<forall>v \<in> set xs. \<forall>w \<in> set ys. vma_end v \<le> vma_start w" using I(3) vs by auto
    have ys: "\<forall>v \<in> set ys. ?stop \<le> vma_start v" using False by (intro areas_from[OF ok(2)]) (auto simp: not_less)
    have free: "flags_at (vmas s sp) a = None" if "start \<le> a" "a < ?stop" for a
      unfolding vs by (rule flags_at_outside[OF _ that]) (use xs ys in auto)
    show ?thesis
    proof (cases "kzalloc (kheap s) sizeof_vma = Some (kheap s, 0)")
      case True
      then have "create_vma s sp start sz flags = Some (0, s)"
        using False I(1) by (auto simp: create_vma_def Let_def ys_def[symmetric] not_less)
      then show ?thesis using null[of "kheap s"] inv by simp
    next
      case not0: False
      obtain h p where m: "kzalloc (kheap s) sizeof_vma = Some (h, p)" "p \<noteq> 0" "p \<notin> vma_ptr ` set (vmas s sp)"
        "objs_heap h (shm_objects s) (insert (p, sizeof_vma) (vma_blocks (vmas s sp)))"
        using objs_heap_client_zalloc[OF I(4)[unfolded areas_heap_def, THEN conjunct1] sizeof_vma_small] not0 by auto
      let ?n = "new_vma p start ?stop flags"
      let ?s' = "set_vmas (s\<lparr>kheap := h\<rparr>) sp (xs @ ?n # ys)"
      have run: "create_vma s sp start sz flags = Some (p, ?s')"
        using False I(1) m(1,2) by (auto simp: create_vma_def Let_def ys_def[symmetric] xs_def[symmetric] not_less)
      have ok': "areas_ok (xs @ ?n # ys)" using False ok xs ys by (auto simp: new_vma_def area_ok_def not_le not_less)
      have "areas_heap (s\<lparr>kheap := h\<rparr>) (?n # xs @ ys)" using I(4) m(3,4) vs by (auto simp: areas_heap_def new_vma_def)
      then have "areas_heap (s\<lparr>kheap := h\<rparr>) (xs @ ?n # ys)" by (simp add: areas_heap_mid)
      then have inv': "area_inv sp ?s'"
        using I(1,2) ok' by (intro area_invI[where vs = "xs @ ?n # ys"]) auto
      have "flags_at (vmas ?s' sp) a = (if start \<le> a \<and> a < ?stop then Some flags else flags_at (vmas s sp) a)" for a
        using flags_at_mid[OF ok', of a] I(2) by (simp add: covers_def new_vma_def vs)
      then show ?thesis using m(2) False inv' free by (intro made[OF run]) (auto simp: not_le not_less)
    qed
  qed
qed

lemma remove_vma_ok:
  assumes inv: "area_inv sp s"
  obtains (none) r where "remove_vma rel s sp start end = Some (r, s)" "r < 0"
  | (gone) s' f where "remove_vma rel s sp start end = Some (0, s')" "area_inv sp s'" "start < end"
      "\<And>a. start \<le> a \<Longrightarrow> a < end \<Longrightarrow> flags_at (vmas s sp) a = Some f"
      "flags_at (vmas s' sp) = (\<lambda>a. if start \<le> a \<and> a < end then None else flags_at (vmas s sp) a)"
proof -
  note I = area_invD[OF inv]
  let ?P = "\<lambda>v. vma_start v = start \<and> vma_end v = end"
  define i where "i = index_where ?P (vmas s sp)"
  show ?thesis
  proof (cases "end \<le> start \<or> i = length (vmas s sp)")
    case True
    then show ?thesis using none I(1) by (cases "end \<le> start") (auto simp: remove_vma_def Let_def neg_def i_def)
  next
    case False
    define xs where "xs = take i (vmas s sp)"
    define v where "v = vmas s sp ! i"
    define ys where "ys = drop (Suc i) (vmas s sp)"
    have i: "i < length (vmas s sp)" "vma_start v = start" "vma_end v = end"
      using False nth_length_takeWhile[of "\<lambda>v. \<not> ?P v" "vmas s sp"] length_takeWhile_le[of "\<lambda>v. \<not> ?P v" "vmas s sp"]
      by (auto simp: index_where_def i_def v_def)
    have vs: "vmas s sp = xs @ v # ys" unfolding xs_def v_def ys_def using i(1) by (rule id_take_nth_drop)
    have ok: "areas_ok (xs @ v # ys)" using I(3) vs by simp
    have "areas_heap (set_vmas s sp (xs @ ys)) (v # xs @ ys)"
      using I(4) by (simp add: vs areas_heap_mid)
    from areas_heap_free[OF this] obtain h' where h': "kfree (kheap s) (vma_ptr v) = Some h'"
      "areas_heap ((set_vmas s sp (xs @ ys))\<lparr>kheap := h'\<rparr>) (xs @ ys)" by auto
    let ?s' = "(set_vmas s sp (xs @ ys))\<lparr>kheap := h'\<rparr>"
    have "release_fn v = 0" using I(4) vs by (auto simp: areas_heap_def)
    then have run: "remove_vma rel s sp start end = Some (0, ?s')"
      using False h'(1) I(1) by (simp add: remove_vma_def Let_def i_def[symmetric] xs_def[symmetric] v_def[symmetric] ys_def[symmetric])
    have vm: "vmas ?s' sp = xs @ ys" using I(2) by simp
    have "area_inv sp ?s'" using I(1,2) ok h'(2) by (intro area_invI[OF _ _ vm]) auto
    moreover have "flags_at (vmas s sp) a = (if start \<le> a \<and> a < end then Some (vma_flags v) else flags_at (xs @ ys) a)" for a
      using flags_at_mid[OF ok, of a] vs i(2,3) by (simp add: covers_def)
    moreover have "flags_at (xs @ ys) a = None" if "start \<le> a" "a < end" for a
      using ok i(2,3) by (intro flags_at_outside[OF _ that]) auto
    ultimately show ?thesis using False vm by (intro gone[OF run, where f = "vma_flags v"]) (auto simp: not_le fun_eq_iff)
  qed
qed

subsection \<open>Areas as commands on a map\<close>

datatype area_cmd = CreateArea u64 u64 u32 | RemoveArea u64 u64 | UnmapRange u64 u64

fun area_exec :: "platform \<Rightarrow> release_call \<Rightarrow> u64 \<Rightarrow> area_cmd \<Rightarrow> machine \<Rightarrow> (int \<times> machine) option" where
  "area_exec e rel sp (CreateArea start sz flags) s =
     map_option (\<lambda>(p, s'). (if p = 0 then -1 else 0, s')) (create_vma s sp start sz flags)"
| "area_exec e rel sp (RemoveArea start end) s = remove_vma rel s sp start end"
| "area_exec e rel sp (UnmapRange start sz) s = vm_unmap_range e rel s sp start sz"

text \<open>A failed command changes nothing. A created range was free and inside user space; a removed range was one
  area; an unmapped range ends up empty; and nothing outside the range changes.\<close>

fun area_spec :: "area_cmd \<Rightarrow> (u64 \<Rightarrow> u32 option) \<Rightarrow> int \<Rightarrow> (u64 \<Rightarrow> u32 option) \<Rightarrow> bool" where
  "area_spec (CreateArea start sz flags) m r m' \<longleftrightarrow>
     r < 0 \<and> m' = m \<or>
     r = 0 \<and> start < start + sz \<and> start + sz \<le> get_split_boundary \<and> (\<forall>a. start \<le> a \<and> a < start + sz \<longrightarrow> m a = None) \<and>
       m' = (\<lambda>a. if start \<le> a \<and> a < start + sz then Some flags else m a)"
| "area_spec (RemoveArea start end) m r m' \<longleftrightarrow>
     r < 0 \<and> m' = m \<or>
     r = 0 \<and> start < end \<and> (\<exists>f. \<forall>a. start \<le> a \<and> a < end \<longrightarrow> m a = Some f) \<and>
       m' = (\<lambda>a. if start \<le> a \<and> a < end then None else m a)"
| "area_spec (UnmapRange start sz) m r m' \<longleftrightarrow>
     r < 0 \<and> m' = m \<or>
     r = 0 \<and> start < start + align_up sz PAGE_SIZE \<and> start + align_up sz PAGE_SIZE \<le> get_split_boundary \<and>
       m' = (\<lambda>a. if start \<le> a \<and> a < start + align_up sz PAGE_SIZE then None else m a)"

lemma area_sim:
  assumes inv: "area_inv sp s"
  shows "\<exists>r t. area_exec e rel sp c s = Some (r, t) \<and> area_inv sp t \<and> area_spec c (flags_at (vmas s sp)) r (flags_at (vmas t sp))"
proof (cases c)
  case (CreateArea start sz flags)
  show ?thesis by (rule create_vma_ok[OF inv, of start sz flags]) (auto simp: CreateArea)
next
  case (RemoveArea start "end")
  show ?thesis by (rule remove_vma_ok[OF inv, of rel start "end"]) (use inv in \<open>auto simp: RemoveArea\<close>)
next
  case (UnmapRange start sz)
  show ?thesis
    by (rule vm_unmap_range_ok[OF inv, of e rel start sz]) (use inv in \<open>auto simp: UnmapRange unmap_done_def neg_def\<close>)
qed

interpretation areas: command_sim "area_exec e rel sp" "area_inv sp" "\<lambda>s. flags_at (vmas s sp)" "\<lambda>_. True" area_spec "\<lambda>_ _. True"
  for e rel sp
  by unfold_locales (use area_sim in auto)

subsection \<open>A small space\<close>

definition small_space :: machine where
  "small_space = put_vm (boot_machine demo_pages demo_heap) 0x5000 (empty_vm 0x5000)"

lemma small_space_inv: "area_inv 0x5000 small_space"
proof -
  have "heap_set demo_heap {}"
    unfolding heap_set_def kheap_live_def using demo_heap_inv by (intro exI[of _ "[]"]) auto
  then show ?thesis
    by (auto simp: area_inv_def small_space_def put_vm_def vmas_def empty_vm_def empty_space_def areas_heap_def objs_heap_def
        boot_machine_def obj_ptrs_def zero_shm_def)
qed

lemma small_space_empty: "vmas small_space 0x5000 = []"
  by (simp add: small_space_def put_vm_def vmas_def empty_vm_def empty_space_def)

subsection \<open>Validation\<close>

lemma find_area_mem:
  assumes "areas_ok vs" "v \<in> set vs" "covers v a"
  shows "find_area vs a = Some v"
proof -
  obtain xs ys where vs: "vs = xs @ v # ys" using assms(2) by (auto dest: split_list)
  have "find_area xs a = None" using assms(1,3) vs covers_disjoint[of _ v a] by (auto simp: find_area_None)
  then show ?thesis using assms(3) vs by (simp add: find_area_append)
qed

definition covered :: "vma list \<Rightarrow> u32 \<Rightarrow> u64 \<Rightarrow> bool" where
  "covered vs req a \<longleftrightarrow> (\<exists>f. flags_at vs a = Some f \<and> f AND req = req)"

lemma validate_walk_iff:
  assumes "areas_ok vs"
  shows "validate_walk vs req end cursor \<longleftrightarrow> (\<forall>a. cursor \<le> a \<and> a < end \<longrightarrow> covered vs req a)"
  using assms
proof (induction vs req "end" cursor rule: validate_walk.induct)
  case (1 vs req "end" cursor)
  show ?case
  proof (cases "cursor < end \<and> covered vs req cursor")
    case False
    then show ?thesis
      by (subst validate_walk.simps) (auto simp: covered_def flags_at_def split: option.splits)
  next
    case True
    then obtain v where v: "find_area vs cursor = Some v" "vma_flags v AND req = req"
      by (auto simp: covered_def flags_at_def)
    have c: "v \<in> set vs" "vma_start v \<le> cursor" "cursor < vma_end v" using find_area_Some[OF v(1)] by (auto simp: covers_def)
    have "covered vs req a" if "cursor \<le> a" "a < vma_end v" for a
      using find_area_mem[OF 1(2) c(1), of a] that c(2) v(2) by (auto simp: covers_def covered_def flags_at_def)
    moreover have "validate_walk vs req end cursor = validate_walk vs req end (if vma_end v < end then vma_end v else end)"
      using True v c(3) by (subst validate_walk.simps) auto
    ultimately show ?thesis
      using 1(1)[of v] True v c 1(2) by (auto simp: not_le not_less) (meson not_le order.trans)+
  qed
qed

subsection \<open>Free ranges\<close>

text \<open>A page-aligned range of \<open>sz\<close> bytes inside \<open>base\<close> to \<open>limit\<close> that meets no area.\<close>

definition free_range :: "vma list \<Rightarrow> u64 \<Rightarrow> u64 \<Rightarrow> u64 \<Rightarrow> u64 \<Rightarrow> bool" where
  "free_range vs sz base limit x \<longleftrightarrow> is_page_aligned x \<and> base \<le> x \<and> unat x + unat sz \<le> unat limit \<and>
     (\<forall>v \<in> set vs. \<not> vm_range_overlaps v x (x + sz))"

definition aligned_areas :: "vma list \<Rightarrow> bool" where
  "aligned_areas vs \<longleftrightarrow> (\<forall>v \<in> set vs. is_page_aligned (vma_start v) \<and> is_page_aligned (vma_end v))"

lemma page_aligned_iff: "is_page_aligned a \<longleftrightarrow> page a"
  by (simp add: is_page_aligned_def PAGE_SIZE_def page_mask)

lemma align_up_page: "is_page_aligned a \<Longrightarrow> align_up a PAGE_SIZE = a"
  using align_up_id[of 12 a] by (simp add: page_aligned_iff page_def PAGE_SIZE_def)

lemma room_iff: "x \<le> limit \<Longrightarrow> sz \<le> limit - x \<longleftrightarrow> unat x + unat sz \<le> unat (limit :: u64)"
  by (auto simp: word_le_nat_alt unat_sub)

lemma unat_add_room: "unat (x :: u64) + unat sz \<le> unat (limit :: u64) \<Longrightarrow> unat (x + sz) = unat x + unat sz"
  by (rule unat_add_in) (use unat64_less[of limit] in linarith)

lemma overlaps_nat:
  assumes "unat x + unat sz \<le> unat (limit :: u64)"
  shows "vm_range_overlaps v x (x + sz) \<longleftrightarrow> unat x < unat (vma_end v) \<and> unat (vma_start v) < unat x + unat sz"
  by (simp add: vm_range_overlaps_def word_less_nat_alt unat_add_room[OF assms])

lemma find_gap_ok:
  assumes "areas_ok vs" "aligned_areas vs" "is_page_aligned address" "base \<le> address" "0 < unat sz"
    "\<forall>v \<in> set vs. address \<le> vma_start v \<or> vma_end v \<le> address" "address \<noteq> 0"
  shows "find_gap vs sz base limit address \<noteq> 0 \<and> free_range vs sz address limit (find_gap vs sz base limit address) \<or>
    find_gap vs sz base limit address = 0 \<and> (\<forall>x. \<not> free_range vs sz address limit x)"
  using assms
proof (induction vs arbitrary: address)
  case Nil
  then show ?case
    using room_iff[of address limit sz] by (auto simp: free_range_def word_less_nat_alt word_le_nat_alt)
next
  case (Cons v vs)
  have v: "vma_start v < vma_end v" "\<forall>w \<in> set vs. vma_end v \<le> vma_start w" "is_page_aligned (vma_end v)"
    "areas_ok vs" "aligned_areas vs"
    using Cons.prems by (auto simp: area_ok_def aligned_areas_def)
  have nat: "unat (vma_start v) < unat (vma_end v)" "\<And>w. w \<in> set vs \<Longrightarrow> unat (vma_end v) \<le> unat (vma_start w)"
    using v by (auto simp: word_less_nat_alt word_le_nat_alt)
  have starts: "\<And>w. w \<in> set (v # vs) \<Longrightarrow> unat (vma_start v) \<le> unat (vma_start w)" using nat by fastforce
  consider (behind) "vma_end v \<le> address" | (above) "address \<le> vma_start v" "limit \<le> vma_start v"
    | (gap) "address \<le> vma_start v" "vma_start v < limit" "sz \<le> vma_start v - address"
    | (tight) "address \<le> vma_start v" "vma_start v < limit" "\<not> sz \<le> vma_start v - address"
    using Cons.prems(6) by (metis list.set_intros(1) not_le)
  then show ?case
  proof cases
    case behind
    have "free_range (v # vs) sz address limit x = free_range vs sz address limit x" for x
      using behind by (auto simp: free_range_def vm_range_overlaps_def)
    then show ?thesis using Cons.IH[OF v(4,5) Cons.prems(3-5)] Cons.prems(6,7) behind by simp
  next
    case above
    have n: "\<not> vma_end v \<le> address" "\<not> vma_end v \<le> base" using above v(1) Cons.prems(4) by auto
    have eq: "find_gap (v # vs) sz base limit address = (if address < limit \<and> sz \<le> limit - address then address else 0)"
      using n above by simp
    have far: "\<not> vm_range_overlaps w x (x + sz)" if "w \<in> set (v # vs)" "unat x + unat sz \<le> unat limit" for w x
      using starts[OF that(1)] above(2) that(2) by (auto simp: overlaps_nat[OF that(2)] word_le_nat_alt)
    have "free_range (v # vs) sz address limit x \<longleftrightarrow> is_page_aligned x \<and> address \<le> x \<and> unat x + unat sz \<le> unat limit" for x
      using far by (auto simp: free_range_def)
    moreover have "address < limit \<and> sz \<le> limit - address \<longleftrightarrow> unat address + unat sz \<le> unat limit"
      using room_iff[of address limit sz] Cons.prems(5) by (auto simp: word_less_nat_alt word_le_nat_alt)
    ultimately show ?thesis unfolding eq using Cons.prems(3,7) by (auto simp: word_le_nat_alt)
  next
    case gap
    have n: "\<not> vma_end v \<le> address" "\<not> vma_end v \<le> base" using gap v(1) Cons.prems(4) by auto
    have fit: "unat address + unat sz \<le> unat (vma_start v)" using room_iff[OF gap(1)] gap(3) by simp
    have "\<not> vm_range_overlaps w address (address + sz)" if "w \<in> set (v # vs)" for w
      using starts[OF that] fit by (simp add: overlaps_nat[OF fit])
    moreover have "unat address + unat sz \<le> unat limit" using fit gap(2) by (simp add: word_less_nat_alt)
    ultimately show ?thesis using n gap Cons.prems(3,7) by (auto simp: free_range_def)
  next
    case tight
    have n: "\<not> vma_end v \<le> address" "\<not> vma_end v \<le> base" "address < vma_end v" "\<not> vma_end v < base" "vma_end v \<noteq> 0" "base \<le> vma_end v"
      using tight v(1) Cons.prems(4,7) by auto
    have no: "\<not> unat address + unat sz \<le> unat (vma_start v)" using room_iff[OF tight(1)] tight(3) by simp
    have eq: "find_gap (v # vs) sz base limit address =
        (if limit \<le> vma_end v \<or> limit - vma_end v < sz then 0 else find_gap vs sz base limit (vma_end v))"
      using n tight by (auto simp: align_up_page[OF v(3)])
    have move: "free_range (v # vs) sz address limit x \<longleftrightarrow> free_range vs sz (vma_end v) limit x" for x
    proof (cases "unat x + unat sz \<le> unat limit")
      case True
      show ?thesis using no n(1) tight(1) nat(1) Cons.prems(5)
        by (auto simp: free_range_def overlaps_nat[OF True] word_le_nat_alt)
    qed (simp add: free_range_def)
    show ?thesis
    proof (cases "limit \<le> vma_end v \<or> limit - vma_end v < sz")
      case True
      have "unat limit < unat (vma_end v) + unat sz"
        using True room_iff[of "vma_end v" limit sz] Cons.prems(5) by (cases "vma_end v \<le> limit") (auto simp: word_le_nat_alt word_less_nat_alt not_le)
      then have "\<not> free_range vs sz (vma_end v) limit x" for x
        by (auto simp: free_range_def word_le_nat_alt)
      then show ?thesis unfolding eq move using True by simp
    next
      case False
      have "\<forall>w \<in> set vs. vma_end v \<le> vma_start w \<or> vma_end w \<le> vma_end v" using v(2) by blast
      then show ?thesis unfolding eq move using False Cons.IH[OF v(4,5,3) n(6) Cons.prems(5)] n(5) by simp
    qed
  qed
qed

subsection \<open>Properties\<close>

text \<open>C29. The area list of an address space is a map from user addresses to flags. Any sequence of \<open>create_vma\<close>,
  \<open>remove_vma\<close> and \<open>vm_unmap_range\<close> returns; the list stays sorted, disjoint and inside user space and owns its heap
  records; and each call does on the map what its contract says. A created range was free. An unmapped range is
  empty afterwards even when areas had to be split, and nothing outside it changes. A call that fails, also one that runs
  out of memory in the middle of a split, changes nothing. (The areas of the space have no release callback.)\<close>

theorem areas_refine:
  assumes "area_inv sp s"
  shows "\<exists>rs s'. run_cmds (area_exec e rel sp) cs s = Some (rs, s') \<and> area_inv sp s' \<and> areas_ok (vmas s' sp) \<and>
    spec_run area_spec cs (flags_at (vmas s sp)) rs (flags_at (vmas s' sp))"
  using areas.sim_run[OF assms, of cs e rel] area_invD(3) by (auto simp: list_all_iff)

theorem areas_refine_witness:
  "area_inv 0x5000 small_space \<and>
   (\<exists>rs s'. run_cmds (area_exec demo_platform (\<lambda>_ _ s. s) 0x5000)
       [CreateArea 0x400000 0x3000 3, UnmapRange 0x401000 0x1000, RemoveArea 0x402000 0x403000] small_space = Some (rs, s') \<and>
     length rs = 3 \<and> (rs ! 0 = 0 \<and> rs ! 1 = 0 \<longrightarrow> flags_at (vmas s' 0x5000) 0x401000 = None \<and> flags_at (vmas s' 0x5000) 0x400000 = Some 3))"
  using small_space_inv
    areas_refine[OF small_space_inv, of demo_platform "\<lambda>_ _ s. s" "[CreateArea 0x400000 0x3000 3, UnmapRange 0x401000 0x1000, RemoveArea 0x402000 0x403000]"]
  by (auto simp: align_up_def PAGE_SIZE_def)

text \<open>C30. \<open>vm_validate_user_range\<close> accepts exactly the ranges a copy may touch: not empty, without wrap-around, below
  the user/kernel boundary, clear of the low kernel alias, and with every single byte inside an area that has all
  required flags. The walk over the areas ends for every list.\<close>

theorem validate_user_range_exact:
  assumes "areas_ok (vmas s sp)"
  shows "vm_validate_user_range kimg s sp address len req \<longleftrightarrow>
    sp \<noteq> 0 \<and> req \<noteq> 0 \<and> len \<noteq> 0 \<and> unat address + unat len \<le> unat get_split_boundary \<and>
    \<not> memory_range_overlaps_low_kernel_alias kimg address (address + len) \<and>
    (\<forall>a. unat address \<le> unat a \<and> unat a < unat address + unat len \<longrightarrow> covered (vmas s sp) req a)"
proof (cases "unat address + unat len \<le> unat get_split_boundary")
  case True
  have u: "unat (address + len) = unat address + unat len" by (rule unat_add_room[OF True])
  have "len \<noteq> 0 \<Longrightarrow> \<not> address + len \<le> address" by (simp add: word_le_nat_alt u unat_gt_0 not_le)
  moreover have "\<not> get_split_boundary < address + len" using True by (simp add: word_less_nat_alt u)
  ultimately show ?thesis
    using True by (auto simp: vm_validate_user_range_def Let_def validate_walk_iff[OF assms] word_le_nat_alt word_less_nat_alt u)
next
  case False
  have "address + len \<le> address \<or> get_split_boundary < address + len"
  proof (cases "unat address + unat len < 2 ^ 64")
    case True
    then show ?thesis using False unat_add_in[OF True] by (simp add: word_less_nat_alt)
  next
    case over: False
    have "unat (address + len) = unat address + unat len - 2 ^ 64"
      using over unat64_less[of address] unat64_less[of len] by (simp add: unat_word_ariths mod_if)
    then have "unat (address + len) \<le> unat address" using unat64_less[of len] by simp
    then show ?thesis by (simp add: word_le_nat_alt)
  qed
  then show ?thesis using False by (auto simp: vm_validate_user_range_def Let_def)
qed

theorem validate_user_range_exact_witness:
  "areas_ok (vmas small_space 0x5000) \<and> \<not> vm_validate_user_range (0xFFFFFF8040080000, 0xFFFFFF8050000000) small_space 0x5000 0x400000 8 1"
  using validate_user_range_exact[of small_space "0x5000" "(0xFFFFFF8040080000, 0xFFFFFF8050000000)" "0x400000" 8 1] small_space_inv
  by (auto simp: area_inv_def small_space_empty covered_def flags_at_def intro!: exI[of _ "0x400000"])



end
