(* ===== verification/UserFault_Correct.thy ===== *)
theory UserFault_Correct
  imports VmArea_Correct KString_Correct
begin

text \<open>
  The address space of the running process as the fault handlers see it: its record is registered, its tables and
  mappings satisfy the invariant of \<open>UserVM_Steps\<close>, and every page it maps is an allocated page of its own. The demand
  faults and the copy-on-write fault keep that, never disturb the contents of an allocated page, and give the
  process a private copy where they claim to.
\<close>

subsection \<open>Single pages\<close>

text \<open>\<open>buddy_alloc\<close> clears the pages that the direct map reaches.\<close>

definition cleared :: "platform \<Rightarrow> bmem \<Rightarrow> u64 \<Rightarrow> bool" where
  "cleared e m p \<longleftrightarrow> (mmu_enabled e \<longrightarrow> phys_in_direct_map e p) \<longrightarrow> (\<forall>x. in_page p x \<longrightarrow> m x = 0)"

lemma buddy_alloc_cleared:
  assumes "snd (buddy_alloc e s 1) \<noteq> 0"
  shows "cleared e (pmem (fst (buddy_alloc e s 1))) (snd (buddy_alloc e s 1))"
  using assms by (auto simp: buddy_alloc_def Let_def cleared_def memset_range set_range_def in_page_def split: option.splits)

lemma allocate_page_cases:
  assumes own: "owns e ph P"
  obtains (none) "allocate_page e ph = (ph, 0)"
  | (some) p ph' where "allocate_page e ph = (ph', p)" "owns e ph' (insert p P)" "p \<notin> P" "p \<noteq> 0"
      "\<And>x. \<not> in_page p x \<Longrightarrow> pmem ph' x = pmem ph x" "cleared e (pmem ph') p"
proof -
  obtain B where B: "pm_inv e ph B" "P = {page_addr ph r |r. (r, 1) \<in> B}" using own by (auto simp: owns_def)
  show ?thesis
  proof (cases "has_run e ph 1")
    case False
    then have "buddy_alloc e ph 1 = (ph, 0)" using buddy_alloc_none[OF B(1), of 1] by simp
    then show ?thesis by (intro none) (simp add: allocate_page_def)
  next
    case True
    then have one: "(1 :: u64) \<noteq> 0" "has_run e ph (unat (1 :: u64))" "unat (1 :: u64) = 1" by simp_all
    from buddy_alloc_some[OF B(1) one(1,2), unfolded one(3)] obtain r ph' where r: "buddy_alloc e ph 1 = (ph', page_addr ph r)"
      "page_addr ph r \<noteq> 0" "pm_inv e ph' (insert (r, 1) B)" "same_arena ph ph'"
      "\<And>b. b \<in> B \<Longrightarrow> block_pages b \<inter> block_pages (r, 1) = {}"
      by metis
    note g = same_arena_geometry(3)[OF r(4)]
    have own': "owns e ph' (insert (page_addr ph r) P)"
      unfolding owns_def using r(3) B(2) g by (intro exI[of _ "insert (r, 1) B"]) auto
    have "(r, 1) \<notin> B" using r(5)[of "(r, 1)"] by (auto simp: block_pages_def)
    then have new: "page_addr ph r \<notin> P" unfolding B(2) using page_addr_inj[OF r(3)] g by auto
    have mem: "pmem ph' x = pmem ph x" if "\<not> in_page (page_addr ph r) x" for x
      using buddy_alloc_pmem[of e ph 1] r(1) that by (auto simp: memset_range set_range_def in_page_def)
    have zero: "cleared e (pmem ph') (page_addr ph r)" using buddy_alloc_cleared[of e ph] r(1,2) by simp
    show ?thesis by (rule some[OF _ own' new]) (use r(1,2) mem zero in \<open>simp_all add: allocate_page_def\<close>)
  qed
qed

lemma free_page_cases:
  assumes own: "owns e ph P" and p: "p \<in> P"
  shows "owns e (free_page e ph p) P \<or> owns e (free_page e ph p) (P - {p})" "pmem (free_page e ph p) = pmem ph"
proof -
  obtain B r where B: "pm_inv e ph B" "P = {page_addr ph r |r. (r, 1) \<in> B}" "(r, 1) \<in> B" "p = page_addr ph r"
    using assms by (auto simp: owns_def)
  have rr: "r \<in> block_pages (r, 1)" by (simp add: block_pages_def)
  have rm: "r < max_pages e ph" using pm_invD(2)[OF B(1,3)] by simp
  define ph1 where "ph1 = (if refcount (page_infos ph ! r) = 0 then ph else set_refs ph r 0)"
  have ph1: "pm_inv e ph1 B" "same_arena ph ph1" "pmem ph1 = pmem ph"
    using B(1) set_refs_inv[OF B(1) rm] by (auto simp: ph1_def same_arena_def set_refs_def)
  note g1 = same_arena_geometry(3)[OF ph1(2)]
  note F = buddy_free_spec[OF ph1(1) B(3) rr]
  have own1: "owns e ph1 P" unfolding owns_def using ph1(1) B(2) g1 by auto
  have freed: "owns e (buddy_free_locked e ph1 p) (P - {p})" "pmem (buddy_free_locked e ph1 p) = pmem ph"
  proof -
    have "arm64_vm_free_pages e (boot_machine ph1 h) p 1 = (0, boot_machine (buddy_free_locked e ph1 p) h)" for h
      using owns_page(2)[OF own1 p] by (simp add: arm64_vm_free_pages_def free_pages_def buddy_free_def boot_machine_def)
    then show "owns e (buddy_free_locked e ph1 p) (P - {p})" "pmem (buddy_free_locked e ph1 p) = pmem ph"
      using free_page_owned[of e "boot_machine ph1 undefined" P p] own1 p ph1(3)
      by (auto simp: boot_machine_def)
  qed
  have kept: "owns e (set_refs ph r k) P" "pmem (set_refs ph r k) = pmem ph" for k
    using set_refs_inv[OF B(1) rm] B(2) same_arena_geometry(3)[OF set_refs_inv(2)[OF B(1) rm]]
    by (auto simp: owns_def set_refs_def)
  show "owns e (free_page e ph p) P \<or> owns e (free_page e ph p) (P - {p})" "pmem (free_page e ph p) = pmem ph"
    unfolding B(4) free_page_block[OF B(1,3) rr] ph1_def[symmetric] using freed kept by (auto simp: B(4)[symmetric])
qed

lemma vm_inv_phys:
  assumes inv: "vm_inv e s vm P R" and own: "owns e ph P'" "set (tables_of vm) \<subseteq> P'"
    and mem: "\<And>t x. t \<in> set (tables_of vm) \<Longrightarrow> in_page t x \<Longrightarrow> pmem ph x = pmem (phys s) x"
  shows "vm_inv e (s\<lparr>phys := ph\<rparr>) vm P' R"
  using inv own vm_ok_outside[OF vm_invD(1)[OF inv] mem] by (simp add: vm_inv_def)

subsection \<open>The space of the running process\<close>

definition data_pages :: "arm64_user_vm \<Rightarrow> u64 set \<Rightarrow> u64 set" where
  "data_pages vm P = P - set (tables_of vm)"

definition mapped :: "arm64_user_vm \<Rightarrow> u64 set" where
  "mapped vm = {physical_address mp |va mp. lookup_map vm va = Some mp}"

definition data_ok :: "arm64_user_vm \<Rightarrow> u64 set \<Rightarrow> bool" where
  "data_ok vm P \<longleftrightarrow> (\<forall>va mp. lookup_map vm va = Some mp \<longrightarrow> physical_address mp \<in> data_pages vm P) \<and>
     (\<forall>va vb mp mq. lookup_map vm va = Some mp \<longrightarrow> lookup_map vm vb = Some mq \<longrightarrow> physical_address mp = physical_address mq \<longrightarrow> va = vb)"

lemma mapped_data: "data_ok vm P \<Longrightarrow> mapped vm \<subseteq> data_pages vm P"
  by (auto simp: data_ok_def mapped_def)

lemma data_ok_add:
  "data_ok vm P \<Longrightarrow> physical_address mp \<in> data_pages vm P \<Longrightarrow> physical_address mp \<notin> mapped vm \<Longrightarrow> data_pages vm' P' = data_pages vm P \<Longrightarrow>
   lookup_map vm' = (lookup_map vm)(va \<mapsto> mp) \<Longrightarrow> data_ok vm' P'"
  unfolding data_ok_def by (auto simp: mapped_def split: if_splits)

lemma data_ok_sub:
  "data_ok vm P \<Longrightarrow> data_pages vm' P' = data_pages vm P \<Longrightarrow>
   (\<And>va mp. lookup_map vm' va = Some mp \<Longrightarrow> \<exists>mq. lookup_map vm va = Some mq \<and> physical_address mq = physical_address mp) \<Longrightarrow> data_ok vm' P'"
  unfolding data_ok_def by metis

definition live_space :: "platform \<Rightarrow> machine \<Rightarrow> u64 \<Rightarrow> arm64_user_vm \<Rightarrow> u64 set \<Rightarrow> block set \<Rightarrow> bool" where
  "live_space e s sp vm P R \<longleftrightarrow> sp \<noteq> 0 \<and> vms s sp = Some vm \<and> vm_self vm = sp \<and> backend_for_pgdir s (l1 vm) = Some sp \<and>
     vm_inv e s vm P R \<and> data_ok vm P"

lemma live_spaceD:
  assumes "live_space e s sp vm P R"
  shows "sp \<noteq> 0" "vms s sp = Some vm" "vm_self vm = sp" "backend_for_pgdir s (l1 vm) = Some sp" "vm_inv e s vm P R" "data_ok vm P"
    "pgdir (space vm) = l1 vm" "space_asid (space vm) = asid vm" "arch_private (space vm) = sp"
    "space_pgdir s sp = l1 vm" "space_asid_of s sp = asid vm" "backend s sp = sp"
  using assms vm_invD(6)[of e s vm P R]
  by (auto simp: live_space_def ident_ok_def space_pgdir_def space_asid_of_def backend_def)

lemma find_cong_on: "(\<And>x. x \<in> set xs \<Longrightarrow> Q x = Q' x) \<Longrightarrow> find Q xs = find Q' xs"
  by (induction xs) auto

lemma backend_frame: "frame s s' \<Longrightarrow> backend_for_pgdir s' pd = backend_for_pgdir s pd"
proof -
  assume f: "frame s s'"
  have "(case vms s' p of None \<Rightarrow> False | Some vm \<Rightarrow> pgdir (space vm) = pd) =
      (case vms s p of None \<Rightarrow> False | Some vm \<Rightarrow> pgdir (space vm) = pd)" for p
  proof -
    have "map_option space (vms s' p) = map_option space (vms s p)" using f by (simp add: frame_def)
    then show ?thesis by (auto split: option.splits)
  qed
  then show ?thesis using f by (simp add: backend_for_pgdir_def frame_def)
qed

text \<open>Putting the result of a step on the record back into the machine.\<close>

lemma live_put:
  assumes live: "live_space e s sp vm P R" and st: "vm_step e R (s, vm, P) (s', vm', P')" and data: "data_ok vm' P'"
  shows "live_space e (put_vm s' sp vm') sp vm' P' R" "frame s (put_vm s' sp vm')"
proof -
  note D = live_spaceD[OF live]
  have s: "same_rest s s'" "same_id vm vm'" "vm_inv e s' vm' P' R" using st by (auto simp: vm_step_def)
  show f: "frame s (put_vm s' sp vm')" by (rule frame_put[OF s(1) D(2) s(2)])
  have "vm_inv e (put_vm s' sp vm') vm' P' R" using s(3) by (simp add: vm_inv_def put_vm_def)
  then show "live_space e (put_vm s' sp vm') sp vm' P' R"
    using D backend_frame[OF f, of "l1 vm"] s(2) data by (simp add: live_space_def same_id_def put_vm_def)
qed

lemma live_phys:
  assumes live: "live_space e s sp vm P R" and own: "owns e ph P'" and data: "data_pages vm P - X \<subseteq> P'" "set (tables_of vm) \<subseteq> P'" "mapped vm \<inter> X = {}"
    and mem: "\<And>t x. t \<in> set (tables_of vm) \<Longrightarrow> in_page t x \<Longrightarrow> pmem ph x = pmem (phys s) x"
  shows "live_space e (s\<lparr>phys := ph\<rparr>) sp vm P' R"
proof -
  note D = live_spaceD[OF live]
  have "vm_inv e (s\<lparr>phys := ph\<rparr>) vm P' R" by (rule vm_inv_phys[OF D(5) own data(2) mem])
  moreover have "data_ok vm P'" using D(6) data by (auto simp: data_ok_def data_pages_def mapped_def) blast
  moreover have "backend_for_pgdir (s\<lparr>phys := ph\<rparr>) (l1 vm) = Some sp" using D(4) by (simp add: backend_for_pgdir_def)
  ultimately show ?thesis using D by (simp add: live_space_def)
qed

lemma page_and: "page a \<Longrightarrow> a AND PAGE_MASK = a" "page a \<Longrightarrow> a AND PAGE_OFFSET_MASK = 0"
proof -
  assume p: "page a"
  then have z: "a AND 0xFFF = 0" by (simp add: page_mask)
  then show "a AND PAGE_OFFSET_MASK = 0" by (simp add: PAGE_OFFSET_MASK_def)
  have "a = (a AND NOT 0xFFF) OR (a AND 0xFFF)" by (metis bit.conj_disj_distrib bit.disj_cancel_right inf_sup_aci(5) or.commute word_and_max)
  then show "a AND PAGE_MASK = a" using z by (simp add: PAGE_MASK_def)
qed

lemma page_masked: "page (a AND PAGE_MASK)"
  by (simp add: page_mask PAGE_MASK_def and.assoc)

lemma get_physical_live:
  assumes live: "live_space e s sp vm P R"
  shows "get_physical_address s (l1 vm) va = (case lookup_map vm (va AND PAGE_MASK) of
      None \<Rightarrow> 0 | Some mp \<Rightarrow> physical_address mp + (va AND PAGE_OFFSET_MASK))"
proof -
  note D = live_spaceD[OF live] and I = vm_invD[OF live_spaceD(5)[OF live]]
  have m: "va AND PAGE_MASK AND PAGE_MASK = va AND PAGE_MASK" by (simp add: and.assoc)
  show ?thesis
  using I(2) proof (cases rule: mapping_index_cases[of vm "va AND PAGE_MASK"])
    case absent
    then show ?thesis using D(2,4) vm_inv_valid[OF D(5)] by (simp add: get_physical_address_def arm64_user_vm_lookup_def m)
  next
    case (present mp)
    have "physical_address mp \<noteq> 0" using records_okD(8)[OF I(2) present(4)] by (simp add: mapping_ok_def)
    then show ?thesis using present D(2,4) vm_inv_valid[OF D(5)]
      by (simp add: get_physical_address_def arm64_user_vm_lookup_def m Let_def)
  qed
qed

lemma user_page_live:
  assumes live: "live_space e s sp vm P R" and va: "page va"
  shows "get_physical_address s (space_pgdir s sp) va = (case lookup_map vm va of None \<Rightarrow> 0 | Some mp \<Rightarrow> physical_address mp)"
    "get_physical_address s (space_pgdir s sp) va AND PAGE_MASK = (case lookup_map vm va of None \<Rightarrow> 0 | Some mp \<Rightarrow> physical_address mp)"
proof -
  note D = live_spaceD[OF live] and I = vm_invD[OF live_spaceD(5)[OF live]]
  show 1: "get_physical_address s (space_pgdir s sp) va = (case lookup_map vm va of None \<Rightarrow> 0 | Some mp \<Rightarrow> physical_address mp)"
    using get_physical_live[OF live, of va] page_and[OF va] D(10) by (simp split: option.splits)
  have "page (physical_address mp)" if "lookup_map vm va = Some mp" for mp
    using that I(2) lookup_map_Some[OF I(2)] records_okD(8)[OF I(2), of mp] by (auto simp: mapping_ok_def valid_page)
  then show "get_physical_address s (space_pgdir s sp) va AND PAGE_MASK = (case lookup_map vm va of None \<Rightarrow> 0 | Some mp \<Rightarrow> physical_address mp)"
    unfolding 1 using page_and(1) by (auto split: option.splits)
qed

subsection \<open>Page operations on the running space\<close>

lemma physical_page:
  assumes live: "live_space e s sp vm P R" and p: "p \<in> data_pages vm P"
  shows "page p" "p \<noteq> 0" "table_address_valid p" "p AND PAGE_MASK = p"
proof -
  note I = vm_invD[OF live_spaceD(5)[OF live]]
  have P: "p \<in> P" using p by (simp add: data_pages_def)
  show "page p" "p \<noteq> 0" using owns_page[OF I(3) P] by auto
  then show "p AND PAGE_MASK = p" by (simp add: page_and)
  show "table_address_valid p" by (rule owns_valid[OF I(3) P I(9)])
qed

lemma live_map:
  assumes live: "live_space e s sp vm P R" and pa: "pa \<in> data_pages vm P" "pa \<notin> mapped vm" and va: "page va"
  obtains r s' vm' P' where "map_user_page e sp s (space_pgdir s sp) va pa flags (space_asid_of s sp) = Some (r, s')"
    "live_space e s' sp vm' P' R" "frame s s'" "data_pages vm' P' = data_pages vm P"
    "\<forall>p \<in> data_pages vm P. \<forall>x. in_page p x \<longrightarrow> pmem (phys s') x = pmem (phys s) x"
    "r = 0 \<and> lookup_map vm va = None \<and> lookup_map vm' = (lookup_map vm)(va \<mapsto> \<lparr>virtual_address = va, physical_address = pa, mflags = flags AND NOT VMA_LAZY\<rparr>) \<or>
     r < 0 \<and> lookup_map vm' = lookup_map vm"
proof -
  note D = live_spaceD[OF live] and Q = physical_page[OF live pa(1)]
  obtain r vm' s' P' where M: "arm64_user_vm_map_page e vm s va pa flags = Some (r, vm', s')" "vm_step e R (s, vm, P) (s', vm', P')"
    "r = 0 \<and> lookup_map vm va = None \<and> user_va va \<and> lookup_map vm' = (lookup_map vm)(va \<mapsto> \<lparr>virtual_address = va, physical_address = pa, mflags = flags AND NOT VMA_LAZY\<rparr>) \<or>
     r < 0 \<and> lookup_map vm' = lookup_map vm"
    by (rule map_page_step[OF D(5) Q(2,3)])
  have dp: "data_pages vm' P' = data_pages vm P" using M(2) by (simp add: vm_step_def data_pages_def)
  have data: "data_ok vm' P'"
  proof (cases "r = 0")
    case True
    then show ?thesis using M(3) pa by (intro data_ok_add[OF D(6) _ _ dp]) auto
  next
    case False
    then show ?thesis using M(3) by (intro data_ok_sub[OF D(6) dp]) auto
  qed
  note L = live_put[OF live M(2) data]
  have run: "map_user_page e sp s (space_pgdir s sp) va pa flags (space_asid_of s sp) = Some (r, put_vm s' sp vm')"
    using D M(1) page_and(1)[OF va] Q(4) by (simp add: map_user_page_def)
  have mem: "\<forall>p \<in> data_pages vm P. \<forall>x. in_page p x \<longrightarrow> pmem (phys (put_vm s' sp vm')) x = pmem (phys s) x"
    using M(2) by (simp add: vm_step_def data_pages_def put_vm_def)
  show ?thesis using that[OF run L dp mem] M(3) by blast
qed

lemma live_unmap:
  assumes live: "live_space e s sp vm P R" and mp: "lookup_map vm va = Some mp" and va: "page va"
  obtains s' vm' P' where "unmap_user_page e s (space_pgdir s sp) va (space_asid_of s sp) = (0, s')"
    "live_space e s' sp vm' P' R" "frame s s'" "data_pages vm' P' = data_pages vm P"
    "\<forall>p \<in> data_pages vm P. \<forall>x. in_page p x \<longrightarrow> pmem (phys s') x = pmem (phys s) x" "lookup_map vm' = (lookup_map vm)(va := None)"
proof -
  note D = live_spaceD[OF live]
  obtain vm' s' P' where U: "arm64_user_vm_unmap_page e vm s va = (0, vm', s')" "vm_step e R (s, vm, P) (s', vm', P')"
    "lookup_map vm' = (lookup_map vm)(va := None)"
    by (rule unmap_step[OF D(5) mp])
  have dp: "data_pages vm' P' = data_pages vm P" using U(2) by (simp add: vm_step_def data_pages_def)
  have data: "data_ok vm' P'"
    by (rule data_ok_sub[OF D(6) dp]) (auto simp: U(3) split: if_splits)
  note L = live_put[OF live U(2) data]
  have run: "unmap_user_page e s (space_pgdir s sp) va (space_asid_of s sp) = (0, put_vm s' sp vm')"
    using D U(1) page_and(1)[OF va] by (simp add: unmap_user_page_def)
  have mem: "\<forall>p \<in> data_pages vm P. \<forall>x. in_page p x \<longrightarrow> pmem (phys (put_vm s' sp vm')) x = pmem (phys s) x"
    using U(2) by (simp add: vm_step_def data_pages_def put_vm_def)
  show ?thesis using that[OF run L dp mem U(3)] .
qed

lemma live_alloc:
  assumes live: "live_space e s sp vm P R"
  obtains (none) "allocate_page e (phys s) = (phys s, 0)"
  | (some) p ph where "allocate_page e (phys s) = (ph, p)" "p \<noteq> 0" "p \<notin> P" "p \<notin> mapped vm" "live_space e (s\<lparr>phys := ph\<rparr>) sp vm (insert p P) R"
      "p \<in> data_pages vm (insert p P)" "\<And>q x. q \<in> P \<Longrightarrow> in_page q x \<Longrightarrow> \<not> in_page p x \<and> pmem ph x = pmem (phys s) x"
      "cleared e (pmem ph) p"
proof -
  note D = live_spaceD[OF live] and I = vm_invD[OF live_spaceD(5)[OF live]]
  show ?thesis
  using I(3) proof (cases rule: allocate_page_cases)
    case none
    then show ?thesis by (rule that(1))
  next
    case (some p ph)
    have mem: "\<not> in_page p x \<and> pmem ph x = pmem (phys s) x" if "q \<in> P" "in_page q x" for q x
      using fresh_outside[OF some(2,3) that] some(5) by blast
    have "live_space e (s\<lparr>phys := ph\<rparr>) sp vm (insert p P) R"
      using I(4) mem by (intro live_phys[OF live some(2), where X = "{}"]) (auto simp: data_pages_def)
    moreover have "p \<notin> mapped vm" using mapped_data[OF D(6)] some(3) by (auto simp: data_pages_def)
    ultimately show ?thesis using some I(4) mem by (intro that(2)) (auto simp: data_pages_def)
  qed
qed

text \<open>Dropping a reference to a page that the space does not map.\<close>

lemma live_free:
  assumes live: "live_space e s sp vm P R" and p: "p \<in> data_pages vm P" "p \<notin> mapped vm"
  obtains P' where "live_space e (free_page_at e s p) sp vm P' R" "data_pages vm P - {p} \<subseteq> data_pages vm P'"
    "pmem (phys (free_page_at e s p)) = pmem (phys s)"
proof -
  note I = vm_invD[OF live_spaceD(5)[OF live]]
  have pP: "p \<in> P" "p \<notin> set (tables_of vm)" using p(1) by (auto simp: data_pages_def)
  note F = free_page_cases[OF I(3) pP(1)]
  obtain P' where P': "owns e (free_page e (phys s) p) P'" "P - {p} \<subseteq> P'" using F(1) by auto
  have "live_space e (s\<lparr>phys := free_page e (phys s) p\<rparr>) sp vm P' R"
    using I(4) P'(2) pP p(2) F(2) by (intro live_phys[OF live P'(1), where X = "{p}"]) (auto simp: data_pages_def)
  then show ?thesis using P'(2) F(2) by (intro that[of P']) (auto simp: free_page_at_def data_pages_def)
qed

subsection \<open>Demand faults\<close>

text \<open>No allocated page is lost and none changes its contents.\<close>

definition grows :: "platform \<Rightarrow> block set \<Rightarrow> u64 \<Rightarrow> machine \<times> arm64_user_vm \<times> u64 set \<Rightarrow> machine \<times> arm64_user_vm \<times> u64 set \<Rightarrow> bool" where
  "grows e R sp = (\<lambda>(s, vm, P) (s', vm', P'). live_space e s' sp vm' P' R \<and> frame s s' \<and> data_pages vm P \<subseteq> data_pages vm' P' \<and>
     (\<forall>p \<in> data_pages vm P. \<forall>x. in_page p x \<longrightarrow> pmem (phys s') x = pmem (phys s) x))"

definition faulted :: "platform \<Rightarrow> arm64_user_vm \<Rightarrow> u64 set \<Rightarrow> u64 \<Rightarrow> int \<Rightarrow> machine \<Rightarrow> arm64_user_vm \<Rightarrow> bool" where
  "faulted e vm P va r s' vm' \<longleftrightarrow> (r = 0 \<longrightarrow> lookup_map vm' va \<noteq> None) \<and>
     (lookup_map vm' = lookup_map vm \<or>
      r = 0 \<and> lookup_map vm va = None \<and> (\<exists>mp. physical_address mp \<notin> data_pages vm P \<and> lookup_map vm' = (lookup_map vm)(va \<mapsto> mp) \<and>
        cleared e (pmem (phys s')) (physical_address mp)))"

lemma fault_in_ok:
  assumes live: "live_space e s sp vm P R" and va: "page va"
  obtains r s' vm' P' where "fault_in e s sp v va = Some (r, s')" "grows e R sp (s, vm, P) (s', vm', P')" "faulted e vm P va r s' vm'"
proof (cases "lookup_map vm va")
  case (Some mp)
  have "physical_address mp \<noteq> 0"
    using Some live_spaceD(6)[OF live] physical_page(2)[OF live] by (auto simp: data_ok_def)
  then have "fault_in e s sp v va = Some (0, s)" using user_page_live(1)[OF live va] Some by (simp add: fault_in_def)
  then show ?thesis using that[of 0 s vm P] live Some by (simp add: grows_def faulted_def)
next
  case None
  have absent: "get_physical_address s (space_pgdir s sp) va = 0" using user_page_live(1)[OF live va] None by simp
  show ?thesis
  using live proof (cases rule: live_alloc)
    case none
    then have "fault_in e s sp v va = Some (neg ENOMEM, s)" using absent by (simp add: fault_in_def)
    then show ?thesis using that[of "neg ENOMEM" s vm P] live by (simp add: grows_def faulted_def neg_def)
  next
    case (some p ph)
    let ?s1 = "s\<lparr>phys := ph\<rparr>"
    obtain r s2 vm2 P2 where M: "map_user_page e sp ?s1 (space_pgdir ?s1 sp) va p (vma_flags v) (space_asid_of ?s1 sp) = Some (r, s2)"
      "live_space e s2 sp vm2 P2 R" "frame ?s1 s2" "data_pages vm2 P2 = data_pages vm (insert p P)"
      "\<forall>q \<in> data_pages vm (insert p P). \<forall>x. in_page q x \<longrightarrow> pmem (phys s2) x = pmem (phys ?s1) x"
      "r = 0 \<and> lookup_map vm va = None \<and> lookup_map vm2 = (lookup_map vm)(va \<mapsto> \<lparr>virtual_address = va, physical_address = p, mflags = vma_flags v AND NOT VMA_LAZY\<rparr>) \<or>
       r < 0 \<and> lookup_map vm2 = lookup_map vm"
      by (rule live_map[OF some(5,6,4) va])
    have fr: "frame s s2" using frame_trans[OF frame_upd(1) M(3)] .
    have mem: "pmem (phys s2) x = pmem (phys s) x" if "q \<in> data_pages vm P" "in_page q x" for q x
      using M(5)[rule_format, of q x] some(7)[of q x] that by (simp add: data_pages_def)
    have sub: "data_pages vm P \<subseteq> data_pages vm2 P2" using M(4) by (auto simp: data_pages_def)
    show ?thesis
    proof (cases "r < 0")
      case False
      then have "fault_in e s sp v va = Some (0, s2)" using absent some(1,2) M(1) by (simp add: fault_in_def)
      moreover have "cleared e (pmem (phys s2)) p" using M(5)[rule_format, OF some(6)] some(8) by (simp add: cleared_def)
      then have "faulted e vm P va 0 s2 vm2" unfolding faulted_def using M(6) False some(3)
        by (intro conjI disjI2 exI[of _ "\<lparr>virtual_address = va, physical_address = p, mflags = vma_flags v AND NOT VMA_LAZY\<rparr>"]) (auto simp: data_pages_def)
      ultimately show ?thesis using M(2) fr mem sub by (intro that[of 0 s2 vm2 P2]) (simp_all add: grows_def)
    next
      case True
      then have look: "lookup_map vm2 = lookup_map vm" using M(6) by auto
      then have "p \<notin> mapped vm2" using some(4) by (simp add: mapped_def)
      then obtain P3 where F: "live_space e (free_page_at e s2 p) sp vm2 P3 R" "data_pages vm2 P2 - {p} \<subseteq> data_pages vm2 P3"
        "pmem (phys (free_page_at e s2 p)) = pmem (phys s2)"
        using live_free[OF M(2), of p] M(4) some(6) by metis
      have "fault_in e s sp v va = Some (neg ENOMEM, free_page_at e s2 p)" using absent some(1,2) M(1) True by (simp add: fault_in_def)
      moreover have "data_pages vm P \<subseteq> data_pages vm2 P3" using sub F(2) some(3) by (auto simp: data_pages_def)
      ultimately show ?thesis using F(1,3) mem frame_trans[OF fr frame_upd(4)] look
        by (intro that[of "neg ENOMEM" "free_page_at e s2 p" vm2 P3]) (auto simp: grows_def faulted_def neg_def)
    qed
  qed
qed

lemma grows_refl: "live_space e s sp vm P R \<Longrightarrow> grows e R sp (s, vm, P) (s, vm, P)"
  by (simp add: grows_def)

lemma faulted_refused: "r \<noteq> 0 \<Longrightarrow> faulted e vm P va r s vm"
  by (simp add: faulted_def)

lemma lazy_fault_ok:
  assumes live: "live_space e s sp vm P R"
  obtains r s' vm' P' where "handle_lazy_anon_fault e s sp address write = Some (r, s')" "grows e R sp (s, vm, P) (s', vm', P')"
    "faulted e vm P (address AND PAGE_MASK) r s' vm'"
proof (cases "\<exists>v. find_vma s sp address = Some v \<and> has_flag v VMA_LAZY \<and> \<not> (write \<and> \<not> has_flag v VMA_WRITE \<or> \<not> write \<and> \<not> has_flag v VMA_READ)")
  case True
  then obtain v where "handle_lazy_anon_fault e s sp address write = fault_in e s sp v (address AND PAGE_MASK)"
    using live_spaceD(1)[OF live] by (auto simp: handle_lazy_anon_fault_def)
  then show ?thesis using fault_in_ok[OF live page_masked[of address], where v = v] that by metis
next
  case False
  then have "\<exists>r. handle_lazy_anon_fault e s sp address write = Some (r, s) \<and> r \<noteq> 0"
    using live_spaceD(1)[OF live] by (auto simp: handle_lazy_anon_fault_def neg_def split: option.splits)
  then obtain r where "handle_lazy_anon_fault e s sp address write = Some (r, s)" "r \<noteq> 0" by blast
  then show ?thesis using that[of r s vm P] grows_refl[OF live] faulted_refused by blast
qed

lemma stack_fault_ok:
  assumes live: "live_space e s sp vm P R"
  obtains r s' vm' P' where "handle_user_stack_fault e s sp address = Some (r, s')" "grows e R sp (s, vm, P) (s', vm', P')"
    "faulted e vm P (address AND PAGE_MASK) r s' vm'"
proof (cases "\<exists>v. find_vma s sp address = Some v \<and> has_flag v VMA_WRITE \<and> \<not> (address < USER_STACK_BOTTOM + PAGE_SIZE \<or> USER_STACK_TOP \<le> address)")
  case True
  then obtain v where "handle_user_stack_fault e s sp address = fault_in e s sp v (address AND PAGE_MASK)"
    using live_spaceD(1)[OF live] by (auto simp: handle_user_stack_fault_def)
  then show ?thesis using fault_in_ok[OF live page_masked[of address], where v = v] that by metis
next
  case False
  then have "\<exists>r. handle_user_stack_fault e s sp address = Some (r, s) \<and> r \<noteq> 0"
    using live_spaceD(1)[OF live] by (auto simp: handle_user_stack_fault_def neg_def split: option.splits)
  then obtain r where "handle_user_stack_fault e s sp address = Some (r, s)" "r \<noteq> 0" by blast
  then show ?thesis using that[of r s vm P] grows_refl[OF live] faulted_refused by blast
qed

subsection \<open>Copy-on-write faults\<close>

lemma live_store:
  assumes live: "live_space e s sp vm P R" and mem: "\<And>t x. t \<in> set (tables_of vm) \<Longrightarrow> in_page t x \<Longrightarrow> m x = pmem (phys s) x"
  shows "live_space e (set_pmem s m) sp vm P R"
proof -
  note I = vm_invD[OF live_spaceD(5)[OF live]]
  show ?thesis unfolding set_pmem_def
    using I(3,4) mem by (intro live_phys[OF live, where X = "{}"]) (auto simp: data_pages_def)
qed

lemma page_copy:
  assumes "page a" "page b" "a \<noteq> b"
  shows "memcpy m a b 4096 = (\<lambda>x. if in_page a x then m (b + (x - a)) else m x)"
proof -
  have "in_page a a" by (simp add: in_page_def)
  then have "\<not> in_page b a" using pages_apart[of b a a] assms by auto
  then have "fwd_ok a b 4096" by (simp add: fwd_ok_def in_page_def)
  then show ?thesis by (simp add: memcpy_range copy_range_def in_page_def)
qed

lemma live_writable:
  assumes live: "live_space e s sp vm P R" and mp: "lookup_map vm va = Some mp" and va: "page va"
  obtains r s' vm' where "set_user_page_writable s (space_pgdir s sp) va (space_asid_of s sp) = (r, s')"
    "live_space e s' sp vm' P R" "frame s s'" "data_pages vm' P = data_pages vm P"
    "\<forall>p \<in> data_pages vm P. \<forall>x. in_page p x \<longrightarrow> pmem (phys s') x = pmem (phys s) x"
    "r = 0 \<and> lookup_map vm' = (lookup_map vm)(va \<mapsto> mp\<lparr>mflags := (mflags mp OR VMA_READ OR VMA_WRITE) AND NOT VMA_LAZY\<rparr>) \<or>
     r < 0 \<and> lookup_map vm' = lookup_map vm"
proof -
  note D = live_spaceD[OF live] and I = vm_invD[OF live_spaceD(5)[OF live]]
  let ?f = "mflags mp OR VMA_READ OR VMA_WRITE"
  have vm: "va AND PAGE_MASK = va" by (rule page_and(1)[OF va])
  have look: "arm64_user_vm_lookup vm va = (0, physical_address mp, mflags mp)"
    using I(2) by (cases rule: mapping_index_cases[of vm va])
      (use mp vm_inv_valid[OF D(5)] vm in \<open>auto simp: arm64_user_vm_lookup_def Let_def\<close>)
  obtain r vm' s' where W: "arm64_user_vm_protect_page vm s va ?f = (r, vm', s')" by (metis prod_cases3)
  have run: "set_user_page_writable s (space_pgdir s sp) va (space_asid_of s sp) = (r, put_vm s' sp vm')"
    using D W by (simp add: set_user_page_writable_def protect_user_page_def vm look)
  have st: "vm_step e R (s, vm, P) (s', vm', P) \<and>
      (r = 0 \<and> lookup_map vm' = (lookup_map vm)(va \<mapsto> mp\<lparr>mflags := ?f AND NOT VMA_LAZY\<rparr>) \<or> r < 0 \<and> lookup_map vm' = lookup_map vm)"
  proof (cases "arm64_user_vm_flags_valid (?f AND NOT VMA_LAZY)")
    case True
    have mp': "lookup_map vm (va AND PAGE_MASK) = Some mp" using mp vm by simp
    show ?thesis by (rule protect_step[OF D(5) mp' True]) (use W vm in simp)
  next
    case False
    then show ?thesis using protect_refused[OF D(5), of va ?f] W vm_step_refl[OF D(5)] by auto
  qed
  then have dp: "data_pages vm' P = data_pages vm P" by (simp add: vm_step_def data_pages_def)
  have data: "data_ok vm' P" using st mp by (intro data_ok_sub[OF D(6) dp]) (auto split: if_splits)
  note L = live_put[OF live conjunct1[OF st] data]
  have mem: "\<forall>p \<in> data_pages vm P. \<forall>x. in_page p x \<longrightarrow> pmem (phys (put_vm s' sp vm')) x = pmem (phys s) x"
    using st by (simp add: vm_step_def data_pages_def put_vm_def)
  show ?thesis using that[OF run L dp mem] st by blast
qed

lemma live_remap:
  assumes live: "live_space e s sp vm P R" and mp: "lookup_map vm va = Some mp" and va: "page va"
    and p: "p \<in> data_pages vm P" "p \<notin> mapped vm"
  obtains r s' vm' P' where "remap_user_page e sp s (space_pgdir s sp) va p flags (space_asid_of s sp) = Some (r, s')"
    "live_space e s' sp vm' P' R" "frame s s'" "data_pages vm' P' = data_pages vm P"
    "\<forall>q \<in> data_pages vm P. \<forall>x. in_page q x \<longrightarrow> pmem (phys s') x = pmem (phys s) x"
    "r = 0 \<and> lookup_map vm' = (lookup_map vm)(va \<mapsto> \<lparr>virtual_address = va, physical_address = p, mflags = flags AND NOT VMA_LAZY\<rparr>) \<or>
     r < 0 \<and> lookup_map vm' = (lookup_map vm)(va := None)"
proof -
  obtain s1 vm1 P1 where U: "unmap_user_page e s (space_pgdir s sp) va (space_asid_of s sp) = (0, s1)"
    "live_space e s1 sp vm1 P1 R" "frame s s1" "data_pages vm1 P1 = data_pages vm P"
    "\<forall>p \<in> data_pages vm P. \<forall>x. in_page p x \<longrightarrow> pmem (phys s1) x = pmem (phys s) x" "lookup_map vm1 = (lookup_map vm)(va := None)"
    by (rule live_unmap[OF live mp va])
  have p1: "p \<in> data_pages vm1 P1" "p \<notin> mapped vm1" using p U(4,6) by (auto simp: mapped_def split: if_splits)
  obtain r s' vm' P' where M: "map_user_page e sp s1 (space_pgdir s1 sp) va p flags (space_asid_of s1 sp) = Some (r, s')"
    "live_space e s' sp vm' P' R" "frame s1 s'" "data_pages vm' P' = data_pages vm1 P1"
    "\<forall>p \<in> data_pages vm1 P1. \<forall>x. in_page p x \<longrightarrow> pmem (phys s') x = pmem (phys s1) x"
    "r = 0 \<and> lookup_map vm1 va = None \<and> lookup_map vm' = (lookup_map vm1)(va \<mapsto> \<lparr>virtual_address = va, physical_address = p, mflags = flags AND NOT VMA_LAZY\<rparr>) \<or>
     r < 0 \<and> lookup_map vm' = lookup_map vm1"
    by (rule live_map[OF U(2) p1 va])
  have "remap_user_page e sp s (space_pgdir s sp) va p flags (space_asid_of s sp) = Some (r, s')"
    using M(1) U(1) frame_space[OF U(3), of sp] by (simp add: remap_user_page_def)
  then show ?thesis using that M(2,4,5,6) U(4,5,6) frame_trans[OF U(3) M(3)] by simp
qed

definition private_copy :: "machine \<Rightarrow> arm64_user_vm \<Rightarrow> u64 set \<Rightarrow> u64 \<Rightarrow> machine \<Rightarrow> arm64_user_vm \<Rightarrow> bool" where
  "private_copy s vm P va s' vm' \<longleftrightarrow> (\<exists>mp mq. lookup_map vm va = Some mp \<and> lookup_map vm' = (lookup_map vm)(va \<mapsto> mq) \<and>
     mflags mq AND VMA_WRITE \<noteq> 0 \<and>
     (physical_address mq = physical_address mp \<or>
      physical_address mq \<notin> data_pages vm P \<and>
      (\<forall>k. unat k < 4096 \<longrightarrow> pmem (phys s') (physical_address mq + k) = pmem (phys s) (physical_address mp + k))))"

definition cow_done :: "machine \<Rightarrow> arm64_user_vm \<Rightarrow> u64 set \<Rightarrow> u64 \<Rightarrow> int \<Rightarrow> machine \<Rightarrow> arm64_user_vm \<Rightarrow> bool" where
  "cow_done s vm P va r s' vm' \<longleftrightarrow> r = 0 \<and> private_copy s vm P va s' vm' \<or>
     r \<noteq> 0 \<and> (lookup_map vm' = lookup_map vm \<or> lookup_map vm' = (lookup_map vm)(va := None))"

definition keeps :: "platform \<Rightarrow> block set \<Rightarrow> u64 \<Rightarrow> u64 set \<Rightarrow> machine \<times> arm64_user_vm \<times> u64 set \<Rightarrow> machine \<times> arm64_user_vm \<times> u64 set \<Rightarrow> bool" where
  "keeps e R sp X = (\<lambda>(s, vm, P) (s', vm', P'). live_space e s' sp vm' P' R \<and> frame s s' \<and> data_pages vm P - X \<subseteq> data_pages vm' P' \<and>
     (\<forall>p \<in> data_pages vm P. \<forall>x. in_page p x \<longrightarrow> pmem (phys s') x = pmem (phys s) x))"

lemma keeps_refl: "live_space e s sp vm P R \<Longrightarrow> keeps e R sp X (s, vm, P) (s, vm, P)"
  by (auto simp: keeps_def)

definition page_at :: "arm64_user_vm \<Rightarrow> u64 \<Rightarrow> u64 set" where
  "page_at vm va = physical_address ` set_option (lookup_map vm va)"

lemma page_offset: "unat (k :: u64) < 4096 \<Longrightarrow> in_page p (p + k)"
  by (simp add: in_page_def)

lemma writable_lazy: "(vma_flags v AND NOT VMA_LAZY) AND VMA_WRITE \<noteq> 0 \<longleftrightarrow> has_flag v VMA_WRITE"
proof -
  have "NOT VMA_LAZY AND VMA_WRITE = VMA_WRITE" by (simp add: VMA_LAZY_def VMA_WRITE_def)
  then show ?thesis by (simp add: has_flag_def and.assoc)
qed

lemma writable_or: "(((f :: u32) OR VMA_READ OR VMA_WRITE) AND NOT VMA_LAZY) AND VMA_WRITE \<noteq> 0"
proof -
  have "bit (((f OR VMA_READ OR VMA_WRITE) AND NOT VMA_LAZY) AND VMA_WRITE) 1"
    by (simp add: bit_simps VMA_READ_def VMA_WRITE_def VMA_LAZY_def)
  then show ?thesis by auto
qed

lemma private_copyI:
  "lookup_map vm va = Some mp \<Longrightarrow> lookup_map vm' = (lookup_map vm)(va \<mapsto> mq) \<Longrightarrow> mflags mq AND VMA_WRITE \<noteq> 0 \<Longrightarrow>
   physical_address mq = physical_address mp \<Longrightarrow> private_copy s vm P va s' vm'"
  by (auto simp: private_copy_def)

lemma cow_copy_ok:
  fixes v :: vma
  assumes live: "live_space e s sp vm P R" and mp: "lookup_map vm va = Some mp" and va: "page va"
    and al: "allocate_page e (phys s) = (ph, p)" "p \<noteq> 0" and fl: "has_flag v VMA_WRITE"
  defines "s2 \<equiv> set_pmem (s\<lparr>phys := ph\<rparr>) (memcpy (pmem ph) p (physical_address mp) 4096)"
  obtains r s' vm' P' where "remap_user_page e sp s2 (space_pgdir s2 sp) va p (vma_flags v) (space_asid_of s2 sp) = Some (r, s')"
    "r \<noteq> 0 \<longleftrightarrow> r < 0"
    "keeps e R sp (page_at vm va) (s, vm, P) (free_page_at e s' (if r < 0 then p else physical_address mp), vm', P')"
    "cow_done s vm P va r (free_page_at e s' (if r < 0 then p else physical_address mp)) vm'"
using live proof (cases rule: live_alloc)
  case none
  then show ?thesis using al by simp
next
  case (some p' ph')
  note D = live_spaceD[OF live] and I = vm_invD[OF live_spaceD(5)[OF live]]
  have [simp]: "p' = p" "ph' = ph" using some(1) al by simp_all
  let ?old = "physical_address mp" and ?new = "\<lparr>virtual_address = va, physical_address = p, mflags = vma_flags v AND NOT VMA_LAZY\<rparr>"
  have old: "?old \<in> data_pages vm P" using D(6) mp by (auto simp: data_ok_def)
  then have oldP: "?old \<in> P" "?old \<noteq> p" using some(3) by (auto simp: data_pages_def)
  have pp: "page p" "page ?old" using physical_page(1)[OF some(5,6)] physical_page(1)[OF live old] by simp_all
  have copy: "memcpy (pmem ph) p ?old 4096 = (\<lambda>x. if in_page p x then pmem ph (?old + (x - p)) else pmem ph x)"
    using pp oldP(2) by (intro page_copy) auto
  have same: "pmem (phys s2) x = pmem (phys s) x" if "q \<in> P" "in_page q x" for q x
    using some(7)[OF that] by (simp add: s2_def copy set_pmem_def)
  have live2: "live_space e s2 sp vm (insert p P) R"
    unfolding s2_def using some(5,7) I(4) by (intro live_store) (auto simp: copy)
  have fresh: "p \<in> data_pages vm (insert p P)" "p \<notin> mapped vm" using some(4,6) by simp_all
  obtain r s' vm' P' where M: "remap_user_page e sp s2 (space_pgdir s2 sp) va p (vma_flags v) (space_asid_of s2 sp) = Some (r, s')"
    "live_space e s' sp vm' P' R" "frame s2 s'" "data_pages vm' P' = data_pages vm (insert p P)"
    "\<forall>q \<in> data_pages vm (insert p P). \<forall>x. in_page q x \<longrightarrow> pmem (phys s') x = pmem (phys s2) x"
    "r = 0 \<and> lookup_map vm' = (lookup_map vm)(va \<mapsto> ?new) \<or> r < 0 \<and> lookup_map vm' = (lookup_map vm)(va := None)"
    by (rule live_remap[OF live2 mp va fresh])
  define d where "d = (if r < 0 then p else ?old)"
  have fr: "frame s (free_page_at e s' d)"
    using frame_trans[OF frame_trans[OF frame_upd(1) frame_upd(3)] frame_trans[OF M(3)[unfolded s2_def] frame_upd(4)]] .
  have other: "lookup_map vm vb \<noteq> Some mq" if "vb \<noteq> va" "physical_address mq = ?old" for vb mq
    using D(6) mp that unfolding data_ok_def by blast
  have d1: "d \<in> data_pages vm' P'" using M(4) some(6) old by (auto simp: d_def data_pages_def)
  have d2: "d \<notin> mapped vm'" using M(6) some(4) other oldP(2) unfolding mapped_def by (auto simp: d_def split: if_splits)
  obtain P3 where F: "live_space e (free_page_at e s' d) sp vm' P3 R" "data_pages vm' P' - {d} \<subseteq> data_pages vm' P3"
    "pmem (phys (free_page_at e s' d)) = pmem (phys s')"
    by (rule live_free[OF M(2) d1 d2])
  have mem: "pmem (phys (free_page_at e s' d)) x = pmem (phys s) x" if "q \<in> data_pages vm P" "in_page q x" for q x
    unfolding F(3) using M(5)[rule_format, of q x] same[of q x] that by (simp add: data_pages_def)
  have keep: "keeps e R sp (page_at vm va) (s, vm, P) (free_page_at e s' d, vm', P3)"
    using F(1,2) fr mem M(4) some(3) mp by (auto simp: keeps_def data_pages_def page_at_def d_def split: if_splits)
  have new: "pmem (phys (free_page_at e s' d)) (p + k) = pmem (phys s) (?old + k)" if "unat k < 4096" for k
    unfolding F(3) using M(5)[rule_format, of p "p + k"] some(6) some(7)[OF oldP(1) page_offset[OF that]] page_offset[OF that, of p]
    by (simp add: s2_def set_pmem_def copy)
  have "cow_done s vm P va r (free_page_at e s' d) vm'"
    using M(6) mp new some(3) writable_lazy[of v] fl by (auto simp: cow_done_def private_copy_def data_pages_def)
  then show ?thesis using that[OF M(1) _ keep[unfolded d_def]] M(6) by (auto simp: d_def)
qed

lemma cow_fault_ok:
  fixes address :: u64
  assumes live: "live_space e s sp vm P R"
  defines "va \<equiv> address AND PAGE_MASK"
  shows "\<exists>r s' vm' P'. handle_cow_fault e s sp address = Some (r, s') \<and> keeps e R sp (page_at vm va) (s, vm, P) (s', vm', P') \<and>
    cow_done s vm P va r s' vm'"
proof -
  note D = live_spaceD[OF live]
  have va: "page va" unfolding va_def by (rule page_masked)
  have refused: ?thesis if "handle_cow_fault e s sp address = Some (r, s)" "r \<noteq> 0" for r
    using that keeps_refl[OF live] by (auto simp: cow_done_def)
  show ?thesis
  proof (cases "\<exists>v. find_vma s sp address = Some v \<and> has_flag v VMA_WRITE \<and> \<not> has_flag v VMA_SHARED")
    case False
    then show ?thesis using D(1) by (intro refused) (auto simp: handle_cow_fault_def neg_def split: option.splits)
  next
    case True
    then obtain v where v: "find_vma s sp address = Some v" "has_flag v VMA_WRITE" "\<not> has_flag v VMA_SHARED" by blast
    define old where "old = get_physical_address s (space_pgdir s sp) va AND PAGE_MASK"
    have old: "old = (case lookup_map vm va of None \<Rightarrow> 0 | Some mp \<Rightarrow> physical_address mp)"
      unfolding old_def by (rule user_page_live(2)[OF live va])
    note unf = handle_cow_fault_def D(1) v Let_def va_def[symmetric] old_def[symmetric]
    show ?thesis
    proof (cases "old = 0 \<or> page_ref_count e (phys s) old = 0")
      case True
      then show ?thesis by (intro refused[of "neg EFAULT"]) (auto simp: unf neg_def)
    next
      case False
      then obtain mp where mp: "lookup_map vm va = Some mp" "old = physical_address mp" using old by (auto split: option.splits)
      note unf = unf if_not_P[OF False[unfolded de_Morgan_disj, THEN conjunct1]] if_not_P[OF False[unfolded de_Morgan_disj, THEN conjunct2]]
      show ?thesis
      proof (cases "page_ref_count e (phys s) old = 1")
        case True
        then have run: "handle_cow_fault e s sp address = Some (set_user_page_writable s (space_pgdir s sp) va (space_asid_of s sp))"
          by (simp add: unf)
        obtain r s' vm' where W: "set_user_page_writable s (space_pgdir s sp) va (space_asid_of s sp) = (r, s')"
          "live_space e s' sp vm' P R" "frame s s'" "data_pages vm' P = data_pages vm P"
          "\<forall>p \<in> data_pages vm P. \<forall>x. in_page p x \<longrightarrow> pmem (phys s') x = pmem (phys s) x"
          "r = 0 \<and> lookup_map vm' = (lookup_map vm)(va \<mapsto> mp\<lparr>mflags := (mflags mp OR VMA_READ OR VMA_WRITE) AND NOT VMA_LAZY\<rparr>) \<or>
           r < 0 \<and> lookup_map vm' = lookup_map vm"
          by (rule live_writable[OF live mp(1) va])
        then have "keeps e R sp (page_at vm va) (s, vm, P) (s', vm', P)" by (auto simp: keeps_def)
        moreover have "cow_done s vm P va r s' vm'"
          using W(6) private_copyI[OF mp(1), where mq = "mp\<lparr>mflags := (mflags mp OR VMA_READ OR VMA_WRITE) AND NOT VMA_LAZY\<rparr>"] writable_or[of "mflags mp"]
          by (auto simp: cow_done_def)
        ultimately show ?thesis using run W(1) by auto
      next
        case many: False
        obtain ph p where al: "allocate_page e (phys s) = (ph, p)" by fastforce
        show ?thesis
        proof (cases "p = 0")
          case True
          have "ph = phys s" using live by (cases rule: live_alloc) (use al True in auto)
          then show ?thesis using False many al True by (intro refused[of "neg ENOMEM"]) (auto simp: unf neg_def)
        next
          case fresh: False
          let ?s2 = "set_pmem (s\<lparr>phys := ph\<rparr>) (memcpy (pmem ph) p (physical_address mp) 4096)"
          obtain r s' vm' P' where C: "remap_user_page e sp ?s2 (space_pgdir ?s2 sp) va p (vma_flags v) (space_asid_of ?s2 sp) = Some (r, s')"
            "r \<noteq> 0 \<longleftrightarrow> r < 0"
            "keeps e R sp (page_at vm va) (s, vm, P) (free_page_at e s' (if r < 0 then p else physical_address mp), vm', P')"
            "cow_done s vm P va r (free_page_at e s' (if r < 0 then p else physical_address mp)) vm'"
            by (rule cow_copy_ok[OF live mp(1) va al fresh v(2)])
          then have "handle_cow_fault e s sp address = Some (r, free_page_at e s' (if r < 0 then p else physical_address mp))"
            using False many al fresh mp(2) by (auto simp: unf)
          then show ?thesis using C(3,4) by blast
        qed
      qed
    qed
  qed
qed

text \<open>What the process reads at a user address.\<close>

definition user_byte :: "machine \<Rightarrow> arm64_user_vm \<Rightarrow> u64 \<Rightarrow> u8 option" where
  "user_byte s vm a = map_option (\<lambda>mp. pmem (phys s) (physical_address mp + (a AND PAGE_OFFSET_MASK))) (lookup_map vm (a AND PAGE_MASK))"

lemma offset_lt: "unat (a AND PAGE_OFFSET_MASK) < 4096"
proof -
  have "a AND PAGE_OFFSET_MASK \<le> 0xFFF" unfolding PAGE_OFFSET_MASK_def by (rule word_and_le1)
  then show ?thesis by (simp add: word_le_nat_alt)
qed

lemma user_byte_same:
  assumes "data_ok vm P" "\<forall>p \<in> data_pages vm P. \<forall>x. in_page p x \<longrightarrow> pmem (phys s') x = pmem (phys s) x"
    "lookup_map vm' (a AND PAGE_MASK) = lookup_map vm (a AND PAGE_MASK)"
  shows "user_byte s' vm' a = user_byte s vm a"
  using assms page_offset[OF offset_lt[of a]]
  by (cases "lookup_map vm (a AND PAGE_MASK)") (auto simp: user_byte_def data_ok_def)

lemma private_copy_reads:
  assumes live: "live_space e s sp vm P R" and k: "keeps e R sp X (s, vm, P) (s', vm', P')" and c: "private_copy s vm P va s' vm'"
  shows "user_byte s' vm' = user_byte s vm"
proof
  fix a
  obtain mp mq where mp: "lookup_map vm va = Some mp" "lookup_map vm' = (lookup_map vm)(va \<mapsto> mq)"
    "physical_address mq = physical_address mp \<or>
     (\<forall>k. unat k < 4096 \<longrightarrow> pmem (phys s') (physical_address mq + k) = pmem (phys s) (physical_address mp + k))"
    using c by (auto simp: private_copy_def)
  note D = live_spaceD(6)[OF live]
  have mem: "\<forall>p \<in> data_pages vm P. \<forall>x. in_page p x \<longrightarrow> pmem (phys s') x = pmem (phys s) x" using k by (simp add: keeps_def)
  show "user_byte s' vm' a = user_byte s vm a"
  proof (cases "a AND PAGE_MASK = va")
    case False
    then show ?thesis using user_byte_same[OF D mem] mp(2) by simp
  next
    case True
    have "physical_address mp \<in> data_pages vm P" using D mp(1) by (auto simp: data_ok_def)
    then have "pmem (phys s') (physical_address mp + (a AND PAGE_OFFSET_MASK)) = pmem (phys s) (physical_address mp + (a AND PAGE_OFFSET_MASK))"
      using mem page_offset[OF offset_lt] by blast
    then show ?thesis using mp True offset_lt[of a] by (auto simp: user_byte_def)
  qed
qed

subsection \<open>A running space\<close>

definition demo_run_vm :: arm64_user_vm where
  "demo_run_vm = demo_vm\<lparr>space := (space demo_vm)\<lparr>vma_list :=
     [\<lparr>vma_start = 0x400000, vma_end = 0x404000, vma_flags = 35, shm_id = 0, release_fn = 0, release_cookie = 0, vma_ptr = 0x2000\<rparr>]\<rparr>\<rparr>"

definition demo_run :: "kheap \<Rightarrow> machine" where
  "demo_run h = put_vm ((demo_machine h)\<lparr>vm_registry := [0x7000]\<rparr>) 0x7000 demo_run_vm"

lemma demo_run_live: "\<exists>h. live_space demo_platform (demo_run h) 0x7000 demo_run_vm {0x3000, 0x4000, 0x5000} {}"
proof -
  obtain h where "vm_inv demo_platform (demo_machine h) demo_vm {0x3000, 0x4000, 0x5000} {}" by (rule demo_space)
  then have "vm_inv demo_platform (demo_run h) demo_run_vm {0x3000, 0x4000, 0x5000} {}"
    by (simp add: vm_inv_def demo_run_def demo_run_vm_def put_vm_def vm_ok_def records_ok_def tables_ok_def heap_ok_def vm_blocks_def
        ptrs_ok_def ident_ok_def counts_ok_def coherent_def tables_of_def)
  moreover have "data_ok demo_run_vm {0x3000, 0x4000, 0x5000}"
    by (simp add: data_ok_def lookup_map_def demo_run_vm_def demo_vm_def empty_vm_def)
  ultimately have "live_space demo_platform (demo_run h) 0x7000 demo_run_vm {0x3000, 0x4000, 0x5000} {}"
    by (simp add: live_space_def demo_run_def put_vm_def backend_for_pgdir_def demo_run_vm_def demo_vm_def empty_vm_def)
  then show ?thesis ..
qed

subsection \<open>Properties\<close>





end
