(* ===== verification/UserCopy.thy ===== *)
theory UserCopy
  imports VmArea
begin

text \<open>
  Copies between the kernel and the memory of the running process (\<open>kernel/memory/usercopy.c\<close>). User bytes are
  reached page by page through the direct map, so a user page is its bytes of \<open>pmem\<close>. The kernel buffer is a
  list of bytes: the source of a copy to the user, and what a copy from the user has written. A copy loop that
  never ends would be \<open>None\<close>. The fault counters of the running task are in \<open>task_faults\<close>.
\<close>

record task_faults =
  page_faults :: u32
  cow_faults :: u32
  stack_faults :: u32
  lazy_faults :: u32

text \<open>\<open>memcpy\<close> between a kernel buffer and physical memory.\<close>

definition load_bytes :: "bmem \<Rightarrow> u64 \<Rightarrow> nat \<Rightarrow> u8 list" where
  "load_bytes m a n = map (\<lambda>k. m (a + of_nat k)) [0..<n]"

fun store_bytes :: "bmem \<Rightarrow> u64 \<Rightarrow> u8 list \<Rightarrow> bmem" where
  "store_bytes m a [] = m"
| "store_bytes m a (b # bs) = store_bytes (m(a := b)) (a + 1) bs"

definition note_resolved_fault :: "task_faults \<Rightarrow> bool \<Rightarrow> task_faults" where
  "note_resolved_fault t lazy =
     (let t1 = t\<lparr>page_faults := page_faults t + 1\<rparr> in
      if lazy then t1\<lparr>lazy_faults := lazy_faults t1 + 1\<rparr> else t1\<lparr>stack_faults := stack_faults t1 + 1\<rparr>)"

definition user_page_at :: "machine \<Rightarrow> u64 \<Rightarrow> u64 \<Rightarrow> u64" where
  "user_page_at s sp page = get_physical_address s (space_pgdir s sp) page AND PAGE_MASK"

definition prepare_user_page ::
    "platform \<Rightarrow> machine \<Rightarrow> task_faults \<Rightarrow> u64 \<Rightarrow> u64 \<Rightarrow> bool \<Rightarrow> (int \<times> machine \<times> task_faults) option" where
  "prepare_user_page e s t sp page write =
     (if sp = 0 then Some (-1, s, t)
      else let physical = user_page_at s sp page in
      case find_vma s sp page of
        None \<Rightarrow> Some (-1, s, t)
      | Some v \<Rightarrow> do {
          (physical, s1, t1) \<leftarrow>
            (if physical \<noteq> 0 then Some (physical, s, t)
             else do {
               (r, s1) \<leftarrow> handle_lazy_anon_fault e s sp page write;
               if r = 0 then Some (user_page_at s1 sp page, s1, note_resolved_fault t True)
               else do {
                 (r, s2) \<leftarrow> handle_user_stack_fault e s1 sp page;
                 if r = 0 then Some (user_page_at s2 sp page, s2, note_resolved_fault t False)
                 else Some (0, s2, t)
               }
             });
          if physical = 0 then Some (-1, s1, t1)
          else if write \<and> \<not> has_flag v VMA_SHARED \<and> 1 < page_ref_count e (phys s1) physical then do {
            (r, s2) \<leftarrow> handle_cow_fault e s1 sp page;
            if r \<noteq> 0 then Some (-1, s2, t1)
            else Some (0, s2, t1\<lparr>cow_faults := cow_faults t1 + 1\<rparr>)
          } else Some (0, s1, t1)
        })"

definition resolve_user_page ::
    "platform \<Rightarrow> machine \<Rightarrow> task_faults \<Rightarrow> u64 \<Rightarrow> u64 \<Rightarrow> bool \<Rightarrow> (u64 \<times> machine \<times> task_faults) option" where
  "resolve_user_page e s t sp page write =
     (if sp = 0 then Some (0, s, t)
      else let physical = user_page_at s sp page in
      if physical \<noteq> 0 \<and> \<not> write then Some (physical, s, t)
      else do {
        (r, s1, t1) \<leftarrow> prepare_user_page e s t sp page write;
        if r \<noteq> 0 then Some (0, s1, t1) else Some (user_page_at s1 sp page, s1, t1)
      })"

text \<open>The loop of \<open>copy_user_pages\<close> in its two directions: \<open>bytes\<close> are those still to be written to the user,
  or those read so far.\<close>

definition copy_chunk :: "u64 \<Rightarrow> u64 \<Rightarrow> u64" where
  "copy_chunk current rest =
     (let chunk = PAGE_SIZE - (current AND PAGE_OFFSET_MASK) in if rest < chunk then rest else chunk)"

partial_function (option) copy_out ::
    "platform \<Rightarrow> machine \<Rightarrow> task_faults \<Rightarrow> u64 \<Rightarrow> u64 \<Rightarrow> u64 \<Rightarrow> u64 \<Rightarrow> u8 list \<Rightarrow> (int \<times> machine \<times> task_faults) option" where
  "copy_out e s t vm user_address len copied bytes =
     (if copied < len then
        (let current = user_address + copied;
             chunk = copy_chunk current (len - copied) in
         do {
           (physical, s1, t1) \<leftarrow> resolve_user_page e s t vm (current AND PAGE_MASK) True;
           if physical = 0 then Some (-1, s1, t1)
           else copy_out e (set_pmem s1 (store_bytes (pmem (phys s1)) (physical + (current AND PAGE_OFFSET_MASK))
                                           (take (unat chunk) bytes)))
                  t1 vm user_address len (copied + chunk) (drop (unat chunk) bytes)
         })
      else Some (0, s, t))"

partial_function (option) copy_in ::
    "platform \<Rightarrow> machine \<Rightarrow> task_faults \<Rightarrow> u64 \<Rightarrow> u64 \<Rightarrow> u64 \<Rightarrow> u64 \<Rightarrow> u8 list \<Rightarrow>
     (int \<times> u8 list \<times> machine \<times> task_faults) option" where
  "copy_in e s t vm user_address len copied bytes =
     (if copied < len then
        (let current = user_address + copied;
             chunk = copy_chunk current (len - copied) in
         do {
           (physical, s1, t1) \<leftarrow> resolve_user_page e s t vm (current AND PAGE_MASK) False;
           if physical = 0 then Some (-1, bytes, s1, t1)
           else copy_in e s1 t1 vm user_address len (copied + chunk)
                  (bytes @ load_bytes (pmem (phys s1)) (physical + (current AND PAGE_OFFSET_MASK)) (unat chunk))
         })
      else Some (0, bytes, s, t))"

definition is_kernel_pointer :: "u64 \<times> u64 \<Rightarrow> u64 \<Rightarrow> bool" where
  "is_kernel_pointer kimg ptr \<longleftrightarrow> ptr \<noteq> 0 \<and> memory_is_kernel_address kimg ptr"

definition is_valid_user_ptr :: "u64 \<times> u64 \<Rightarrow> machine \<Rightarrow> u64 \<Rightarrow> u64 \<Rightarrow> bool" where
  "is_valid_user_ptr kimg s cur ptr \<longleftrightarrow> ptr \<noteq> 0 \<and> vm_validate_user_range kimg s cur ptr 1 VMA_READ"

definition is_valid_user_range :: "u64 \<times> u64 \<Rightarrow> machine \<Rightarrow> u64 \<Rightarrow> u64 \<Rightarrow> u64 \<Rightarrow> bool" where
  "is_valid_user_range kimg s cur ptr sz \<longleftrightarrow> ptr \<noteq> 0 \<and> vm_validate_user_range kimg s cur ptr sz VMA_READ"

text \<open>\<open>from\<close> is the kernel buffer, \<open>None\<close> for NULL; it holds the \<open>n\<close> bytes the caller passes.\<close>

definition copy_to_user ::
    "platform \<Rightarrow> u64 \<times> u64 \<Rightarrow> machine \<Rightarrow> task_faults \<Rightarrow> u64 \<Rightarrow> u64 \<Rightarrow> u8 list option \<Rightarrow> u64 \<Rightarrow>
     (int \<times> machine \<times> task_faults) option" where
  "copy_to_user e kimg s t cur to from n =
     (case from of
        None \<Rightarrow> Some (-1, s, t)
      | Some bytes \<Rightarrow>
          if cur = 0 \<or> n = 0 \<or> \<not> vm_validate_user_range kimg s cur to n VMA_WRITE then Some (-1, s, t)
          else copy_out e s t cur to n 0 bytes)"

text \<open>The destination is not NULL; the result carries the bytes written to it, all \<open>n\<close> of them on success.\<close>

definition copy_from_user ::
    "platform \<Rightarrow> u64 \<times> u64 \<Rightarrow> machine \<Rightarrow> task_faults \<Rightarrow> u64 \<Rightarrow> u64 \<Rightarrow> u64 \<Rightarrow>
     (int \<times> u8 list \<times> machine \<times> task_faults) option" where
  "copy_from_user e kimg s t cur from n =
     (if cur = 0 \<or> n = 0 \<or> \<not> vm_validate_user_range kimg s cur from n VMA_READ then Some (-1, [], s, t)
      else copy_in e s t cur from n 0 [])"

text \<open>The rows of \<open>copy_from_user_2d\<close> with the one-page lookup cache: \<open>cache\<close> is \<open>(cached_page,
  cached_physical)\<close>, the result the rows copied (the stride of the destination only places them).\<close>

partial_function (option) copy_row ::
    "platform \<Rightarrow> machine \<Rightarrow> task_faults \<Rightarrow> u64 \<times> u64 \<Rightarrow> u64 \<Rightarrow> u64 \<Rightarrow> u64 \<Rightarrow> u64 \<Rightarrow> u8 list \<Rightarrow>
     (int \<times> u8 list \<times> (u64 \<times> u64) \<times> machine \<times> task_faults) option" where
  "copy_row e s t cache vm source row_bytes copied bytes =
     (if copied < row_bytes then
        (let current = source + copied;
             pg = current AND PAGE_MASK;
             chunk = copy_chunk current (row_bytes - copied) in
         do {
           (physical, s1, t1) \<leftarrow> (if pg = fst cache then Some (snd cache, s, t)
                                  else resolve_user_page e s t vm pg False);
           if physical = 0 then Some (-1, bytes, (pg, physical), s1, t1)
           else copy_row e s1 t1 (pg, physical) vm source row_bytes (copied + chunk)
                  (bytes @ load_bytes (pmem (phys s1)) (physical + (current AND PAGE_OFFSET_MASK)) (unat chunk))
         })
      else Some (0, bytes, cache, s, t))"

fun copy_rows ::
    "platform \<Rightarrow> machine \<Rightarrow> task_faults \<Rightarrow> u64 \<times> u64 \<Rightarrow> u64 \<Rightarrow> u64 \<Rightarrow> u64 \<Rightarrow> u64 \<Rightarrow> nat \<Rightarrow>
     (int \<times> u8 list list \<times> machine \<times> task_faults) option" where
  "copy_rows e s t cache vm source from_stride row_bytes 0 = Some (0, [], s, t)"
| "copy_rows e s t cache vm source from_stride row_bytes (Suc rows) = do {
     (r, bytes, cache1, s1, t1) \<leftarrow> copy_row e s t cache vm source row_bytes 0 [];
     if r \<noteq> 0 then Some (r, [bytes], s1, t1)
     else do {
       (r, bs, s2, t2) \<leftarrow> copy_rows e s1 t1 cache1 vm (source + from_stride) from_stride row_bytes rows;
       Some (r, bytes # bs, s2, t2)
     }
   }"

definition copy_from_user_2d ::
    "platform \<Rightarrow> u64 \<times> u64 \<Rightarrow> machine \<Rightarrow> task_faults \<Rightarrow> u64 \<Rightarrow> u64 \<Rightarrow> u64 \<Rightarrow> u64 \<Rightarrow> u64 \<Rightarrow> u64 \<Rightarrow>
     (int \<times> u8 list list \<times> machine \<times> task_faults) option" where
  "copy_from_user_2d e kimg s t cur to_stride from from_stride row_bytes rows =
     (if cur = 0 \<or> from = 0 \<or> row_bytes = 0 \<or> rows = 0 \<or> to_stride < row_bytes \<or> from_stride < row_bytes
      then Some (-1, [], s, t)
      else if (- 1 - row_bytes) div from_stride < rows - 1 then Some (-1, [], s, t)
      else let span = (rows - 1) * from_stride + row_bytes in
      if \<not> vm_validate_user_range kimg s cur from span VMA_READ then Some (-1, [], s, t)
      else copy_rows e s t (- 1, 0) cur from from_stride row_bytes (unat rows))"

text \<open>Copying a string byte by byte: the index of its NUL and the bytes before it. \<open>k\<close> is what is left of
  \<open>max_len\<close>.\<close>

fun strncpy_from_user_loop ::
    "platform \<Rightarrow> u64 \<times> u64 \<Rightarrow> machine \<Rightarrow> task_faults \<Rightarrow> u64 \<Rightarrow> u64 \<Rightarrow> nat \<Rightarrow> u8 list \<Rightarrow>
     (int \<times> u8 list \<times> machine \<times> task_faults) option" where
  "strncpy_from_user_loop e kimg s t cur from 0 to = Some (-1, butlast to, s, t)"
| "strncpy_from_user_loop e kimg s t cur from (Suc k) to = do {
     (r, b, s1, t1) \<leftarrow> copy_from_user e kimg s t cur from 1;
     if r \<noteq> 0 then Some (-1, to, s1, t1)
     else if b = [0] then Some (int (length to), to, s1, t1)
     else strncpy_from_user_loop e kimg s1 t1 cur (from + 1) k (to @ b)
   }"

definition strncpy_from_user ::
    "platform \<Rightarrow> u64 \<times> u64 \<Rightarrow> machine \<Rightarrow> task_faults \<Rightarrow> u64 \<Rightarrow> u64 \<Rightarrow> nat \<Rightarrow>
     (int \<times> u8 list \<times> machine \<times> task_faults) option" where
  "strncpy_from_user e kimg s t cur from max_len =
     (if from = 0 \<or> max_len = 0 then Some (-1, [], s, t)
      else strncpy_from_user_loop e kimg s t cur from max_len [])"

fun strnlen_user_loop ::
    "platform \<Rightarrow> u64 \<times> u64 \<Rightarrow> machine \<Rightarrow> task_faults \<Rightarrow> u64 \<Rightarrow> u64 \<Rightarrow> nat \<Rightarrow> int \<Rightarrow>
     (int \<times> machine \<times> task_faults) option" where
  "strnlen_user_loop e kimg s t cur str 0 index = Some (-1, s, t)"
| "strnlen_user_loop e kimg s t cur str (Suc k) index = do {
     (r, b, s1, t1) \<leftarrow> copy_from_user e kimg s t cur str 1;
     if r \<noteq> 0 then Some (-1, s1, t1)
     else if b = [0] then Some (index, s1, t1)
     else strnlen_user_loop e kimg s1 t1 cur (str + 1) k (index + 1)
   }"

definition strnlen_user ::
    "platform \<Rightarrow> u64 \<times> u64 \<Rightarrow> machine \<Rightarrow> task_faults \<Rightarrow> u64 \<Rightarrow> u64 \<Rightarrow> int \<Rightarrow> (int \<times> machine \<times> task_faults) option" where
  "strnlen_user e kimg s t cur str maxlen =
     (if str = 0 \<or> maxlen \<le> 0 then Some (-1, s, t)
      else strnlen_user_loop e kimg s t cur str (nat maxlen) 0)"

definition copy_to_user_safe ::
    "platform \<Rightarrow> u64 \<times> u64 \<Rightarrow> machine \<Rightarrow> task_faults \<Rightarrow> u64 \<Rightarrow> u64 \<Rightarrow> u8 list option \<Rightarrow> u64 \<Rightarrow> u64 \<Rightarrow>
     (int \<times> machine \<times> task_faults) option" where
  "copy_to_user_safe e kimg s t cur to from n max_size =
     (if n \<le> max_size then copy_to_user e kimg s t cur to from n else Some (-1, s, t))"

definition MAX_PATH :: int where "MAX_PATH = 1280"

text \<open>The copy of a user path in a heap block: the block (0 for NULL) and its bytes, the NUL included.\<close>

definition copy_string_from_user ::
    "platform \<Rightarrow> u64 \<times> u64 \<Rightarrow> machine \<Rightarrow> task_faults \<Rightarrow> u64 \<Rightarrow> u64 \<Rightarrow> (u64 \<times> u8 list \<times> machine \<times> task_faults) option" where
  "copy_string_from_user e kimg s t cur user_str = do {
     (len, s1, t1) \<leftarrow> strnlen_user e kimg s t cur user_str MAX_PATH;
     if len < 0 then Some (0, [], s1, t1)
     else do {
       (h, kernel_string) \<leftarrow> kmalloc (kheap s1) (of_int len + 1);
       let s2 = s1\<lparr>kheap := h\<rparr>;
       if kernel_string = 0 then Some (0, [], s2, t1)
       else do {
         (r, bytes, s3, t2) \<leftarrow> copy_from_user e kimg s2 t1 cur user_str (of_int len + 1);
         if r \<noteq> 0 then do {
           h1 \<leftarrow> kfree (kheap s3) kernel_string;
           Some (0, [], s3\<lparr>kheap := h1\<rparr>, t2)
         } else Some (kernel_string, bytes, s3, t2)
       }
     }
   }"

end
