(* ===== verification/UserCopy_Correct.thy ===== *)
theory UserCopy_Correct
  imports UserFault_Correct UserCopy
begin

text \<open>
  Copies between the kernel and the running process: preparing a user page, one chunk, and the loops. A copy reads and
  writes what the process itself would read and write at those addresses, faulting pages in on the way, and
  never touches an allocated page that the process does not map.
\<close>

subsection \<open>Steps of a copy\<close>

text \<open>Allocated pages that the space does not map stay allocated, unmapped and unchanged.\<close>

definition isolated :: "platform \<Rightarrow> block set \<Rightarrow> u64 \<Rightarrow> machine \<times> arm64_user_vm \<times> u64 set \<Rightarrow> machine \<times> arm64_user_vm \<times> u64 set \<Rightarrow> bool" where
  "isolated e R sp = (\<lambda>(s, vm, P) (s', vm', P'). live_space e s' sp vm' P' R \<and> frame s s' \<and>
     data_pages vm P - mapped vm \<subseteq> data_pages vm' P' - mapped vm' \<and>
     (\<forall>p \<in> data_pages vm P - mapped vm. \<forall>x. in_page p x \<longrightarrow> pmem (phys s') x = pmem (phys s) x))"

text \<open>Whatever the process could read before it reads now.\<close>

definition reads_kept :: "machine \<times> arm64_user_vm \<times> u64 set \<Rightarrow> machine \<times> arm64_user_vm \<times> u64 set \<Rightarrow> bool" where
  "reads_kept = (\<lambda>(s, vm, P) (s', vm', P'). \<forall>a b. user_byte s vm a = Some b \<longrightarrow> user_byte s' vm' a = Some b)"

lemma isolated_refl: "live_space e s sp vm P R \<Longrightarrow> isolated e R sp (s, vm, P) (s, vm, P)"
  by (simp add: isolated_def)

lemma isolated_trans: "isolated e R sp x y \<Longrightarrow> isolated e R sp y z \<Longrightarrow> isolated e R sp x z"
  unfolding isolated_def by (auto split: prod.splits intro: frame_trans)

lemma reads_kept_refl: "reads_kept x x"
  by (simp add: reads_kept_def split: prod.splits)

lemma reads_kept_trans: "reads_kept x y \<Longrightarrow> reads_kept y z \<Longrightarrow> reads_kept x z"
  unfolding reads_kept_def by (auto split: prod.splits)

lemma isolated_live: "isolated e R sp x (s', vm', P') \<Longrightarrow> live_space e s' sp vm' P' R"
  by (cases x) (simp add: isolated_def)

lemma mappedI: "lookup_map vm va = Some mp \<Longrightarrow> physical_address mp \<in> mapped vm"
  by (auto simp: mapped_def)

lemma mapped_upd:
  "lookup_map vm' = (lookup_map vm)(va \<mapsto> mp) \<Longrightarrow> mapped vm' \<subseteq> insert (physical_address mp) (mapped vm)"
  "lookup_map vm' = (lookup_map vm)(va := None) \<Longrightarrow> mapped vm' \<subseteq> mapped vm"
  "lookup_map vm' = lookup_map vm \<Longrightarrow> mapped vm' = mapped vm"
  by (auto simp: mapped_def split: if_splits)

lemma demand_isolated:
  assumes live: "live_space e s sp vm P R" and g: "grows e R sp (s, vm, P) (s', vm', P')" and f: "faulted e vm P va r s' vm'"
  shows "isolated e R sp (s, vm, P) (s', vm', P')" "reads_kept (s, vm, P) (s', vm', P')"
proof -
  note D = live_spaceD(6)[OF live]
  have mem: "\<forall>p \<in> data_pages vm P. \<forall>x. in_page p x \<longrightarrow> pmem (phys s') x = pmem (phys s) x" using g by (simp add: grows_def)
  have look: "lookup_map vm' vb = Some mq" if "lookup_map vm vb = Some mq" for vb mq
    using f that by (auto simp: faulted_def)
  have "mapped vm' \<subseteq> mapped vm \<union> - data_pages vm P"
    using f mapped_upd[of vm' vm] unfolding faulted_def by blast
  then show "isolated e R sp (s, vm, P) (s', vm', P')"
    using g mem by (auto simp: isolated_def grows_def)
  show "reads_kept (s, vm, P) (s', vm', P')" unfolding reads_kept_def
  proof (clarsimp)
    fix a b assume b: "user_byte s vm a = Some b"
    then obtain mq where "lookup_map vm (a AND PAGE_MASK) = Some mq" by (auto simp: user_byte_def)
    then show "user_byte s' vm' a = Some b" using look b user_byte_same[OF D mem, of vm' a] by simp
  qed
qed

lemma cow_isolated:
  assumes live: "live_space e s sp vm P R" and k: "keeps e R sp (page_at vm va) (s, vm, P) (s', vm', P')" and c: "cow_done s vm P va r s' vm'"
  shows "isolated e R sp (s, vm, P) (s', vm', P')" "r = 0 \<Longrightarrow> reads_kept (s, vm, P) (s', vm', P')"
proof -
  have at: "page_at vm va \<subseteq> mapped vm" by (auto simp: page_at_def mapped_def)
  have "mapped vm' \<subseteq> mapped vm \<union> - data_pages vm P"
    using c mapped_upd[of vm' vm] mappedI[of vm] unfolding cow_done_def private_copy_def by fastforce
  then show "isolated e R sp (s, vm, P) (s', vm', P')" using k at by (auto simp: isolated_def keeps_def)
  show "reads_kept (s, vm, P) (s', vm', P')" if "r = 0"
    using private_copy_reads[OF live k] c that by (simp add: cow_done_def reads_kept_def)
qed

subsection \<open>Preparing a page\<close>

lemma user_page_at_live:
  assumes "live_space e s sp vm P R" "page va"
  shows "user_page_at s sp va = (case lookup_map vm va of None \<Rightarrow> 0 | Some mp \<Rightarrow> physical_address mp)"
  unfolding user_page_at_def by (rule user_page_live(2)[OF assms])

text \<open>The page \<open>ph\<close> that a step has prepared is the one mapped at \<open>va\<close>; 0 stands for a refusal.\<close>

definition prepared :: "platform \<Rightarrow> block set \<Rightarrow> u64 \<Rightarrow> u64 \<Rightarrow> bool \<Rightarrow> u64 \<Rightarrow>
    machine \<times> arm64_user_vm \<times> u64 set \<Rightarrow> machine \<times> arm64_user_vm \<times> u64 set \<Rightarrow> bool" where
  "prepared e R sp va write ph x y \<longleftrightarrow> isolated e R sp x y \<and> (ph \<noteq> 0 \<or> \<not> write \<longrightarrow> reads_kept x y) \<and>
     (ph \<noteq> 0 \<longrightarrow> (\<exists>mp. lookup_map (fst (snd y)) va = Some mp \<and> physical_address mp = ph))"

lemma fault_stage:
  assumes live: "live_space e s sp vm P R" and va: "page va"
  shows "\<exists>r s1 t1 vm1 P1. (if user_page_at s sp va \<noteq> 0 then Some (user_page_at s sp va, s, t)
             else do {
               (r, s1) \<leftarrow> handle_lazy_anon_fault e s sp va write;
               if r = 0 then Some (user_page_at s1 sp va, s1, note_resolved_fault t True)
               else do {
                 (r, s2) \<leftarrow> handle_user_stack_fault e s1 sp va;
                 if r = 0 then Some (user_page_at s2 sp va, s2, note_resolved_fault t False)
                 else Some (0, s2, t)
               }
             }) = Some (r, s1, t1) \<and> prepared e R sp va False r (s, vm, P) (s1, vm1, P1)"
proof (cases "user_page_at s sp va = 0")
  case False
  then have "prepared e R sp va False (user_page_at s sp va) (s, vm, P) (s, vm, P)"
    using user_page_at_live[OF live va] isolated_refl[OF live] reads_kept_refl by (auto simp: prepared_def split: option.splits)
  then show ?thesis using False by auto
next
  case True
  note m = page_and(1)[OF va]
  obtain r s1 vm1 P1 where L: "handle_lazy_anon_fault e s sp va write = Some (r, s1)" "grows e R sp (s, vm, P) (s1, vm1, P1)"
    "faulted e vm P va r s1 vm1"
    using lazy_fault_ok[OF live, of va "write"] m by metis
  note I1 = demand_isolated[OF live L(2,3)] and live1 = isolated_live[OF demand_isolated(1)[OF live L(2,3)]]
  show ?thesis
  proof (cases "r = 0")
    case r: True
    then have "prepared e R sp va False (user_page_at s1 sp va) (s, vm, P) (s1, vm1, P1)"
      using I1 user_page_at_live[OF live1 va] by (auto simp: prepared_def split: option.splits)
    then show ?thesis using True L(1) r by auto
  next
    case r: False
    obtain r2 s2 vm2 P2 where S: "handle_user_stack_fault e s1 sp va = Some (r2, s2)" "grows e R sp (s1, vm1, P1) (s2, vm2, P2)"
      "faulted e vm1 P1 va r2 s2 vm2"
      using stack_fault_ok[OF live1, of va] m by metis
    note I2 = demand_isolated[OF live1 S(2,3)] and live2 = isolated_live[OF demand_isolated(1)[OF live1 S(2,3)]]
    have "prepared e R sp va False (if r2 = 0 then user_page_at s2 sp va else 0) (s, vm, P) (s2, vm2, P2)"
      using isolated_trans[OF I1(1) I2(1)] reads_kept_trans[OF I1(2) I2(2)] user_page_at_live[OF live2 va]
      by (auto simp: prepared_def split: option.splits)
    then show ?thesis using True L(1) r S by (cases "r2 = 0") auto
  qed
qed

lemma prepared_refused: "live_space e s sp vm P R \<Longrightarrow> prepared e R sp va write 0 (s, vm, P) (s, vm, P)"
  using isolated_refl reads_kept_refl by (simp add: prepared_def)

lemma prepared_page_at:
  assumes "isolated e R sp x (s', vm', P')" "reads_kept x (s', vm', P')" "page va"
  shows "prepared e R sp va write (user_page_at s' sp va) x (s', vm', P')"
  using assms user_page_at_live[OF isolated_live[OF assms(1)] assms(3)] by (auto simp: prepared_def split: option.splits)

lemma prepare_ok:
  assumes live: "live_space e s sp vm P R" and va: "page va"
  shows "\<exists>r s1 t1 vm1 P1. prepare_user_page e s t sp va write = Some (r, s1, t1) \<and>
    prepared e R sp va write (if r = 0 then user_page_at s1 sp va else 0) (s, vm, P) (s1, vm1, P1)"
proof (cases "find_vma s sp va")
  case None
  then show ?thesis using prepared_refused[OF live] live_spaceD(1)[OF live] by (auto simp: prepare_user_page_def)
next
  case (Some v)
  let ?x = "(s, vm, P)"
  from fault_stage[OF live va, of t "write"] obtain ph s1 t1 vm1 P1 where
    F: "(if user_page_at s sp va \<noteq> 0 then Some (user_page_at s sp va, s, t)
             else do {
               (r, s1) \<leftarrow> handle_lazy_anon_fault e s sp va write;
               if r = 0 then Some (user_page_at s1 sp va, s1, note_resolved_fault t True)
               else do {
                 (r, s2) \<leftarrow> handle_user_stack_fault e s1 sp va;
                 if r = 0 then Some (user_page_at s2 sp va, s2, note_resolved_fault t False)
                 else Some (0, s2, t)
               }
             }) = Some (ph, s1, t1)" and pre: "prepared e R sp va False ph ?x (s1, vm1, P1)"
    by blast
  have iso: "isolated e R sp ?x (s1, vm1, P1)" "reads_kept ?x (s1, vm1, P1)" using pre by (auto simp: prepared_def)
  note live1 = isolated_live[OF iso(1)]
  have run: "prepare_user_page e s t sp va write =
      (if ph = 0 then Some (-1, s1, t1)
       else if write \<and> \<not> has_flag v VMA_SHARED \<and> 1 < page_ref_count e (phys s1) ph then do {
         (r, s2) \<leftarrow> handle_cow_fault e s1 sp va;
         if r \<noteq> 0 then Some (-1, s2, t1) else Some (0, s2, t1\<lparr>cow_faults := cow_faults t1 + 1\<rparr>)
       } else Some (0, s1, t1))"
    using live_spaceD(1)[OF live] Some by (simp add: prepare_user_page_def Let_def F)
  show ?thesis
  proof (cases "ph \<noteq> 0 \<and> write \<and> \<not> has_flag v VMA_SHARED \<and> 1 < page_ref_count e (phys s1) ph")
    case False
    have "prepared e R sp va write 0 ?x (s1, vm1, P1)" using iso by (simp add: prepared_def)
    then show ?thesis using False prepared_page_at[OF iso va] unfolding run by (cases "ph = 0") auto
  next
    case True
    obtain r s2 vm2 P2 where C: "handle_cow_fault e s1 sp va = Some (r, s2)" "keeps e R sp (page_at vm1 va) (s1, vm1, P1) (s2, vm2, P2)"
      "cow_done s1 vm1 P1 va r s2 vm2"
      using cow_fault_ok[OF live1, of va] page_and(1)[OF va] by auto
    note I = cow_isolated[OF live1 C(2,3)]
    have "prepared e R sp va write (if r = 0 then user_page_at s2 sp va else 0) ?x (s2, vm2, P2)"
      using isolated_trans[OF iso(1) I(1)] reads_kept_trans[OF iso(2) I(2)] prepared_page_at[OF _ _ va] True
      by (auto simp: prepared_def)
    then show ?thesis using True C(1) unfolding run by (cases "r = 0") auto
  qed
qed

lemma resolve_ok:
  assumes live: "live_space e s sp vm P R" and va: "page va"
  obtains ph s1 t1 vm1 P1 where "resolve_user_page e s t sp va write = Some (ph, s1, t1)" "prepared e R sp va write ph (s, vm, P) (s1, vm1, P1)"
proof (cases "user_page_at s sp va \<noteq> 0 \<and> \<not> write")
  case True
  then show ?thesis using live_spaceD(1)[OF live] prepared_page_at[OF isolated_refl[OF live] reads_kept_refl va]
    by (intro that[of "user_page_at s sp va" s t vm P]) (auto simp: resolve_user_page_def)
next
  case False
  obtain r s1 t1 vm1 P1 where "prepare_user_page e s t sp va write = Some (r, s1, t1)"
    "prepared e R sp va write (if r = 0 then user_page_at s1 sp va else 0) (s, vm, P) (s1, vm1, P1)"
    using prepare_ok[OF live va, of t "write"] by blast
  then show ?thesis using False live_spaceD(1)[OF live]
    by (intro that[of "if r = 0 then user_page_at s1 sp va else 0" s1 t1 vm1 P1]) (auto simp: resolve_user_page_def)
qed

subsection \<open>One chunk\<close>

lemma unat_offset: "unat (a AND PAGE_OFFSET_MASK) = unat a mod 4096"
proof -
  have "a AND PAGE_OFFSET_MASK = take_bit 12 a" by (simp add: PAGE_OFFSET_MASK_def take_bit_eq_mask mask_eq_exp_minus_1)
  then have "unat (a AND PAGE_OFFSET_MASK) = take_bit 12 (unat a)" by (simp only: unsigned_take_bit_eq)
  then show ?thesis by (simp add: take_bit_eq_mod)
qed

lemma page_part: "a AND PAGE_MASK = a - (a AND PAGE_OFFSET_MASK)"
proof -
  have "unat (a AND PAGE_MASK) = unat a div 4096 * 4096"
    using unat_and_not_mask[of a 12] by (simp add: PAGE_MASK_def mask_eq_exp_minus_1)
  moreover have "unat (a - (a AND PAGE_OFFSET_MASK)) = unat a - unat a mod 4096"
    by (subst unat_sub) (simp_all add: unat_offset word_le_nat_alt)
  ultimately show ?thesis by (simp add: word_unat_eq_iff minus_mod_eq_div_mult)
qed

lemma chunk_addr:
  assumes "unat k + unat (c AND PAGE_OFFSET_MASK) < 4096"
  shows "(c + k) AND PAGE_OFFSET_MASK = (c AND PAGE_OFFSET_MASK) + k" "(c + k) AND PAGE_MASK = c AND PAGE_MASK"
proof -
  have s: "unat ((c AND PAGE_OFFSET_MASK) + k) = unat (c AND PAGE_OFFSET_MASK) + unat k"
    using assms by (subst unat_add_lem[THEN iffD1]) auto
  have "unat ((c + k) AND PAGE_OFFSET_MASK) = (unat c + unat k) mod 4096"
    unfolding unat_offset unat_word_ariths by (simp add: mod_mod_cancel)
  also have "\<dots> = (unat (c AND PAGE_OFFSET_MASK) + unat k) mod 4096" unfolding unat_offset by (simp add: mod_simps)
  also have "\<dots> = unat ((c AND PAGE_OFFSET_MASK) + k)" using assms s by simp
  finally show o: "(c + k) AND PAGE_OFFSET_MASK = (c AND PAGE_OFFSET_MASK) + k" by (simp add: word_unat_eq_iff)
  show "(c + k) AND PAGE_MASK = c AND PAGE_MASK" unfolding page_part o by (simp add: algebra_simps)
qed

lemma copy_chunk_bounds:
  assumes "rest \<noteq> 0"
  shows "0 < unat (copy_chunk c rest)" "unat (copy_chunk c rest) \<le> unat rest"
    "unat (copy_chunk c rest) + unat (c AND PAGE_OFFSET_MASK) \<le> 4096"
proof -
  have u: "unat (PAGE_SIZE - (c AND PAGE_OFFSET_MASK)) = 4096 - unat (c AND PAGE_OFFSET_MASK)"
    using offset_lt[of c] by (subst unat_sub) (auto simp: word_le_nat_alt PAGE_SIZE_def)
  show "0 < unat (copy_chunk c rest)" "unat (copy_chunk c rest) \<le> unat rest"
    "unat (copy_chunk c rest) + unat (c AND PAGE_OFFSET_MASK) \<le> 4096"
    using assms u offset_lt[of c] by (auto simp: copy_chunk_def Let_def word_less_nat_alt unat_gt_0)
qed

lemma store_bytes_range:
  "length bs < 2 ^ 64 \<Longrightarrow> store_bytes m a bs x = (if unat (x - a) < length bs then bs ! unat (x - a) else m x)"
proof (induction bs arbitrary: m a)
  case (Cons b bs)
  have step: "unat (x - a) = Suc (unat (x - (a + 1)))" if "x \<noteq> a"
  proof -
    have "x - (a + 1) = (x - a) - 1" by (simp add: algebra_simps)
    moreover have "x - a \<noteq> 0" using that by simp
    ultimately show ?thesis by (metis Suc_pred' unat_gt_0 unat_minus_one)
  qed
  have "x - (x + 1) = - 1" by simp
  then have "unat (x - (x + 1)) = 2 ^ 64 - 1" by (simp add: unsigned_minus_1_eq_mask mask_eq_exp_minus_1)
  then show ?case using Cons step by (cases "x = a") auto
qed simp

lemma load_bytes_nth: "length (load_bytes m a n) = n" "k < n \<Longrightarrow> load_bytes m a n ! k = m (a + of_nat k)"
  by (simp_all add: load_bytes_def)

lemma chunk_read:
  assumes "lookup_map vm (c AND PAGE_MASK) = Some mp" "k < n" "n + unat (c AND PAGE_OFFSET_MASK) \<le> 4096"
  shows "user_byte s vm (c + of_nat k) = Some (load_bytes (pmem (phys s)) (physical_address mp + (c AND PAGE_OFFSET_MASK)) n ! k)"
proof -
  have "unat (of_nat k :: u64) = k" using assms(2,3) by (simp add: unat_of_nat64)
  then show ?thesis
    using chunk_addr[of "of_nat k" c] assms by (simp add: user_byte_def load_bytes_nth add.assoc)
qed

lemma unat_add_le: "unat ((x :: u64) + y) \<le> unat x + unat y"
  by (simp add: unat_word_ariths)

text \<open>Storing a chunk through the direct map changes what the process reads in that range and nowhere else.\<close>

lemma chunk_store:
  assumes live: "live_space e s sp vm P R" and mp: "lookup_map vm (c AND PAGE_MASK) = Some mp"
    and len: "length bs + unat (c AND PAGE_OFFSET_MASK) \<le> 4096"
  defines "s' \<equiv> set_pmem s (store_bytes (pmem (phys s)) (physical_address mp + (c AND PAGE_OFFSET_MASK)) bs)"
  shows "isolated e R sp (s, vm, P) (s', vm, P)"
    "user_byte s' vm a = (if unat (a - c) < length bs then Some (bs ! unat (a - c)) else user_byte s vm a)"
proof -
  let ?p = "physical_address mp" and ?off = "c AND PAGE_OFFSET_MASK"
  note D = live_spaceD[OF live] and I = vm_invD[OF live_spaceD(5)[OF live]]
  have p: "?p \<in> data_pages vm P" using D(6) mp by (auto simp: data_ok_def)
  have mem: "pmem (phys s') x = (if unat (x - (?p + ?off)) < length bs then bs ! unat (x - (?p + ?off)) else pmem (phys s) x)" for x
    using len by (simp add: s'_def set_pmem_def store_bytes_range)
  have inside: "in_page ?p x" if "unat (x - (?p + ?off)) < length bs" for x
  proof -
    have "x - ?p = (x - (?p + ?off)) + ?off" by (simp add: algebra_simps)
    then have "unat (x - ?p) \<le> unat (x - (?p + ?off)) + unat ?off" by (metis unat_add_le)
    then show ?thesis using that len by (simp add: in_page_def)
  qed
  have other: "pmem (phys s') x = pmem (phys s) x" if "q \<in> P" "q \<noteq> ?p" "in_page q x" for q x
    using pages_apart[of ?p q x] owns_page(1)[OF I(3)] p that mem[of x] inside[of x] by (auto simp: data_pages_def)
  have "live_space e s' sp vm P R" unfolding s'_def
    using other p I(4) by (intro live_store[OF live]) (auto simp: data_pages_def s'_def set_pmem_def)
  then show "isolated e R sp (s, vm, P) (s', vm, P)"
    using other mappedI[OF mp] by (auto simp: isolated_def s'_def data_pages_def)
  show "user_byte s' vm a = (if unat (a - c) < length bs then Some (bs ! unat (a - c)) else user_byte s vm a)"
  proof (cases "a AND PAGE_MASK = c AND PAGE_MASK")
    case True
    have "?p + (a AND PAGE_OFFSET_MASK) - (?p + ?off) = a - c" using True unfolding page_part by (simp add: algebra_simps)
    then show ?thesis using True mp by (simp add: user_byte_def mem)
  next
    case False
    have "\<not> unat (a - c) < length bs" using chunk_addr(2)[of "a - c" c] False len by auto
    moreover have "user_byte s' vm a = user_byte s vm a"
    proof (cases "lookup_map vm (a AND PAGE_MASK)")
      case (Some mq)
      then have "physical_address mq \<in> P" "physical_address mq \<noteq> ?p" using D(6) mp False by (auto simp: data_ok_def data_pages_def)
      then show ?thesis using Some other page_offset[OF offset_lt] by (simp add: user_byte_def)
    qed (simp add: user_byte_def)
    ultimately show ?thesis by simp
  qed
qed

subsection \<open>The loops\<close>

lemma copy_advance:
  fixes c :: u64
  assumes "copied < (len :: u64)"
  defines "n \<equiv> copy_chunk c (len - copied)"
  shows "copied + n \<le> len" "unat (len - (copied + n)) = unat (len - copied) - unat n" "unat (len - (copied + n)) < unat (len - copied)"
    "0 < unat n" "unat n \<le> unat (len - copied)" "unat n + unat (c AND PAGE_OFFSET_MASK) \<le> 4096"
proof -
  have rest: "len - copied \<noteq> 0" "unat (len - copied) = unat len - unat copied" "unat copied < unat len"
    using assms(1) by (auto simp: word_less_nat_alt unat_sub word_le_nat_alt)
  note B = copy_chunk_bounds[OF rest(1), of c, folded n_def]
  then show "0 < unat n" "unat n \<le> unat (len - copied)" "unat n + unat (c AND PAGE_OFFSET_MASK) \<le> 4096" .
  have s: "unat (copied + n) = unat copied + unat n"
    using B(2) rest(2,3) unat64_less[of len] by (subst unat_add_lem[THEN iffD1]) auto
  then show le: "copied + n \<le> len" using B(2) rest(2,3) by (simp add: word_le_nat_alt)
  show d: "unat (len - (copied + n)) = unat (len - copied) - unat n"
    using s rest(2) by (simp add: unat_sub[OF le])
  show "unat (len - (copied + n)) < unat (len - copied)" using d B(1,2) by simp
qed

lemma copy_in_ok:
  assumes "live_space e s sp vm P R" "copied \<le> len"
  shows "\<exists>r bs s' t' vm' P'. copy_in e s t sp ua len copied bytes = Some (r, bytes @ bs, s', t') \<and>
    isolated e R sp (s, vm, P) (s', vm', P') \<and> reads_kept (s, vm, P) (s', vm', P') \<and>
    (r = -1 \<or> r = 0 \<and> length bs = unat (len - copied) \<and> (\<forall>k < length bs. user_byte s' vm' (ua + copied + of_nat k) = Some (bs ! k)))"
  using assms
proof (induction "unat (len - copied)" arbitrary: s t vm P copied bytes rule: less_induct)
  case less
  note live = less.prems(1)
  show ?case
  proof (cases "copied < len")
    case False
    then have "len - copied = 0" using less.prems(2) by simp
    then show ?thesis using False isolated_refl[OF live] reads_kept_refl by (subst copy_in.simps) fastforce
  next
    case True
    let ?c = "ua + copied"
    define n where "n = copy_chunk ?c (len - copied)"
    note A = copy_advance[OF True, of ?c, folded n_def]
    obtain ph s1 t1 vm1 P1 where R: "resolve_user_page e s t sp (?c AND PAGE_MASK) False = Some (ph, s1, t1)"
      "prepared e R sp (?c AND PAGE_MASK) False ph (s, vm, P) (s1, vm1, P1)"
      by (rule resolve_ok[OF live page_masked])
    have iso: "isolated e R sp (s, vm, P) (s1, vm1, P1)" "reads_kept (s, vm, P) (s1, vm1, P1)" using R(2) by (auto simp: prepared_def)
    show ?thesis
    proof (cases "ph = 0")
      case z: True
      then have "copy_in e s t sp ua len copied bytes = Some (-1, bytes @ [], s1, t1)"
        by (subst copy_in.simps) (simp add: True R(1) Let_def)
      then show ?thesis using iso by blast
    next
      case False
      then obtain mp where mp: "lookup_map vm1 (?c AND PAGE_MASK) = Some mp" "ph = physical_address mp" using R(2) by (auto simp: prepared_def)
      define bs1 where "bs1 = load_bytes (pmem (phys s1)) (ph + (?c AND PAGE_OFFSET_MASK)) (unat n)"
      have len1: "length bs1 = unat n" by (simp add: bs1_def load_bytes_nth)
      have step: "copy_in e s t sp ua len copied bytes = copy_in e s1 t1 sp ua len (copied + n) (bytes @ bs1)"
        by (subst copy_in.simps) (simp add: True R(1) Let_def False n_def[symmetric] bs1_def)
      obtain r bs s' t' vm' P' where IH: "copy_in e s1 t1 sp ua len (copied + n) (bytes @ bs1) = Some (r, (bytes @ bs1) @ bs, s', t')"
        "isolated e R sp (s1, vm1, P1) (s', vm', P')" "reads_kept (s1, vm1, P1) (s', vm', P')"
        "r = -1 \<or> r = 0 \<and> length bs = unat (len - (copied + n)) \<and> (\<forall>k < length bs. user_byte s' vm' (ua + (copied + n) + of_nat k) = Some (bs ! k))"
        using less.hyps[OF A(3) isolated_live[OF iso(1)] A(1)] by blast
      have first: "user_byte s' vm' (?c + of_nat k) = Some (bs1 ! k)" if "k < unat n" for k
        using chunk_read[OF mp(1) that A(6), of s1] IH(3) by (simp add: reads_kept_def bs1_def mp(2))
      have "user_byte s' vm' (?c + of_nat k) = Some ((bs1 @ bs) ! k)" if "r = 0" "k < unat n + length bs" for k
      proof (cases "k < unat n")
        case True
        then show ?thesis using first len1 by (simp add: nth_append)
      next
        case False
        then obtain j where j: "k = unat n + j" by (metis le_Suc_ex not_less)
        then have "?c + of_nat k = ua + (copied + n) + of_nat j" by (simp add: add.assoc)
        moreover have "user_byte s' vm' (ua + (copied + n) + of_nat j) = Some (bs ! j)" using IH(4) that j by auto
        ultimately show ?thesis using len1 j by (simp only: nth_append) simp
      qed
      then show ?thesis
        using step IH(1,4) isolated_trans[OF iso(1) IH(2)] reads_kept_trans[OF iso(2) IH(3)] A(2,5) len1
        by (intro exI[of _ r] exI[of _ "bs1 @ bs"] exI[of _ s'] exI[of _ t'] exI[of _ vm'] exI[of _ P']) auto
    qed
  qed
qed

definition written :: "u64 \<Rightarrow> u8 list \<Rightarrow> machine \<times> arm64_user_vm \<times> u64 set \<Rightarrow> machine \<times> arm64_user_vm \<times> u64 set \<Rightarrow> bool" where
  "written c bs = (\<lambda>(s, vm, P) (s', vm', P'). \<forall>a. if unat (a - c) < length bs then user_byte s' vm' a = Some (bs ! unat (a - c))
     else \<forall>b. user_byte s vm a = Some b \<longrightarrow> user_byte s' vm' a = Some b)"

lemma written_nil: "written c [] x x"
  by (simp add: written_def split: prod.splits)

lemma written_reads: "reads_kept x y \<Longrightarrow> written c bs y z \<Longrightarrow> written c bs x z"
  unfolding written_def reads_kept_def by (auto split: prod.splits if_splits)

lemma written_append:
  assumes "written c bs x y" "written (c + of_nat (length bs)) cs y z" "length bs + length cs < 2 ^ 64"
  shows "written c (bs @ cs) x z"
proof -
  obtain s vm P s1 vm1 P1 s2 vm2 P2 where [simp]: "x = (s, vm, P)" "y = (s1, vm1, P1)" "z = (s2, vm2, P2)" by (metis surj_pair)
  have u: "unat (of_nat (length bs) :: u64) = length bs" using assms(3) by (simp add: unat_of_nat64)
  have "a - (c + of_nat (length bs)) = (a - c) - of_nat (length bs)" for a by (simp add: algebra_simps)
  then have d: "unat (a - (c + of_nat (length bs))) = (if length bs \<le> unat (a - c) then unat (a - c) - length bs else 2 ^ 64 + unat (a - c) - length bs)" for a
    by (simp only: unat_minus_wrap u)
  have "if unat (a - c) < length (bs @ cs) then user_byte s2 vm2 a = Some ((bs @ cs) ! unat (a - c))
     else \<forall>b. user_byte s vm a = Some b \<longrightarrow> user_byte s2 vm2 a = Some b" for a
    using assms(1)[unfolded written_def, simplified, rule_format, of a] assms(2)[unfolded written_def, simplified, rule_format, of a] assms(3) d[of a]
    by (auto simp: nth_append split: if_splits)
  then show ?thesis by (simp add: written_def)
qed

lemma copy_out_ok:
  assumes "live_space e s sp vm P R" "copied \<le> len" "length bytes = unat (len - copied)"
  shows "\<exists>r s' t' vm' P'. copy_out e s t sp ua len copied bytes = Some (r, s', t') \<and> isolated e R sp (s, vm, P) (s', vm', P') \<and>
    (r = -1 \<or> r = 0 \<and> written (ua + copied) bytes (s, vm, P) (s', vm', P'))"
  using assms
proof (induction "unat (len - copied)" arbitrary: s t vm P copied bytes rule: less_induct)
  case less
  note live = less.prems(1)
  show ?case
  proof (cases "copied < len")
    case False
    then have "len - copied = 0" using less.prems(2) by simp
    then have "bytes = []" using less.prems(3) by simp
    then show ?thesis using False isolated_refl[OF live] written_nil by (subst copy_out.simps) fastforce
  next
    case True
    let ?c = "ua + copied"
    define n where "n = copy_chunk ?c (len - copied)"
    note A = copy_advance[OF True, of ?c, folded n_def]
    obtain ph s1 t1 vm1 P1 where R: "resolve_user_page e s t sp (?c AND PAGE_MASK) True = Some (ph, s1, t1)"
      "prepared e R sp (?c AND PAGE_MASK) True ph (s, vm, P) (s1, vm1, P1)"
      by (rule resolve_ok[OF live page_masked])
    have iso: "isolated e R sp (s, vm, P) (s1, vm1, P1)" using R(2) by (auto simp: prepared_def)
    show ?thesis
    proof (cases "ph = 0")
      case z: True
      then have "copy_out e s t sp ua len copied bytes = Some (-1, s1, t1)"
        by (subst copy_out.simps) (simp add: True R(1) Let_def)
      then show ?thesis using iso by blast
    next
      case False
      then obtain mp where mp: "lookup_map vm1 (?c AND PAGE_MASK) = Some mp" "ph = physical_address mp" and kept: "reads_kept (s, vm, P) (s1, vm1, P1)"
        using R(2) by (auto simp: prepared_def)
      let ?now = "take (unat n) bytes" and ?later = "drop (unat n) bytes"
      define s2 where "s2 = set_pmem s1 (store_bytes (pmem (phys s1)) (ph + (?c AND PAGE_OFFSET_MASK)) ?now)"
      have len1: "length ?now = unat n" "length ?now + unat (?c AND PAGE_OFFSET_MASK) \<le> 4096" using A(5,6) less.prems(3) by simp_all
      have S: "isolated e R sp (s1, vm1, P1) (s2, vm1, P1)"
        unfolding s2_def mp(2) by (rule chunk_store(1)[OF isolated_live[OF iso] mp(1) len1(2)])
      have S2: "user_byte s2 vm1 a = (if unat (a - ?c) < length ?now then Some (?now ! unat (a - ?c)) else user_byte s1 vm1 a)" for a
        unfolding s2_def mp(2) by (rule chunk_store(2)[OF isolated_live[OF iso] mp(1) len1(2)])
      have w1: "written ?c ?now (s, vm, P) (s2, vm1, P1)"
        by (rule written_reads[OF kept]) (simp add: written_def S2)
      have step: "copy_out e s t sp ua len copied bytes = copy_out e s2 t1 sp ua len (copied + n) ?later"
        by (subst copy_out.simps) (simp add: True R(1) Let_def False n_def[symmetric] s2_def)
      have len2: "length ?later = unat (len - (copied + n))" using A(2) less.prems(3) by simp
      obtain r s' t' vm' P' where IH: "copy_out e s2 t1 sp ua len (copied + n) ?later = Some (r, s', t')"
        "isolated e R sp (s2, vm1, P1) (s', vm', P')" "r = -1 \<or> r = 0 \<and> written (ua + (copied + n)) ?later (s2, vm1, P1) (s', vm', P')"
        using less.hyps[OF A(3) isolated_live[OF S] A(1) len2] by blast
      have "written ?c bytes (s, vm, P) (s', vm', P')" if "r = 0"
        using written_append[OF w1, of ?later "(s', vm', P')"] IH(3) that len1(1) less.prems(3) unat64_less[of "len - copied"]
        by (simp add: add.assoc)
      then show ?thesis using step IH(1,3) isolated_trans[OF isolated_trans[OF iso S] IH(2)] by auto
    qed
  qed
qed

subsection \<open>Properties\<close>

text \<open>C35. \<open>copy_from_user\<close> always returns. When it succeeds the range was readable user memory and the buffer holds, byte by
  byte, what the process reads at those addresses. In every case all addresses the process could read before
  still read the same, and no allocated page that the process does not map is touched.\<close>

theorem copy_from_user_correct:
  assumes "live_space e s sp vm P R"
  shows "\<exists>r bs s' t' vm' P'. copy_from_user e kimg s t sp from n = Some (r, bs, s', t') \<and>
    isolated e R sp (s, vm, P) (s', vm', P') \<and> reads_kept (s, vm, P) (s', vm', P') \<and>
    (r = -1 \<or> r = 0 \<and> vm_validate_user_range kimg s sp from n VMA_READ \<and> length bs = unat n \<and>
      (\<forall>k < unat n. user_byte s' vm' (from + of_nat k) = Some (bs ! k)))"
proof (cases "n = 0 \<or> \<not> vm_validate_user_range kimg s sp from n VMA_READ")
  case True
  then show ?thesis using isolated_refl[OF assms] reads_kept_refl by (fastforce simp: copy_from_user_def)
next
  case False
  then have run: "copy_from_user e kimg s t sp from n = copy_in e s t sp from n 0 []"
    using live_spaceD(1)[OF assms] by (simp add: copy_from_user_def)
  show ?thesis unfolding run using copy_in_ok[OF assms, of 0 n t "from" "[]"] False by simp metis
qed

theorem copy_from_user_correct_witness:
  "\<exists>h r bs s' t' vm' P'. live_space demo_platform (demo_run h) 0x7000 demo_run_vm {0x3000, 0x4000, 0x5000} {} \<and>
     copy_from_user demo_platform (0, 0) (demo_run h) \<lparr>page_faults = 0, cow_faults = 0, stack_faults = 0, lazy_faults = 0\<rparr> 0x7000 0x400FF0 32 =
       Some (r, bs, s', t') \<and> live_space demo_platform s' 0x7000 vm' P' {} \<and> (r = -1 \<or> length bs = 32)"
proof -
  obtain h where h: "live_space demo_platform (demo_run h) 0x7000 demo_run_vm {0x3000, 0x4000, 0x5000} {}"
    using demo_run_live by blast
  show ?thesis
    using h copy_from_user_correct[OF h, of "(0, 0)" "\<lparr>page_faults = 0, cow_faults = 0, stack_faults = 0, lazy_faults = 0\<rparr>" "0x400FF0" 32]
    by (fastforce simp: isolated_def)
qed



end
