(* ===== verification/Shm_Correct.thy ===== *)
theory Shm_Correct
  imports UserFault_Correct
begin

text \<open>
  The table of shared-memory objects under any sequence of its operations: the page accounting is exact and bounded,
  no page belongs to two objects, names are unique, an object that nobody can reach any more is gone, and the
  names and sizes change as the calls say.
\<close>

subsection \<open>Pages\<close>

lemma shm_allocate_owns:
  assumes "owns e (phys s) P"
  shows "\<exists>ps ph. shm_allocate e s n = (ps, s\<lparr>phys := ph\<rparr>) \<and> owns e ph (P \<union> set ps) \<and> distinct ps \<and> set ps \<inter> P = {} \<and> length ps \<le> n"
  using assms
proof (induction n arbitrary: s P)
  case 0
  then show ?case by (intro exI[of _ "[]"] exI[of _ "phys s"]) simp
next
  case (Suc n)
  show ?case
  using Suc.prems proof (cases rule: allocate_page_cases)
    case none
    then show ?thesis using Suc.prems by (intro exI[of _ "[]"] exI[of _ "phys s"]) simp
  next
    case (some p ph)
    obtain ps ph' where I: "shm_allocate e (s\<lparr>phys := ph\<rparr>) n = (ps, s\<lparr>phys := ph\<rparr>\<lparr>phys := ph'\<rparr>)"
      "owns e ph' (insert p P \<union> set ps)" "distinct ps" "set ps \<inter> insert p P = {}" "length ps \<le> n"
      using Suc.IH[of "s\<lparr>phys := ph\<rparr>" "insert p P"] some(2) by auto
    have "insert p P \<union> set ps = P \<union> set (p # ps)" by auto
    then show ?thesis using I some(1,3,4)
      by (intro exI[of _ "p # ps"] exI[of _ ph']) simp
  qed
qed

lemma free_page_list_owns:
  assumes "owns e (phys s) P" "set ps \<subseteq> P" "distinct ps"
  shows "\<exists>ph P'. free_page_list e s ps = s\<lparr>phys := ph\<rparr> \<and> owns e ph P' \<and> P - set ps \<subseteq> P'"
  using assms
proof (induction ps arbitrary: s P)
  case Nil
  then show ?case by (intro exI[of _ "phys s"] exI[of _ P]) (simp add: free_page_list_def)
next
  case (Cons p ps)
  obtain P1 where P1: "owns e (free_page e (phys s) p) P1" "P - {p} \<subseteq> P1" using free_page_cases[OF Cons.prems(1), of p] Cons.prems(2) by auto
  obtain ph P' where "free_page_list e (free_page_at e s p) ps = (free_page_at e s p)\<lparr>phys := ph\<rparr>" "owns e ph P'" "P1 - set ps \<subseteq> P'"
    using Cons.IH[of "free_page_at e s p" P1] P1 Cons.prems(2,3) by (auto simp: free_page_at_def)
  then show ?case using P1(2) by (intro exI[of _ ph] exI[of _ P']) (auto simp: free_page_list_def free_page_at_def)
qed

subsection \<open>The invariant of the table\<close>

definition pages_of :: "shm_object list \<Rightarrow> u64 list" where
  "pages_of objs = concat (map shm_phys objs)"

definition linked :: "shm_object \<Rightarrow> bool" where
  "linked ob \<longleftrightarrow> shm_used ob \<and> \<not> shm_unlinked ob"

definition obj_ok :: "nat \<Rightarrow> shm_object \<Rightarrow> bool" where
  "obj_ok k ob \<longleftrightarrow> (\<not> shm_used ob \<longrightarrow> ob = zero_shm) \<and> unat (shm_size ob) = 4096 * length (shm_phys ob) \<and>
     length (shm_phys ob) \<le> unat (shm_capacity ob) \<and> (shm_phys_ptr ob = 0 \<longrightarrow> shm_capacity ob = 0) \<and>
     unat (shm_handles ob) \<le> k \<and> unat (shm_mappings ob) \<le> k"

definition reachable :: "shm_object \<Rightarrow> bool" where
  "reachable ob \<longleftrightarrow> \<not> shm_unlinked ob \<or> shm_mappings ob \<noteq> 0 \<or> shm_handles ob \<noteq> 0"

definition names_ok :: "shm_object list \<Rightarrow> bool" where
  "names_ok objs \<longleftrightarrow> (\<forall>i < length objs. \<forall>j < length objs. linked (objs ! i) \<longrightarrow> linked (objs ! j) \<longrightarrow>
     shm_name (objs ! i) = shm_name (objs ! j) \<longrightarrow> i = j)"

definition store_ok :: "platform \<Rightarrow> machine \<Rightarrow> bool" where
  "store_ok e s \<longleftrightarrow> objs_heap (kheap s) (shm_objects s) {} \<and> unat (shm_global_pages s) = length (pages_of (shm_objects s)) \<and>
     length (pages_of (shm_objects s)) \<le> 65536 \<and> distinct (pages_of (shm_objects s)) \<and>
     (\<exists>P. owns e (phys s) P \<and> set (pages_of (shm_objects s)) \<subseteq> P)"

definition shm_ok :: "platform \<Rightarrow> nat \<Rightarrow> machine \<Rightarrow> bool" where
  "shm_ok e k s \<longleftrightarrow> length (shm_objects s) = SHM_MAX_OBJECTS \<and> store_ok e s \<and> (\<forall>ob \<in> set (shm_objects s). obj_ok k ob) \<and>
     (\<forall>ob \<in> set (shm_objects s). reachable ob) \<and> names_ok (shm_objects s)"

lemma pages_upd:
  assumes "i < length objs"
  obtains xs ys where "pages_of objs = xs @ shm_phys (objs ! i) @ ys" "\<And>ob. pages_of (objs[i := ob]) = xs @ shm_phys ob @ ys"
proof
  show "pages_of objs = pages_of (take i objs) @ shm_phys (objs ! i) @ pages_of (drop (Suc i) objs)"
    using id_take_nth_drop[OF assms] unfolding pages_of_def by (metis concat.simps(2) concat_append list.simps(9) map_append)
  show "pages_of (objs[i := ob]) = pages_of (take i objs) @ shm_phys ob @ pages_of (drop (Suc i) objs)" for ob
    by (simp add: upd_conv_take_nth_drop[OF assms] pages_of_def)
qed

text \<open>An update that leaves the storage of the object alone.\<close>

lemma store_ok_same:
  assumes "store_ok e s" "i < length (shm_objects s)" "shm_phys ob = shm_phys (shm_at s i)" "shm_phys_ptr ob = shm_phys_ptr (shm_at s i)"
    "shm_capacity ob = shm_capacity (shm_at s i)"
  shows "store_ok e (set_shm s i ob)"
proof -
  have "pages_of ((shm_objects s)[i := ob]) = pages_of (shm_objects s)"
    using assms(2,3) by (metis pages_upd shm_at_def)
  then show ?thesis using assms objs_heap_same[of "kheap s" "shm_objects s" "{}" ob i] by (simp add: store_ok_def shm_at_def)
qed

subsection \<open>Resizing\<close>

lemma resize_pages:
  assumes "\<not> SHM_GLOBAL_MAX_BYTES < sz"
  defines "z \<equiv> align_up sz PAGE_SIZE" and "n \<equiv> ucast (align_up sz PAGE_SIZE div PAGE_SIZE) :: u32"
  shows "unat z = 4096 * unat n" "unat n \<le> 65536"
proof -
  have s: "unat sz \<le> 0x10000000" using assms(1) by (simp add: SHM_GLOBAL_MAX_BYTES_def word_le_nat_alt not_less)
  have z: "unat z = (unat sz + 4095) div 4096 * 4096" using unat_align_up[where x = sz and k = 12] s by (simp add: z_def PAGE_SIZE_def)
  have d: "unat (z div PAGE_SIZE) = (unat sz + 4095) div 4096" by (simp add: unat_div z PAGE_SIZE_def)
  have b: "(unat sz + 4095) div 4096 \<le> 65536" using s by simp
  have n: "unat n = (unat sz + 4095) div 4096"
    unfolding n_def z_def[symmetric] using d b by (simp add: unsigned_ucast_eq take_bit_nat_eq_self)
  show "unat z = 4096 * unat n" "unat n \<le> 65536" using z n b by auto
qed

lemma page_count:
  assumes "store_ok e s" "i < length (shm_objects s)"
  shows "unat (item_count (shm_phys (shm_at s i))) = length (shm_phys (shm_at s i))"
    "length (shm_phys (shm_at s i)) \<le> unat (shm_global_pages s)" "unat (shm_global_pages s) \<le> 65536"
proof -
  obtain xs ys where "pages_of (shm_objects s) = xs @ shm_phys (shm_objects s ! i) @ ys" by (rule pages_upd[OF assms(2)])
  then show "length (shm_phys (shm_at s i)) \<le> unat (shm_global_pages s)" using assms(1) by (simp add: store_ok_def shm_at_def)
  then show "unat (item_count (shm_phys (shm_at s i))) = length (shm_phys (shm_at s i))" "unat (shm_global_pages s) \<le> 65536"
    using assms(1) by (simp_all add: store_ok_def item_count_def unsigned_of_nat take_bit_nat_eq_self)
qed

text \<open>The state of an object after a resize to \<open>z\<close> bytes.\<close>

definition resized :: "shm_object \<Rightarrow> u64 \<Rightarrow> shm_object \<Rightarrow> bool" where
  "resized ob z ob' \<longleftrightarrow> (\<exists>ps c p. ob' = ob\<lparr>shm_phys := ps, shm_size := z, shm_phys_ptr := p, shm_capacity := c\<rparr> \<and>
     unat z = 4096 * length ps \<and> length ps \<le> unat c \<and> (p = 0 \<longrightarrow> c = 0))"

lemma shrink_ok:
  assumes ok: "store_ok e s" and i: "i < length (shm_objects s)" and n: "unat n < length (shm_phys (shm_at s i))"
  defines "ob \<equiv> shm_at s i"
  defines "s1 \<equiv> free_page_list e s (drop (unat n) (shm_phys ob))"
  shows "store_ok e (set_shm (s1\<lparr>shm_global_pages := shm_global_pages s1 - (item_count (shm_phys ob) - n)\<rparr>) i
      (ob\<lparr>shm_phys := take (unat n) (shm_phys ob), shm_size := z\<rparr>))"
    "shm_objects s1 = shm_objects s" "shm_next_id s1 = shm_next_id s"
proof -
  obtain P where P: "owns e (phys s) P" "set (pages_of (shm_objects s)) \<subseteq> P" using ok by (auto simp: store_ok_def)
  obtain xs ys where X: "pages_of (shm_objects s) = xs @ shm_phys ob @ ys" "\<And>ob'. pages_of ((shm_objects s)[i := ob']) = xs @ shm_phys ob' @ ys"
    using pages_upd[OF i] unfolding ob_def shm_at_def by blast
  define t d where "t = take (unat n) (shm_phys ob)" and "d = drop (unat n) (shm_phys ob)"
  have sp: "shm_phys ob = t @ d" "length t = unat n" using n by (simp_all add: t_def d_def ob_def)
  have dist: "distinct (xs @ (t @ d) @ ys)" using ok X(1) sp(1) by (simp add: store_ok_def)
  have "set d \<subseteq> P" using P(2) X(1) sp(1) by auto
  moreover have "distinct d" using dist by simp
  ultimately obtain ph P' where F: "s1 = s\<lparr>phys := ph\<rparr>" "owns e ph P'" "P - set d \<subseteq> P'"
    unfolding s1_def d_def[symmetric] using free_page_list_owns[OF P(1)] by blast
  then show "shm_objects s1 = shm_objects s" "shm_next_id s1 = shm_next_id s" by simp_all
  note C = page_count[OF ok i, folded ob_def]
  have cnt: "unat (item_count (shm_phys ob) - n) = length (shm_phys ob) - unat n"
    using C n by (subst unat_sub) (auto simp: word_le_nat_alt ob_def)
  have g: "unat (shm_global_pages s - (item_count (shm_phys ob) - n)) = unat (shm_global_pages s) - (length (shm_phys ob) - unat n)"
    using C cnt by (subst unat_sub) (auto simp: word_le_nat_alt)
  have "set (xs @ t @ ys) \<subseteq> P'" using P(2) X(1) F(3) dist sp(1) by auto
  moreover have "distinct (xs @ t @ ys)" using dist by auto
  moreover have "unat (shm_global_pages s) = length xs + length (shm_phys ob) + length ys" "length xs + length (shm_phys ob) + length ys \<le> 65536"
    using ok X(1) by (simp_all add: store_ok_def)
  moreover have "objs_heap (kheap s) ((shm_objects s)[i := ob\<lparr>shm_phys := t, shm_size := z\<rparr>]) {}"
    using ok objs_heap_same[of "kheap s" "shm_objects s" "{}" _ i] by (simp add: store_ok_def ob_def shm_at_def)
  ultimately show "store_ok e (set_shm (s1\<lparr>shm_global_pages := shm_global_pages s1 - (item_count (shm_phys ob) - n)\<rparr>) i
      (ob\<lparr>shm_phys := take (unat n) (shm_phys ob), shm_size := z\<rparr>))"
    using F(2) n g sp by (auto simp: store_ok_def F(1) X(2) ob_def t_def)
qed

lemma objs_heap_adopt:
  assumes heap: "objs_heap h objs {(p, m)}" and i: "i < length objs" "shm_phys_ptr (objs ! i) = 0" and ob: "obj_block ob = (p, m)" "p \<noteq> 0"
  shows "objs_heap h (objs[i := ob]) {}"
proof -
  obtain S where S: "heap_set h S" "(p, m) \<in> S" "\<And>ob. ob \<in> set objs \<Longrightarrow> shm_phys_ptr ob \<noteq> 0 \<Longrightarrow> obj_block ob \<in> S"
    using heap by (auto simp: objs_heap_def)
  have ptr: "shm_phys_ptr ob = p" using ob(1) by (simp add: obj_block_def)
  have "p \<notin> set (obj_ptrs objs)" "distinct (obj_ptrs objs)" using heap by (auto simp: objs_heap_def)
  moreover have "obj_ptrs objs = obj_ptrs (take i objs) @ obj_ptrs (drop (Suc i) objs)"
    by (subst id_take_nth_drop[OF i(1)]) (simp add: obj_ptrs_split i(2))
  moreover have "obj_ptrs (objs[i := ob]) = obj_ptrs (take i objs) @ p # obj_ptrs (drop (Suc i) objs)"
    by (simp add: upd_conv_take_nth_drop[OF i(1)] obj_ptrs_split ptr ob(2))
  ultimately have "distinct (obj_ptrs (objs[i := ob]))" by auto
  moreover have "obj_block o' \<in> S" if "o' \<in> set (objs[i := ob])" "shm_phys_ptr o' \<noteq> 0" for o'
    using that S(2,3) ob(1) set_update_subset_insert[of objs i ob] by fastforce
  ultimately show ?thesis using S(1) by (auto simp: objs_heap_def)
qed

text \<open>Getting room for \<open>n\<close> pages: the vector as it is, a new block beside it, or no memory.\<close>

lemma reserve_vector:
  assumes heap: "objs_heap h objs {}" and i: "i < length objs" and n: "unat (n :: u32) \<le> 65536"
  defines "ob \<equiv> objs ! i"
  obtains (same) "\<not> shm_capacity ob < n"
  | (none) "shm_capacity ob < n" "kcalloc h (ucast n) 8 = Some (h, 0)"
  | (new) h1 p where "shm_capacity ob < n" "kcalloc h (ucast n) 8 = Some (h1, p)" "p \<noteq> 0" "p \<noteq> shm_phys_ptr ob"
      "objs_heap h1 objs {(p, ucast n * 8)}"
proof (cases "shm_capacity ob < n")
  case True
  have "unat (ucast n * 8 :: u64) \<le> unat n * 8"
    using unat_ucast32[of n] by (simp add: unat_word_ariths)
  then have sz: "unat (ucast n * 8 :: u64) + 32 \<le> 2 ^ 64" using n by simp
  show ?thesis
    using objs_heap_client_zalloc[OF heap sz]
  proof (elim disjE exE conjE)
    assume "kzalloc h (ucast n * 8) = Some (h, 0)"
    then show ?thesis using True none by (simp add: kcalloc_kzalloc)
  next
    fix h1 p assume a: "kzalloc h (ucast n * 8) = Some (h1, p)" "p \<noteq> 0" "objs_heap h1 objs {(p, ucast n * 8)}"
    have "p \<notin> set (obj_ptrs objs)" using a(3) by (auto simp: objs_heap_def)
    then have "p \<noteq> shm_phys_ptr ob" using a(2) i by (auto simp: obj_ptrs_def ob_def)
    then show ?thesis using True new a by (simp add: kcalloc_kzalloc)
  qed
qed (rule same)

lemma free_new_vector: "objs_heap h objs {(p, m)} \<Longrightarrow> \<exists>h'. kfree h p = Some h' \<and> objs_heap h' objs {}"
  using objs_heap_client_free[of h objs p m "{}"] by simp

lemma grown_store:
  assumes ok: "store_ok e s" and i: "i < length (shm_objects s)" and P: "owns e (phys s) P" "set (pages_of (shm_objects s)) \<subseteq> P"
    and ps: "owns e ph (P \<union> set ps)" "distinct ps" "set ps \<inter> P = {}" and g: "unat g = unat (shm_global_pages s) + length ps" "unat g \<le> 65536"
    and ob: "shm_phys ob = shm_phys (shm_at s i) @ ps" and heap: "objs_heap h ((shm_objects s)[i := ob]) {}"
  shows "store_ok e (set_shm (s\<lparr>phys := ph, kheap := h, shm_global_pages := g\<rparr>) i ob)"
proof -
  obtain xs ys where X: "pages_of (shm_objects s) = xs @ shm_phys (shm_at s i) @ ys" "\<And>ob'. pages_of ((shm_objects s)[i := ob']) = xs @ shm_phys ob' @ ys"
    using pages_upd[OF i] unfolding shm_at_def by blast
  have "distinct (xs @ shm_phys (shm_at s i) @ ys)" "set xs \<subseteq> P" "set ys \<subseteq> P" "set (shm_phys (shm_at s i)) \<subseteq> P"
    using ok X(1) P(2) by (auto simp: store_ok_def)
  moreover have "unat (shm_global_pages s) = length xs + length (shm_phys (shm_at s i)) + length ys" using ok X(1) by (simp add: store_ok_def)
  moreover have "set (xs @ shm_phys ob @ ys) \<subseteq> P \<union> set ps" using calculation(2-4) ob by auto
  moreover have "distinct (xs @ shm_phys ob @ ys)" using calculation(1-4) ob ps(2,3) by (simp, blast)
  ultimately show ?thesis using heap ps(1) g ob by (auto simp: store_ok_def X(2))
qed

text \<open>The vector that a resize has reserved, \<open>v\<close> in the heap \<open>h\<close>, can be given back or take the place of the old one.\<close>

definition vector_ready :: "kheap \<Rightarrow> shm_object list \<Rightarrow> nat \<Rightarrow> u32 \<Rightarrow> u64 \<Rightarrow> bool" where
  "vector_ready h objs i n v \<longleftrightarrow> (let old = shm_phys_ptr (objs ! i) in
     (if v = old then objs_heap h objs {} \<and> n \<le> shm_capacity (objs ! i) else v \<noteq> 0 \<and> objs_heap h objs {(v, ucast n * 8)}))"

lemma vector_back:
  "vector_ready h objs i n v \<Longrightarrow> \<exists>h'. (if v \<noteq> shm_phys_ptr (objs ! i) then kfree h v else Some h) = Some h' \<and> objs_heap h' objs {}"
  using free_new_vector by (auto simp: vector_ready_def Let_def)

lemma vector_swap:
  assumes "vector_ready h objs i n v" "i < length objs" "shm_phys_ptr ob = v"
    "shm_capacity ob = (if v \<noteq> shm_phys_ptr (objs ! i) then n else shm_capacity (objs ! i))"
  shows "\<exists>h'. (if v \<noteq> shm_phys_ptr (objs ! i) then kfree h (shm_phys_ptr (objs ! i)) else Some h) = Some h' \<and> objs_heap h' (objs[i := ob]) {}"
proof (cases "v = shm_phys_ptr (objs ! i)")
  case True
  then show ?thesis using assms objs_heap_same[of h objs "{}" ob i] by (simp add: vector_ready_def)
next
  case False
  then have v: "v \<noteq> 0" "objs_heap h objs {(v, ucast n * 8)}" using assms(1) by (auto simp: vector_ready_def)
  obtain h' where h': "kfree h (shm_phys_ptr (objs ! i)) = Some h'" "objs_heap h' (objs[i := ob\<lparr>shm_phys_ptr := 0\<rparr>]) {(v, ucast n * 8)}"
    using objs_heap_free[OF v(2) assms(2), of "ob\<lparr>shm_phys_ptr := 0\<rparr>"] by auto
  have "objs_heap h' (objs[i := ob\<lparr>shm_phys_ptr := 0\<rparr>, i := ob]) {}"
    using assms False v(1) by (intro objs_heap_adopt[OF h'(2)]) (auto simp: obj_block_def)
  then show ?thesis using False h'(1) by simp
qed

text \<open>The growing part of \<open>shm_resize_locked\<close> once there is a vector.\<close>

lemma grow_pages:
  assumes ok: "store_ok e s" and i: "i < length (shm_objects s)" and ob: "ob = shm_at s i" "obj_ok k ob"
    and n: "length (shm_phys ob) < unat n" and z: "unat z = 4096 * unat n"
    and room: "unat (shm_global_pages s) + unat m \<le> 65536" and m: "unat m = unat n - length (shm_phys ob)"
    and v: "vector_ready h (shm_objects s) i n v"
  shows "\<exists>r s'. (let (ps, s1) = shm_allocate e (s\<lparr>kheap := h\<rparr>) (unat m) in
        if length ps \<noteq> unat m then do {
          let s2 = free_page_list e s1 (rev ps);
          h2 \<leftarrow> (if v \<noteq> shm_phys_ptr ob then kfree (kheap s2) v else Some (kheap s2));
          Some (neg ENOMEM, s2\<lparr>kheap := h2\<rparr>)
        } else do {
          h2 \<leftarrow> (if v \<noteq> shm_phys_ptr ob then kfree (kheap s1) (shm_phys_ptr ob) else Some (kheap s1));
          Some (0, set_shm (s1\<lparr>kheap := h2, shm_global_pages := shm_global_pages s1 + m\<rparr>) i
                     (ob\<lparr>shm_phys := shm_phys ob @ ps, shm_size := z, shm_phys_ptr := v,
                          shm_capacity := (if v \<noteq> shm_phys_ptr ob then n else shm_capacity ob)\<rparr>))
        }) = Some (r, s') \<and> store_ok e s' \<and> shm_next_id s' = shm_next_id s \<and>
     (r < 0 \<and> shm_objects s' = shm_objects s \<or> r = 0 \<and> (\<exists>ob'. resized ob z ob' \<and> shm_objects s' = (shm_objects s)[i := ob']))"
proof -
  obtain P where P: "owns e (phys s) P" "set (pages_of (shm_objects s)) \<subseteq> P" using ok by (auto simp: store_ok_def)
  obtain ps ph where A: "shm_allocate e (s\<lparr>kheap := h\<rparr>) (unat m) = (ps, s\<lparr>kheap := h, phys := ph\<rparr>)" "owns e ph (P \<union> set ps)" "distinct ps"
    "set ps \<inter> P = {}" "length ps \<le> unat m"
    using shm_allocate_owns[of e "s\<lparr>kheap := h\<rparr>" P "unat m"] P(1) by auto
  have at: "shm_objects s ! i = ob" using ob(1) by (simp add: shm_at_def)
  show ?thesis
  proof (cases "length ps = unat m")
    case False
    obtain ph' P' where F: "free_page_list e (s\<lparr>kheap := h, phys := ph\<rparr>) (rev ps) = s\<lparr>kheap := h, phys := ph'\<rparr>" "owns e ph' P'" "P \<subseteq> P'"
      using free_page_list_owns[of e "s\<lparr>kheap := h, phys := ph\<rparr>" "P \<union> set ps" "rev ps"] A(2,3,4) by auto
    obtain h' where h': "(if v \<noteq> shm_phys_ptr ob then kfree h v else Some h) = Some h'" "objs_heap h' (shm_objects s) {}"
      using vector_back[OF v] at by auto
    have "store_ok e (s\<lparr>phys := ph', kheap := h'\<rparr>)" using ok h'(2) F(2,3) P(2) by (auto simp: store_ok_def)
    then show ?thesis using False h'(1) unfolding A(1) Let_def prod.case F(1) by (cases "v = shm_phys_ptr ob") (simp_all add: neg_def)
  next
    case True
    let ?ob' = "ob\<lparr>shm_phys := shm_phys ob @ ps, shm_size := z, shm_phys_ptr := v, shm_capacity := (if v \<noteq> shm_phys_ptr ob then n else shm_capacity ob)\<rparr>"
    obtain h' where h': "(if v \<noteq> shm_phys_ptr ob then kfree h (shm_phys_ptr ob) else Some h) = Some h'" "objs_heap h' ((shm_objects s)[i := ?ob']) {}"
      using vector_swap[OF v i, of ?ob'] at by auto
    have g: "unat (shm_global_pages s + m) = unat (shm_global_pages s) + length ps" "unat (shm_global_pages s + m) \<le> 65536"
      using room True by (auto simp: unat_word_ariths)
    have "store_ok e (set_shm (s\<lparr>phys := ph, kheap := h', shm_global_pages := shm_global_pages s + m\<rparr>) i ?ob')"
      using ob(1) h'(2) by (intro grown_store[OF ok i P A(2-4) g]) simp_all
    moreover have "resized ob z ?ob'" unfolding resized_def
      using v n m True z ob(2)
      by (intro exI[of _ "shm_phys ob @ ps"] exI[of _ "if v \<noteq> shm_phys_ptr ob then n else shm_capacity ob"] exI[of _ v])
        (auto simp: vector_ready_def at obj_ok_def word_le_nat_alt Let_def split: if_splits)
    ultimately show ?thesis using True h'(1) unfolding A(1) Let_def prod.case by (cases "v = shm_phys_ptr ob") (simp_all, blast+)
  qed
qed

lemma resize_ok:
  assumes ok: "store_ok e s" and i: "i < length (shm_objects s)" and ob: "obj_ok k (shm_at s i)"
  shows "\<exists>r s'. shm_resize_locked e s i sz = Some (r, s') \<and> store_ok e s' \<and> shm_next_id s' = shm_next_id s \<and>
     (r < 0 \<and> shm_objects s' = shm_objects s \<or>
      r = 0 \<and> shm_used (shm_at s i) \<and> (\<exists>ob'. resized (shm_at s i) (align_up sz PAGE_SIZE) ob' \<and> shm_objects s' = (shm_objects s)[i := ob']))"
proof -
  define ob z where "ob = shm_at s i" and "z = align_up sz PAGE_SIZE"
  define n where "n = (ucast (z div PAGE_SIZE) :: u32)"
  note obk = assms(3)[folded ob_def] and C = page_count[OF ok i, folded ob_def]
  let ?old = "item_count (shm_phys ob)"
  note unf = shm_resize_locked_def ob_def[symmetric] n_def[symmetric] z_def[symmetric]
  show ?thesis unfolding ob_def[symmetric] z_def[symmetric]
  proof (cases "shm_used ob \<and> \<not> SHM_GLOBAL_MAX_BYTES < sz")
    case False
    then show "\<exists>r s'. shm_resize_locked e s i sz = Some (r, s') \<and> store_ok e s' \<and> shm_next_id s' = shm_next_id s \<and>
     (r < 0 \<and> shm_objects s' = shm_objects s \<or> r = 0 \<and> shm_used ob \<and> (\<exists>ob'. resized ob z ob' \<and> shm_objects s' = (shm_objects s)[i := ob']))"
      using ok by (auto simp: unf neg_def Let_def)
  next
    case True
    note Z = resize_pages[OF conjunct2[OF True], folded z_def, folded n_def]
    consider (same) "n = ?old" | (less) "n < ?old" "unat n < length (shm_phys ob)" | (more) "?old < n" "length (shm_phys ob) < unat n"
      using C(1) by (auto simp: word_less_nat_alt) (metis linorder_neqE_nat word_unat_eq_iff)
    then show "\<exists>r s'. shm_resize_locked e s i sz = Some (r, s') \<and> store_ok e s' \<and> shm_next_id s' = shm_next_id s \<and>
     (r < 0 \<and> shm_objects s' = shm_objects s \<or> r = 0 \<and> shm_used ob \<and> (\<exists>ob'. resized ob z ob' \<and> shm_objects s' = (shm_objects s)[i := ob']))"
    proof cases
      case same
      have "store_ok e (set_shm s i (ob\<lparr>shm_size := z\<rparr>))" by (rule store_ok_same[OF ok i]) (simp_all add: ob_def)
      moreover have "resized ob z (ob\<lparr>shm_size := z\<rparr>)" unfolding resized_def using obk Z(1) C(1) same
        by (intro exI[of _ "shm_phys ob"] exI[of _ "shm_capacity ob"] exI[of _ "shm_phys_ptr ob"]) (auto simp: obj_ok_def)
      ultimately show ?thesis using True same by (auto simp: unf Let_def)
    next
      case less
      note S = shrink_ok[OF ok i, folded ob_def, OF less(2)]
      have "resized ob z (ob\<lparr>shm_phys := take (unat n) (shm_phys ob), shm_size := z\<rparr>)" unfolding resized_def using obk Z(1) less(2)
        by (intro exI[of _ "take (unat n) (shm_phys ob)"] exI[of _ "shm_capacity ob"] exI[of _ "shm_phys_ptr ob"]) (auto simp: obj_ok_def)
      then show ?thesis using True less(1) ok S by (cases "shm_mappings ob = 0") (auto simp: unf Let_def neg_def)
    next
      case more
      have m: "unat (n - ?old) = unat n - length (shm_phys ob)" using C(1) more(2) by (subst unat_sub) (auto simp: word_le_nat_alt)
      have g: "unat (SHM_GLOBAL_MAX_PAGES - shm_global_pages s) = 65536 - unat (shm_global_pages s)"
        using C(3) by (subst unat_sub) (auto simp: word_le_nat_alt SHM_GLOBAL_MAX_PAGES_def)
      have heap: "objs_heap (kheap s) (shm_objects s) {}" using ok by (simp add: store_ok_def)
      show ?thesis
      proof (cases "SHM_GLOBAL_MAX_PAGES - shm_global_pages s < n - ?old")
        case full: True
        then show ?thesis using True more(1) ok by (auto simp: unf Let_def neg_def)
      next
        case room: False
        then have room': "unat (shm_global_pages s) + unat (n - ?old) \<le> 65536" using g C(3) by (simp add: word_less_nat_alt)
        note G = grow_pages[OF ok i ob_def obk more(2) Z(1) room' m]
        have nle: "n \<noteq> ?old" "\<not> n < ?old" using more(1) by auto
        show ?thesis
        using heap i Z(2) proof (cases rule: reserve_vector)
          case same
          then have "vector_ready (kheap s) (shm_objects s) i n (shm_phys_ptr ob)" using heap by (simp add: vector_ready_def ob_def shm_at_def)
          from G[OF this] show ?thesis using True room nle same by (simp add: unf Let_def shm_at_def[symmetric] split_beta cong: if_cong)
        next
          case none
          then show ?thesis using True room nle ok by (simp add: unf Let_def neg_def shm_at_def[symmetric])
        next
          case (new h1 p)
          then have "vector_ready h1 (shm_objects s) i n p" by (simp add: vector_ready_def)
          from G[OF this] show ?thesis using True room nle new by (simp add: unf Let_def shm_at_def[symmetric] split_beta cong: if_cong)
        qed
      qed
    qed
  qed
qed

subsection \<open>Giving up an object\<close>

lemma destroy_ok:
  assumes ok: "store_ok e s" and i: "i < length (shm_objects s)"
  shows "\<exists>s'. shm_try_destroy_locked e s i = Some s' \<and> store_ok e s' \<and> shm_next_id s' = shm_next_id s \<and>
    shm_objects s' = (if shm_used (shm_at s i) \<and> \<not> reachable (shm_at s i) then (shm_objects s)[i := zero_shm] else shm_objects s)"
proof (cases "shm_used (shm_at s i) \<and> \<not> reachable (shm_at s i)")
  case False
  then show ?thesis using ok by (auto simp: shm_try_destroy_locked_def reachable_def)
next
  case True
  define ob where "ob = shm_at s i"
  note C = page_count[OF ok i, folded ob_def]
  obtain P where P: "owns e (phys s) P" "set (pages_of (shm_objects s)) \<subseteq> P" using ok by (auto simp: store_ok_def)
  obtain xs ys where X: "pages_of (shm_objects s) = xs @ shm_phys ob @ ys" "\<And>ob'. pages_of ((shm_objects s)[i := ob']) = xs @ shm_phys ob' @ ys"
    using pages_upd[OF i] unfolding ob_def shm_at_def by blast
  have sub: "set (shm_phys ob) \<subseteq> P" "distinct (xs @ shm_phys ob @ ys)" "set xs \<subseteq> P" "set ys \<subseteq> P"
    using P(2) X(1) ok by (auto simp: store_ok_def)
  have "filter (\<lambda>p. p \<noteq> 0) (shm_phys ob) = shm_phys ob" using sub(1) owns_page(2)[OF P(1)] by (auto simp: filter_id_conv)
  moreover obtain ph P' where F: "free_page_list e s (shm_phys ob) = s\<lparr>phys := ph\<rparr>" "owns e ph P'" "P - set (shm_phys ob) \<subseteq> P'"
    using free_page_list_owns[OF P(1) sub(1)] sub(2) by auto
  moreover obtain h' where h': "kfree (kheap s) (shm_phys_ptr ob) = Some h'" "objs_heap h' ((shm_objects s)[i := zero_shm]) {}"
    using objs_heap_free[of "kheap s" "shm_objects s" "{}" i zero_shm] ok i by (auto simp: zero_shm_def shm_at_def store_ok_def ob_def)
  moreover have le: "item_count (shm_phys ob) \<le> shm_global_pages s" using C by (simp add: word_le_nat_alt)
  moreover have g: "unat (shm_global_pages s - item_count (shm_phys ob)) = length xs + length ys"
    using C(1) ok X(1) by (simp add: unat_sub[OF le] store_ok_def)
  moreover have "length xs + length ys \<le> 65536" using ok X(1) by (simp add: store_ok_def)
  moreover have "set (xs @ ys) \<subseteq> P'" using sub F(3) by auto
  moreover have "distinct (xs @ ys)" using sub(2) by auto
  moreover have "shm_phys zero_shm = []" by (simp add: zero_shm_def)
  ultimately show ?thesis using True
    by (auto simp: shm_try_destroy_locked_def shm_free_object_pages_def Let_def ob_def[symmetric] reachable_def store_ok_def X(2))
qed

subsection \<open>Names\<close>

definition ns :: "shm_object list \<Rightarrow> u8 list \<Rightarrow> u64 option" where
  "ns objs name = map_option shm_size (find (\<lambda>ob. linked ob \<and> shm_name ob = name) objs)"

lemma ns_Some:
  assumes "names_ok objs"
  shows "ns objs name = Some z \<longleftrightarrow> (\<exists>j < length objs. linked (objs ! j) \<and> shm_name (objs ! j) = name \<and> shm_size (objs ! j) = z)"
  (is "_ \<longleftrightarrow> ?R")
proof
  assume "ns objs name = Some z"
  then show ?R by (auto simp: ns_def find_Some_iff)
next
  assume ?R
  then obtain j where j: "j < length objs" "linked (objs ! j)" "shm_name (objs ! j) = name" "shm_size (objs ! j) = z" by blast
  have "\<forall>m < j. \<not> (linked (objs ! m) \<and> shm_name (objs ! m) = name)"
    using assms j unfolding names_ok_def by (metis less_trans nat_neq_iff)
  then have "find (\<lambda>ob. linked ob \<and> shm_name ob = name) objs = Some (objs ! j)" using j by (auto simp: find_Some_iff)
  then show "ns objs name = Some z" using j(4) by (simp add: ns_def)
qed

lemma ns_upd:
  assumes n: "names_ok objs" "names_ok (objs[i := ob])" and i: "i < length objs"
  shows "ns (objs[i := ob]) = (\<lambda>name. if linked ob \<and> shm_name ob = name then Some (shm_size ob)
     else if linked (objs ! i) \<and> shm_name (objs ! i) = name then None else ns objs name)"
proof
  fix name
  let ?r = "if linked ob \<and> shm_name ob = name then Some (shm_size ob)
     else if linked (objs ! i) \<and> shm_name (objs ! i) = name then None else ns objs name"
  have other: "j = i" if "j < length objs" "linked (objs ! j)" "shm_name (objs ! j) = name" "linked (objs ! i)" "shm_name (objs ! i) = name" for j
    using n(1) that i unfolding names_ok_def by metis
  have other': "j = i" if "j < length objs" "linked (objs ! j)" "shm_name (objs ! j) = name" "linked ob" "shm_name ob = name" for j
    using n(2)[unfolded names_ok_def, rule_format, of j i] that i by (cases "j = i") auto
  have new: "ns (objs[i := ob]) name = Some z \<longleftrightarrow> linked ob \<and> shm_name ob = name \<and> shm_size ob = z \<or>
      (\<exists>j < length objs. j \<noteq> i \<and> linked (objs ! j) \<and> shm_name (objs ! j) = name \<and> shm_size (objs ! j) = z)" for z
    unfolding ns_Some[OF n(2)] using i by (auto simp: nth_list_update)
  have "ns (objs[i := ob]) name = Some z \<longleftrightarrow> ?r = Some z" for z
  proof (cases "linked ob \<and> shm_name ob = name")
    case True
    then show ?thesis using new[of z] other' by auto
  next
    case False
    show ?thesis
    proof (cases "linked (objs ! i) \<and> shm_name (objs ! i) = name")
      case True
      then have "\<not> ns (objs[i := ob]) name = Some z" using new[of z] False other by blast
      then show ?thesis using True False by auto
    next
      case no: False
      have "ns (objs[i := ob]) name = Some z \<longleftrightarrow> ns objs name = Some z"
        unfolding new ns_Some[OF n(1)] using False no by blast
      then show ?thesis using False no by auto
    qed
  qed
  then show "ns (objs[i := ob]) name = ?r" by (metis not_None_eq)
qed

lemma index_where_none: "\<not> index_where Q xs < length xs \<Longrightarrow> \<forall>x \<in> set xs. \<not> Q x"
  by (induction xs) (auto simp: index_where_def split: if_splits)

lemma find_by_name_ns:
  assumes "names_ok (shm_objects s)"
  shows "shm_find_by_name s name = Some i \<Longrightarrow> i < length (shm_objects s) \<and> linked (shm_at s i) \<and> shm_name (shm_at s i) = name \<and>
      ns (shm_objects s) name = Some (shm_size (shm_at s i))"
    "shm_find_by_name s name = None \<Longrightarrow> ns (shm_objects s) name = None"
proof -
  let ?Q = "\<lambda>ob. shm_used ob \<and> \<not> shm_unlinked ob \<and> shm_name ob = name"
  show "shm_find_by_name s name = Some i \<Longrightarrow> i < length (shm_objects s) \<and> linked (shm_at s i) \<and> shm_name (shm_at s i) = name \<and>
      ns (shm_objects s) name = Some (shm_size (shm_at s i))"
    using shm_find_lt[of s ?Q i] ns_Some[OF assms] by (auto simp: shm_find_by_name_def shm_at_def linked_def)
  assume "shm_find_by_name s name = None"
  then have "\<not> index_where ?Q (shm_objects s) < length (shm_objects s)" by (auto simp: shm_find_by_name_def shm_find_def Let_def split: if_splits)
  then have "\<forall>ob \<in> set (shm_objects s). \<not> ?Q ob" by (rule index_where_none)
  then show "ns (shm_objects s) name = None" by (auto simp: ns_def find_None_iff linked_def)
qed

subsection \<open>Operations on the table\<close>

datatype shm_cmd =
  OpenShm "u8 list" u64 u32
| CloseShm nat
| TruncateShm nat u64
| UnlinkShm "u8 list"
| RetainShm u32
| ReleaseShm u32

fun shm_exec :: "platform \<Rightarrow> shm_cmd \<Rightarrow> machine \<Rightarrow> (int \<times> machine) option" where
  "shm_exec e (OpenShm name sz flags) s =
     map_option (\<lambda>(r, s'). (case r of Inl code \<Rightarrow> code | Inr i \<Rightarrow> int i, s')) (shm_open_locked e s name sz flags)"
| "shm_exec e (CloseShm i) s = map_option (Pair 0) (shm_file_close e s i)"
| "shm_exec e (TruncateShm i len) s = shm_file_truncate e s i len"
| "shm_exec e (UnlinkShm name) s = shm_unlink_locked e s name"
| "shm_exec e (RetainShm k) s = Some (0, shm_retain_mapping s k)"
| "shm_exec e (ReleaseShm k) s = map_option (Pair 0) (shm_release_mapping e s k)"

fun shm_legal :: "shm_cmd \<Rightarrow> bool" where
  "shm_legal (OpenShm name sz flags) \<longleftrightarrow> length name < SHM_NAME_MAX"
| "shm_legal (CloseShm i) \<longleftrightarrow> i < SHM_MAX_OBJECTS"
| "shm_legal (TruncateShm i len) \<longleftrightarrow> i < SHM_MAX_OBJECTS"
| "shm_legal _ \<longleftrightarrow> True"

text \<open>What a call does to the sizes of the named objects.\<close>

fun shm_spec :: "shm_cmd \<Rightarrow> (u8 list \<Rightarrow> u64 option) \<Rightarrow> int \<Rightarrow> (u8 list \<Rightarrow> u64 option) \<Rightarrow> bool" where
  "shm_spec (OpenShm name sz flags) m r m' \<longleftrightarrow> r < 0 \<and> m' = m \<or>
     0 \<le> r \<and> (case m name of
        None \<Rightarrow> flags AND ARMOS_SHM_OPEN_CREATE \<noteq> 0 \<and> m' = m(name \<mapsto> align_up sz PAGE_SIZE)
      | Some z \<Rightarrow> (flags AND ARMOS_SHM_OPEN_CREATE = 0 \<or> flags AND ARMOS_SHM_OPEN_EXCLUSIVE = 0) \<and> sz \<le> z \<and>
          m' = (if flags AND ARMOS_SHM_OPEN_TRUNCATE \<noteq> 0 then m(name \<mapsto> 0) else m))"
| "shm_spec (TruncateShm i len) m r m' \<longleftrightarrow> r < 0 \<and> m' = m \<or>
     r = 0 \<and> 0 \<le> sint len \<and> (m' = m \<or> (\<exists>name. m name \<noteq> None \<and> m' = m(name \<mapsto> align_up len PAGE_SIZE)))"
| "shm_spec (UnlinkShm name) m r m' \<longleftrightarrow> r < 0 \<and> m name = None \<and> m' = m \<or> r = 0 \<and> m name \<noteq> None \<and> m' = m(name := None)"
| "shm_spec _ m r m' \<longleftrightarrow> r = 0 \<and> m' = m"

lemma shm_okD:
  assumes "shm_ok e k s"
  shows "length (shm_objects s) = SHM_MAX_OBJECTS" "store_ok e s" "names_ok (shm_objects s)"
    "i < length (shm_objects s) \<Longrightarrow> obj_ok k (shm_at s i)" "i < length (shm_objects s) \<Longrightarrow> reachable (shm_at s i)"
  using assms by (auto simp: shm_ok_def shm_at_def)

lemma obj_ok_mono: "obj_ok k ob \<Longrightarrow> k \<le> k' \<Longrightarrow> obj_ok k' ob"
  by (simp add: obj_ok_def)

lemma zero_shm_ok: "obj_ok k zero_shm" "reachable zero_shm" "\<not> linked zero_shm" "shm_phys zero_shm = []" "shm_phys_ptr zero_shm = 0"
  "shm_capacity zero_shm = 0" "\<not> shm_used zero_shm"
  by (simp_all add: obj_ok_def reachable_def linked_def zero_shm_def)

definition ns_after :: "shm_object \<Rightarrow> shm_object \<Rightarrow> (u8 list \<Rightarrow> u64 option) \<Rightarrow> u8 list \<Rightarrow> u64 option" where
  "ns_after old ob m = (\<lambda>name. if linked ob \<and> shm_name ob = name then Some (shm_size ob)
     else if linked old \<and> shm_name old = name then None else m name)"

lemma shm_ok_upd:
  assumes ok: "shm_ok e k s" and k: "k \<le> k'" and i: "i < length (shm_objects s)" and s': "store_ok e s'" "shm_objects s' = (shm_objects s)[i := ob]"
    and ob: "obj_ok k' ob" "reachable ob" and name: "\<And>j. j < length (shm_objects s) \<Longrightarrow> j \<noteq> i \<Longrightarrow> linked ob \<Longrightarrow> linked (shm_at s j) \<Longrightarrow> shm_name (shm_at s j) \<noteq> shm_name ob"
  shows "shm_ok e k' s'" "ns (shm_objects s') = ns_after (shm_at s i) ob (ns (shm_objects s))"
proof -
  note D = shm_okD[OF ok]
  have n: "names_ok ((shm_objects s)[i := ob])" unfolding names_ok_def
  proof (intro allI impI)
    fix a b assume a: "a < length ((shm_objects s)[i := ob])" "b < length ((shm_objects s)[i := ob])" "linked ((shm_objects s)[i := ob] ! a)"
      "linked ((shm_objects s)[i := ob] ! b)" "shm_name ((shm_objects s)[i := ob] ! a) = shm_name ((shm_objects s)[i := ob] ! b)"
    show "a = b"
    proof (cases "a = i \<or> b = i")
      case True
      then show ?thesis using a i name[of a] name[of b] by (auto simp: nth_list_update shm_at_def split: if_splits)
    next
      case False
      then show ?thesis using D(3)[unfolded names_ok_def, rule_format, of a b] a by simp
    qed
  qed
  have "\<forall>ob \<in> set (shm_objects s). obj_ok k' ob \<and> reachable ob" using ok obj_ok_mono[OF _ k] by (simp add: shm_ok_def)
  then have "\<forall>ob \<in> set (shm_objects s'). obj_ok k' ob \<and> reachable ob"
    unfolding s'(2) using ob set_update_subset_insert[of "shm_objects s" i ob] by blast
  then show "shm_ok e k' s'" using s' n D(1) by (simp add: shm_ok_def)
  show "ns (shm_objects s') = ns_after (shm_at s i) ob (ns (shm_objects s))"
    unfolding s'(2) ns_upd[OF D(3) n i] by (simp add: ns_after_def shm_at_def)
qed

lemma linked_apart:
  assumes "shm_ok e k s" "i < length (shm_objects s)" "j < length (shm_objects s)" "j \<noteq> i" "linked (shm_at s i)" "linked (shm_at s j)"
  shows "shm_name (shm_at s j) \<noteq> shm_name (shm_at s i)"
  using shm_okD(3)[OF assms(1)] assms(2-) unfolding names_ok_def shm_at_def by metis

text \<open>Changing the references or the link of an object and giving it up if that was the last of them.\<close>

lemma drop_reference:
  assumes ok: "shm_ok e k s" and i: "i < length (shm_objects s)" and k: "k \<le> k'"
    and same: "shm_phys ob = shm_phys (shm_at s i)" "shm_phys_ptr ob = shm_phys_ptr (shm_at s i)" "shm_capacity ob = shm_capacity (shm_at s i)"
    and ob: "obj_ok k' ob" "reachable ob \<or> shm_used ob" and link: "linked ob \<Longrightarrow> linked (shm_at s i) \<and> shm_name ob = shm_name (shm_at s i)"
  shows "\<exists>s'. shm_try_destroy_locked e (set_shm s i ob) i = Some s' \<and> shm_ok e k' s' \<and>
    ns (shm_objects s') = ns_after (shm_at s i) ob (ns (shm_objects s))"
proof -
  have at: "shm_at (set_shm s i ob) i = ob" using i by (simp add: shm_at_def set_shm_def)
  have st: "store_ok e (set_shm s i ob)" by (rule store_ok_same[OF shm_okD(2)[OF ok] i same])
  obtain s' where s': "shm_try_destroy_locked e (set_shm s i ob) i = Some s'" "store_ok e s'"
    "shm_objects s' = (shm_objects s)[i := if shm_used ob \<and> \<not> reachable ob then zero_shm else ob]"
    using destroy_ok[OF st, of i] i unfolding at by (auto split: if_splits)
  let ?ob = "if shm_used ob \<and> \<not> reachable ob then zero_shm else ob"
  have "obj_ok k' ?ob" "reachable ?ob" "linked ?ob \<longleftrightarrow> linked ob"
    using ob zero_shm_ok by (auto simp: linked_def reachable_def)
  moreover have "ns_after (shm_at s i) ?ob = ns_after (shm_at s i) ob"
    using zero_shm_ok(3) by (auto simp: ns_after_def linked_def reachable_def fun_eq_iff)
  moreover have "shm_name (shm_at s j) \<noteq> shm_name ?ob" if "j < length (shm_objects s)" "j \<noteq> i" "linked ?ob" "linked (shm_at s j)" for j
    using that zero_shm_ok(3) link linked_apart[OF ok i that(1,2) _ that(4)] by (auto split: if_splits)
  ultimately have "shm_ok e k' s'" "ns (shm_objects s') = ns_after (shm_at s i) ob (ns (shm_objects s))"
    using shm_ok_upd[OF ok k i s'(2,3)] by simp_all
  then show ?thesis using s'(1) by blast
qed

lemma ns_after_same:
  assumes "shm_ok e k s" "i < length (shm_objects s)" "linked ob \<longleftrightarrow> linked (shm_at s i)" "shm_name ob = shm_name (shm_at s i)" "shm_size ob = shm_size (shm_at s i)"
  shows "ns_after (shm_at s i) ob (ns (shm_objects s)) = ns (shm_objects s)"
proof -
  have "ns (shm_objects s) (shm_name (shm_at s i)) = Some (shm_size (shm_at s i))" if "linked (shm_at s i)"
    unfolding ns_Some[OF shm_okD(3)[OF assms(1)]] using assms(2) that by (auto simp: shm_at_def)
  then show ?thesis using assms(3-5) by (auto simp: ns_after_def fun_eq_iff)
qed

lemma dec_le: "unat (x :: u32) \<le> k \<Longrightarrow> 0 < x \<Longrightarrow> unat (x - 1) \<le> k"
  using unat_minus_one[of x] by (cases "x = 0") auto

lemma close_sim:
  assumes ok: "shm_ok e k s" and i: "i < length (shm_objects s)"
  shows "\<exists>s'. shm_file_close e s i = Some s' \<and> shm_ok e (Suc k) s' \<and> ns (shm_objects s') = ns (shm_objects s)"
proof -
  define ob where "ob = (if shm_used (shm_at s i) \<and> 0 < shm_handles (shm_at s i) then (shm_at s i)\<lparr>shm_handles := shm_handles (shm_at s i) - 1\<rparr> else shm_at s i)"
  have "set_shm s i (shm_at s i) = s" by (simp add: set_shm_def shm_at_def)
  then have run: "shm_file_close e s i = shm_try_destroy_locked e (set_shm s i ob) i" by (simp add: shm_file_close_def ob_def Let_def)
  have o: "obj_ok (Suc k) (shm_at s i)" using obj_ok_mono[OF shm_okD(4)[OF ok i]] by simp
  have "unat (shm_handles (shm_at s i) - 1) \<le> Suc k" if "0 < shm_handles (shm_at s i)"
    using o dec_le[OF _ that] by (simp add: obj_ok_def)
  then have "obj_ok (Suc k) ob" using o by (auto simp: ob_def obj_ok_def)
  moreover have "linked ob \<longleftrightarrow> linked (shm_at s i)" "shm_name ob = shm_name (shm_at s i)" "shm_size ob = shm_size (shm_at s i)"
    "shm_phys ob = shm_phys (shm_at s i)" "shm_phys_ptr ob = shm_phys_ptr (shm_at s i)" "shm_capacity ob = shm_capacity (shm_at s i)"
    "reachable ob \<or> shm_used ob"
    using shm_okD(5)[OF ok i] by (auto simp: ob_def linked_def)
  ultimately show ?thesis unfolding run using drop_reference[OF ok i, of "Suc k" ob] ns_after_same[OF ok i] by simp
qed

lemma release_sim:
  assumes ok: "shm_ok e k s"
  shows "\<exists>s'. shm_release_mapping e s m = Some s' \<and> shm_ok e (Suc k) s' \<and> ns (shm_objects s') = ns (shm_objects s)"
proof (cases "shm_find_by_id s m")
  case None
  have "shm_ok e (Suc k) s" using ok obj_ok_mono[of k _ "Suc k"] by (simp add: shm_ok_def)
  then show ?thesis using None by (simp add: shm_release_mapping_def)
next
  case (Some i)
  then have i: "i < length (shm_objects s)" by (auto simp: shm_find_by_id_def dest: shm_find_lt)
  define ob where "ob = (if 0 < shm_mappings (shm_at s i) then (shm_at s i)\<lparr>shm_mappings := shm_mappings (shm_at s i) - 1\<rparr> else shm_at s i)"
  have "set_shm s i (shm_at s i) = s" by (simp add: set_shm_def shm_at_def)
  then have run: "shm_release_mapping e s m = shm_try_destroy_locked e (set_shm s i ob) i"
    using Some by (simp add: shm_release_mapping_def ob_def Let_def)
  have o: "obj_ok (Suc k) (shm_at s i)" using obj_ok_mono[OF shm_okD(4)[OF ok i]] by simp
  have "unat (shm_mappings (shm_at s i) - 1) \<le> Suc k" if "0 < shm_mappings (shm_at s i)"
    using o dec_le[OF _ that] by (simp add: obj_ok_def)
  moreover have u: "shm_used (shm_at s i)" using shm_find_lt[of s _ i] Some by (auto simp: shm_find_by_id_def shm_at_def)
  ultimately have "obj_ok (Suc k) ob" using o by (auto simp: ob_def obj_ok_def)
  moreover have "linked ob \<longleftrightarrow> linked (shm_at s i)" "shm_name ob = shm_name (shm_at s i)" "shm_size ob = shm_size (shm_at s i)"
    "shm_phys ob = shm_phys (shm_at s i)" "shm_phys_ptr ob = shm_phys_ptr (shm_at s i)" "shm_capacity ob = shm_capacity (shm_at s i)"
    "reachable ob \<or> shm_used ob"
    using u by (auto simp: ob_def linked_def)
  ultimately show ?thesis unfolding run using drop_reference[OF ok i, of "Suc k" ob] ns_after_same[OF ok i] by simp
qed

lemma unlink_sim:
  assumes ok: "shm_ok e k s"
  shows "\<exists>r s'. shm_unlink_locked e s name = Some (r, s') \<and> shm_ok e (Suc k) s' \<and>
    shm_spec (UnlinkShm name) (ns (shm_objects s)) r (ns (shm_objects s'))"
proof (cases "shm_find_by_name s name")
  case None
  have "shm_ok e (Suc k) s" using ok obj_ok_mono[of k _ "Suc k"] by (simp add: shm_ok_def)
  then show ?thesis using None find_by_name_ns(2)[OF shm_okD(3)[OF ok] None] by (simp add: shm_unlink_locked_def neg_def)
next
  case (Some i)
  note F = find_by_name_ns(1)[OF shm_okD(3)[OF ok] Some]
  then have i: "i < length (shm_objects s)" by simp
  let ?ob = "(shm_at s i)\<lparr>shm_unlinked := True, shm_name := []\<rparr>"
  have "obj_ok (Suc k) ?ob" "shm_used ?ob" "\<not> linked ?ob" using obj_ok_mono[OF shm_okD(4)[OF ok i], of "Suc k"] F by (auto simp: obj_ok_def linked_def)
  then obtain s' where "shm_try_destroy_locked e (set_shm s i ?ob) i = Some s'" "shm_ok e (Suc k) s'"
    "ns (shm_objects s') = ns_after (shm_at s i) ?ob (ns (shm_objects s))"
    using drop_reference[OF ok i, of "Suc k" ?ob] by auto
  then show ?thesis using Some F by (auto simp: shm_unlink_locked_def ns_after_def fun_eq_iff linked_def)
qed

lemma retain_sim:
  assumes ok: "shm_ok e k s" and k: "Suc k < 2 ^ 32"
  shows "shm_ok e (Suc k) (shm_retain_mapping s m)" "ns (shm_objects (shm_retain_mapping s m)) = ns (shm_objects s)"
proof -
  have all: "shm_ok e (Suc k) (shm_retain_mapping s m) \<and> ns (shm_objects (shm_retain_mapping s m)) = ns (shm_objects s)"
  proof (cases "shm_find_by_id s m")
    case None
    then show ?thesis using ok obj_ok_mono[of k _ "Suc k"] by (simp add: shm_retain_mapping_def shm_ok_def)
  next
    case (Some i)
    then have i: "i < length (shm_objects s)" by (auto simp: shm_find_by_id_def dest: shm_find_lt)
    have u: "shm_used (shm_at s i)" using shm_find_lt[of s _ i] Some by (auto simp: shm_find_by_id_def shm_at_def)
    let ?ob = "(shm_at s i)\<lparr>shm_mappings := shm_mappings (shm_at s i) + 1\<rparr>"
    have o: "obj_ok k (shm_at s i)" by (rule shm_okD(4)[OF ok i])
    then have m: "unat (shm_mappings (shm_at s i) + 1) = unat (shm_mappings (shm_at s i)) + 1"
      using k by (subst unat_add_lem[THEN iffD1]) (auto simp: obj_ok_def)
    then have "reachable ?ob" by (auto simp: reachable_def)
    moreover have "obj_ok (Suc k) ?ob" using o m u by (auto simp: obj_ok_def)
    moreover have "store_ok e (set_shm s i ?ob)" by (rule store_ok_same[OF shm_okD(2)[OF ok] i]) simp_all
    moreover have "linked ?ob \<longleftrightarrow> linked (shm_at s i)" by (simp add: linked_def)
    ultimately show ?thesis
      using Some shm_ok_upd[OF ok _ i, of "Suc k" "set_shm s i ?ob" ?ob] ns_after_same[OF ok i, of ?ob] linked_apart[OF ok i]
      by (simp add: shm_retain_mapping_def)
  qed
  then show "shm_ok e (Suc k) (shm_retain_mapping s m)" "ns (shm_objects (shm_retain_mapping s m)) = ns (shm_objects s)" by auto
qed

lemma shm_ok_keep: "shm_ok e k s \<Longrightarrow> store_ok e s' \<Longrightarrow> shm_objects s' = shm_objects s \<Longrightarrow> shm_ok e k s'"
  by (simp add: shm_ok_def)

lemma shm_ok_Suc: "shm_ok e k s \<Longrightarrow> shm_ok e (Suc k) s"
  using obj_ok_mono[of k _ "Suc k"] by (simp add: shm_ok_def)

lemma resized_facts:
  assumes "resized ob z ob'"
  shows "linked ob' \<longleftrightarrow> linked ob" "shm_name ob' = shm_name ob" "shm_size ob' = z" "reachable ob' \<longleftrightarrow> reachable ob" "shm_used ob' \<longleftrightarrow> shm_used ob"
    "shm_handles ob' = shm_handles ob" "shm_used ob \<Longrightarrow> obj_ok k ob \<Longrightarrow> obj_ok k ob'"
  using assms by (auto simp: resized_def linked_def reachable_def obj_ok_def)

lemma ns_resized:
  assumes ok: "shm_ok e k s" and i: "i < length (shm_objects s)" and ob: "resized (shm_at s i) z ob"
  shows "ns_after (shm_at s i) ob (ns (shm_objects s)) =
    (if linked (shm_at s i) then (ns (shm_objects s))(shm_name (shm_at s i) \<mapsto> z) else ns (shm_objects s))"
  using resized_facts(1-3)[OF ob] by (auto simp: ns_after_def fun_eq_iff)

lemma resize_sim:
  assumes ok: "shm_ok e k s" and i: "i < length (shm_objects s)"
  shows "\<exists>r s'. shm_resize_locked e s i sz = Some (r, s') \<and> shm_ok e k s' \<and>
     (r < 0 \<and> shm_objects s' = shm_objects s \<or>
      r = 0 \<and> (\<exists>ob'. shm_used (shm_at s i) \<and> resized (shm_at s i) (align_up sz PAGE_SIZE) ob' \<and> shm_objects s' = (shm_objects s)[i := ob'] \<and>
        ns (shm_objects s') = (if linked (shm_at s i) then (ns (shm_objects s))(shm_name (shm_at s i) \<mapsto> align_up sz PAGE_SIZE) else ns (shm_objects s))))"
proof -
  note D = shm_okD[OF ok]
  obtain r s' where R: "shm_resize_locked e s i sz = Some (r, s')" "store_ok e s'"
    "r < 0 \<and> shm_objects s' = shm_objects s \<or>
      r = 0 \<and> shm_used (shm_at s i) \<and> (\<exists>ob'. resized (shm_at s i) (align_up sz PAGE_SIZE) ob' \<and> shm_objects s' = (shm_objects s)[i := ob'])"
    using resize_ok[OF D(2) i D(4)[OF i], of sz] by blast
  show ?thesis
  proof (cases "r = 0")
    case False
    then show ?thesis using R shm_ok_keep[OF ok R(2)] by auto
  next
    case True
    then obtain ob' where o: "shm_used (shm_at s i)" "resized (shm_at s i) (align_up sz PAGE_SIZE) ob'" "shm_objects s' = (shm_objects s)[i := ob']"
      using R(3) by auto
    note F = resized_facts[OF o(2)]
    have "shm_ok e k s'" "ns (shm_objects s') = ns_after (shm_at s i) ob' (ns (shm_objects s))"
      using F F(7)[OF o(1) D(4)[OF i]] D(5)[OF i] linked_apart[OF ok i] by (intro shm_ok_upd[OF ok order_refl i R(2) o(3)]; simp)+
    then show ?thesis using R(1) True o ns_resized[OF ok i o(2)] by auto
  qed
qed

lemma truncate_sim:
  assumes ok: "shm_ok e k s" and i: "i < length (shm_objects s)"
  shows "\<exists>r s'. shm_file_truncate e s i len = Some (r, s') \<and> shm_ok e (Suc k) s' \<and>
    shm_spec (TruncateShm i len) (ns (shm_objects s)) r (ns (shm_objects s'))"
proof (cases "sint len < 0")
  case True
  then show ?thesis using shm_ok_Suc[OF ok] by (simp add: shm_file_truncate_def neg_def)
next
  case False
  have "linked (shm_at s i) \<Longrightarrow> \<exists>z. ns (shm_objects s) (shm_name (shm_at s i)) = Some z"
    unfolding ns_Some[OF shm_okD(3)[OF ok]] using i by (auto simp: shm_at_def)
  then show ?thesis using resize_sim[OF ok i, of len] False shm_ok_Suc[of e k]
    by (auto simp: shm_file_truncate_def split: if_splits)
qed

lemma count_handle:
  assumes ok: "shm_ok e k s" and i: "i < length (shm_objects s)" and l: "linked (shm_at s i)" and h: "unat h \<le> Suc k"
  defines "s' \<equiv> set_shm s i ((shm_at s i)\<lparr>shm_handles := h\<rparr>)"
  shows "shm_ok e (Suc k) s'" "ns (shm_objects s') = ns (shm_objects s)"
proof -
  let ?ob = "(shm_at s i)\<lparr>shm_handles := h\<rparr>"
  have o: "obj_ok (Suc k) ?ob" "reachable ?ob" "linked ?ob"
    using obj_ok_mono[OF shm_okD(4)[OF ok i], of "Suc k"] l h by (auto simp: obj_ok_def reachable_def linked_def)
  have st: "store_ok e s'" unfolding s'_def by (rule store_ok_same[OF shm_okD(2)[OF ok] i]) simp_all
  have objs: "shm_objects s' = (shm_objects s)[i := ?ob]" by (simp add: s'_def)
  have "k \<le> Suc k" by simp
  note U = shm_ok_upd[OF ok this i st objs o(1,2)]
  show "shm_ok e (Suc k) s'" using linked_apart[OF ok i] l by (intro U) simp
  have "ns (shm_objects s') = ns_after (shm_at s i) ?ob (ns (shm_objects s))" using linked_apart[OF ok i] l by (intro U) simp
  then show "ns (shm_objects s') = ns (shm_objects s)" using ns_after_same[OF ok i, of ?ob] o(3) l by simp
qed

lemma inc_le: "unat (x :: u32) \<le> k \<Longrightarrow> unat (x + 1) \<le> Suc k"
  using unat_word_ariths(1)[of x 1] by (simp add: le_trans[OF mod_less_eq_dividend])

lemma open_existing:
  assumes ok: "shm_ok e k s" and F: "shm_find_by_name s name = Some i"
  shows "\<exists>r s'. shm_exec e (OpenShm name sz flags) s = Some (r, s') \<and> shm_ok e (Suc k) s' \<and>
    shm_spec (OpenShm name sz flags) (ns (shm_objects s)) r (ns (shm_objects s'))"
proof -
  note N = find_by_name_ns(1)[OF shm_okD(3)[OF ok] F]
  then have i: "i < length (shm_objects s)" by simp
  show ?thesis
  proof (cases "(flags AND ARMOS_SHM_OPEN_CREATE \<noteq> 0 \<and> flags AND ARMOS_SHM_OPEN_EXCLUSIVE \<noteq> 0) \<or> shm_size (shm_at s i) < sz")
    case True
    then show ?thesis using shm_ok_Suc[OF ok] F by (auto simp: shm_open_locked_def neg_def)
  next
    case False
    have "\<exists>r s1. (if flags AND ARMOS_SHM_OPEN_TRUNCATE \<noteq> 0 then shm_resize_locked e s i 0 else Some (0, s)) = Some (r, s1) \<and>
        shm_ok e k s1 \<and> (r < 0 \<and> shm_objects s1 = shm_objects s \<or> r = 0 \<and> i < length (shm_objects s1) \<and> linked (shm_at s1 i) \<and>
          unat (shm_handles (shm_at s1 i)) \<le> k \<and>
          ns (shm_objects s1) = (if flags AND ARMOS_SHM_OPEN_TRUNCATE \<noteq> 0 then (ns (shm_objects s))(name \<mapsto> 0) else ns (shm_objects s)))"
    proof (cases "flags AND ARMOS_SHM_OPEN_TRUNCATE = 0")
      case True
      then show ?thesis using ok N shm_okD(4)[OF ok i] by (simp add: obj_ok_def)
    next
      case t: False
      obtain r s1 where R: "shm_resize_locked e s i 0 = Some (r, s1)" "shm_ok e k s1"
        "r < 0 \<and> shm_objects s1 = shm_objects s \<or> r = 0 \<and> (\<exists>ob'. resized (shm_at s i) (align_up 0 PAGE_SIZE) ob' \<and> shm_objects s1 = (shm_objects s)[i := ob'] \<and>
          ns (shm_objects s1) = (ns (shm_objects s))(name \<mapsto> align_up 0 PAGE_SIZE))"
        using resize_sim[OF ok i, of 0] N by auto
      have z: "align_up 0 PAGE_SIZE = 0" by (simp add: align_up_def PAGE_SIZE_def)
      have "i < length (shm_objects s1) \<and> linked (shm_at s1 i) \<and> unat (shm_handles (shm_at s1 i)) \<le> k"
        if "resized (shm_at s i) 0 ob'" "shm_objects s1 = (shm_objects s)[i := ob']" for ob'
        using resized_facts[OF that(1)] that(2) i N shm_okD(4)[OF ok i] by (simp add: shm_at_def obj_ok_def)
      then show ?thesis using t R unfolding z by auto
    qed
    then obtain r s1 where S: "(if flags AND ARMOS_SHM_OPEN_TRUNCATE \<noteq> 0 then shm_resize_locked e s i 0 else Some (0, s)) = Some (r, s1)"
      "shm_ok e k s1" "r < 0 \<and> shm_objects s1 = shm_objects s \<or> r = 0 \<and> i < length (shm_objects s1) \<and> linked (shm_at s1 i) \<and>
          unat (shm_handles (shm_at s1 i)) \<le> k \<and>
          ns (shm_objects s1) = (if flags AND ARMOS_SHM_OPEN_TRUNCATE \<noteq> 0 then (ns (shm_objects s))(name \<mapsto> 0) else ns (shm_objects s))"
      by blast
    have run: "shm_open_locked e s name sz flags = Some (if r < 0 then (Inl r, s1)
        else (Inr i, set_shm s1 i ((shm_at s1 i)\<lparr>shm_handles := shm_handles (shm_at s1 i) + 1\<rparr>)))"
      using False by (auto simp: shm_open_locked_def F S(1))
    show ?thesis
    proof (cases "r < 0")
      case True
      then show ?thesis using S(3) shm_ok_Suc[OF S(2)] by (simp add: run)
    next
      case r: False
      then have r0: "r = 0" "i < length (shm_objects s1)" "linked (shm_at s1 i)" "unat (shm_handles (shm_at s1 i)) \<le> k" using S(3) by auto
      note H = count_handle[OF S(2) r0(2,3) inc_le[OF r0(4)]]
      show ?thesis using False S(3) r0(1) H N by (simp add: run not_less)
    qed
  qed
qed

lemma alloc_slot:
  assumes ok: "shm_ok e k s" and "shm_alloc_slot s = Some i"
  shows "i < length (shm_objects s)" "shm_at s i = zero_shm"
proof -
  show i: "i < length (shm_objects s)" using shm_find_lt[of s "\<lambda>ob. \<not> shm_used ob" i] assms(2) by (simp add: shm_alloc_slot_def)
  show "shm_at s i = zero_shm"
    using shm_find_lt[of s "\<lambda>ob. \<not> shm_used ob" i] assms(2) shm_okD(4)[OF ok i] by (simp add: shm_alloc_slot_def obj_ok_def shm_at_def)
qed

lemma open_new:
  assumes ok: "shm_ok e k s" and N: "shm_find_by_name s name = None" and len: "length name < SHM_NAME_MAX"
  shows "\<exists>r s'. shm_exec e (OpenShm name sz flags) s = Some (r, s') \<and> shm_ok e (Suc k) s' \<and>
    shm_spec (OpenShm name sz flags) (ns (shm_objects s)) r (ns (shm_objects s'))"
proof (cases "flags AND ARMOS_SHM_OPEN_CREATE = 0 \<or> shm_alloc_slot s = None")
  case True
  then show ?thesis using shm_ok_Suc[OF ok] N by (auto simp: shm_open_locked_def neg_def)
next
  case False
  then obtain i where slot: "shm_alloc_slot s = Some i" by auto
  note i = alloc_slot[OF ok slot] and free = find_by_name_ns(2)[OF shm_okD(3)[OF ok] N]
  define ob where "ob = zero_shm\<lparr>shm_used := True, shm_obj_id := shm_next_id s, shm_name := name\<rparr>"
  define s0 where "s0 = s\<lparr>shm_next_id := (if shm_next_id s + 1 = 0 then 1 else shm_next_id s + 1)\<rparr>"
  define s1 where "s1 = set_shm s0 i ob"
  have s0: "shm_ok e k s0" "shm_objects s0 = shm_objects s" "shm_at s0 i = zero_shm"
    using ok i(2) by (simp_all add: s0_def shm_ok_def store_ok_def shm_at_def)
  have i0: "i < length (shm_objects s0)" using i(1) s0(2) by simp
  have o: "obj_ok k ob" "reachable ob" "linked ob" "shm_name ob = name" "shm_size ob = 0" "shm_phys ob = []" "shm_phys_ptr ob = 0" "shm_capacity ob = 0"
    by (simp_all add: ob_def obj_ok_def reachable_def linked_def zero_shm_def)
  have st1: "store_ok e s1" unfolding s1_def by (rule store_ok_same[OF shm_okD(2)[OF s0(1)] i0]) (simp_all add: o s0(3) zero_shm_ok)
  have other: "shm_name (shm_at s0 j) \<noteq> name" if "j < length (shm_objects s0)" "linked (shm_at s0 j)" for j
    using free ns_Some[OF shm_okD(3)[OF ok], of name] that s0(2) by (auto simp: shm_at_def)
  have objs1: "shm_objects s1 = (shm_objects s0)[i := ob]" by (simp add: s1_def)
  have ok1: "shm_ok e k s1" using shm_ok_upd(1)[OF s0(1) order_refl i0 st1 objs1 o(1,2)] other o(4) by blast
  have at1: "shm_at s1 i = ob" "i < length (shm_objects s1)" using i0 by (simp_all add: objs1 shm_at_def)
  obtain r s2 where R: "shm_resize_locked e s1 i sz = Some (r, s2)" "shm_ok e k s2"
    "r < 0 \<and> shm_objects s2 = shm_objects s1 \<or> r = 0 \<and> (\<exists>ob'. resized ob (align_up sz PAGE_SIZE) ob' \<and> shm_objects s2 = (shm_objects s1)[i := ob'] \<and>
        ns (shm_objects s2) = (ns (shm_objects s1))(name \<mapsto> align_up sz PAGE_SIZE))"
    using resize_sim[OF ok1 at1(2), of sz] o(3,4) unfolding at1(1) by auto
  have run: "shm_open_locked e s name sz flags = Some (if r < 0 then (Inl r, set_shm s2 i zero_shm)
      else (Inr i, set_shm s2 i ((shm_at s2 i)\<lparr>shm_handles := 1\<rparr>)))"
    using False N slot len R(1) by (auto simp: shm_open_locked_def Let_def ob_def s0_def s1_def SHM_NAME_MAX_def)
  show ?thesis
  proof (cases "r < 0")
    case True
    then have objs2: "shm_objects s2 = (shm_objects s)[i := ob]" using R(3) objs1 s0(2) by auto
    have "store_ok e (set_shm s2 i zero_shm)"
      by (rule store_ok_same[OF shm_okD(2)[OF R(2)]]) (simp_all add: objs2 shm_at_def i(1) o zero_shm_ok)
    moreover have "shm_objects (set_shm s2 i zero_shm) = shm_objects s" using objs2 i by (simp add: shm_at_def list_update_same_conv)
    ultimately show ?thesis using True shm_ok_Suc[OF shm_ok_keep[OF ok]] by (simp add: run)
  next
    case r: False
    then obtain ob' where o': "r = 0" "resized ob (align_up sz PAGE_SIZE) ob'" "shm_objects s2 = (shm_objects s1)[i := ob']"
      "ns (shm_objects s2) = (ns (shm_objects s1))(name \<mapsto> align_up sz PAGE_SIZE)" using R(3) by auto
    have at2: "i < length (shm_objects s2)" "shm_at s2 i = ob'" using at1(2) by (simp_all add: o'(3) shm_at_def)
    have ns1: "ns (shm_objects s1) = (ns (shm_objects s))(name \<mapsto> 0)"
      using shm_ok_upd(2)[OF s0(1) order_refl i0 st1 objs1 o(1,2)] other o s0(2,3) zero_shm_ok(3) by (auto simp: ns_after_def fun_eq_iff)
    have l: "linked (shm_at s2 i)" using resized_facts(1)[OF o'(2)] o(3) at2 by simp
    have one: "unat (1 :: u32) \<le> Suc k" by simp
    note H = count_handle[OF R(2) at2(1) l one]
    show ?thesis using r False H o'(1,4) ns1 free by (simp add: run)
  qed
qed

lemma shm_sim:
  assumes ok: "shm_ok e k s" and k: "Suc k < 2 ^ 32" and legal: "shm_legal c"
  shows "\<exists>r s'. shm_exec e c s = Some (r, s') \<and> shm_ok e (Suc k) s' \<and> shm_spec c (ns (shm_objects s)) r (ns (shm_objects s'))"
proof (cases c)
  case (OpenShm name sz flags)
  then show ?thesis using open_new[OF ok, of name sz flags] open_existing[OF ok, of name _ sz flags] legal
    by (cases "shm_find_by_name s name") (simp_all del: shm_exec.simps shm_spec.simps)
next
  case (CloseShm i)
  then show ?thesis using close_sim[OF ok, of i] legal shm_okD(1)[OF ok] by auto
next
  case (TruncateShm i len)
  then show ?thesis using truncate_sim[OF ok, of i len] legal shm_okD(1)[OF ok] by (simp del: shm_spec.simps)
next
  case (UnlinkShm name)
  then show ?thesis using unlink_sim[OF ok, of name] by (simp del: shm_spec.simps)
next
  case (RetainShm m)
  then show ?thesis using retain_sim[OF ok k, of m] by simp
next
  case (ReleaseShm m)
  then show ?thesis using release_sim[OF ok, of m] by auto
qed

lemma shm_run:
  "shm_ok e k s \<Longrightarrow> k + length cs < 2 ^ 32 \<Longrightarrow> list_all shm_legal cs \<Longrightarrow>
   \<exists>rs s'. run_cmds (shm_exec e) cs s = Some (rs, s') \<and> shm_ok e (k + length cs) s' \<and> spec_run shm_spec cs (ns (shm_objects s)) rs (ns (shm_objects s'))"
proof (induction cs arbitrary: s k)
  case (Cons c cs)
  have "Suc k < 2 ^ 32" "shm_legal c" using Cons.prems(2,3) by auto
  with Cons.prems(1) obtain r s1 where 1: "shm_exec e c s = Some (r, s1)" "shm_ok e (Suc k) s1" "shm_spec c (ns (shm_objects s)) r (ns (shm_objects s1))"
    using shm_sim by blast
  obtain rs s' where 2: "run_cmds (shm_exec e) cs s1 = Some (rs, s')" "shm_ok e (Suc k + length cs) s'"
    "spec_run shm_spec cs (ns (shm_objects s1)) rs (ns (shm_objects s'))"
    using Cons.IH[OF 1(2)] Cons.prems(2,3) by auto
  show ?case using 1 2 by auto
qed simp

subsection \<open>Properties\<close>

lemma boot_shm_ok:
  assumes "heap_set h S" "owns e ph P"
  shows "shm_ok e 0 (boot_machine ph h)" "ns (shm_objects (boot_machine ph h)) = (\<lambda>_. None)"
proof -
  have p: "pages_of (replicate n zero_shm) = []" "obj_ptrs (replicate n zero_shm) = []" for n
    by (induction n) (simp_all add: pages_of_def obj_ptrs_def zero_shm_ok)
  have "find (\<lambda>ob. linked ob \<and> shm_name ob = name) (replicate n zero_shm) = None" for n name
    by (auto simp: find_None_iff zero_shm_ok)
  then show "ns (shm_objects (boot_machine ph h)) = (\<lambda>_. None)" by (simp add: ns_def boot_machine_def fun_eq_iff)
  show "shm_ok e 0 (boot_machine ph h)" using assms
    by (auto simp: shm_ok_def store_ok_def boot_machine_def objs_heap_def p zero_shm_ok names_ok_def)
qed


text \<open>C37. After any such sequence the global page counter is exactly the number of pages in the objects and at most the limit of
  256 MiB; no page belongs to two objects or twice to one, and every one is allocated; an object in use has
  as many pages as its size says and can still be reached by its name, a handle or a mapping, so nothing is leaked when the
  last reference to an unlinked object goes; a slot that is not in use holds nothing; and no two linked objects
  share a name.\<close>

theorem shm_accounting:
  assumes "heap_set h S" "owns e ph P" "list_all shm_legal cs" "length cs < 2 ^ 32"
    and "run_cmds (shm_exec e) cs (boot_machine ph h) = Some (rs, s')"
  shows "unat (shm_global_pages s') = (\<Sum>ob \<leftarrow> shm_objects s'. length (shm_phys ob)) \<and> unat (shm_global_pages s') * 4096 \<le> unat SHM_GLOBAL_MAX_BYTES \<and>
    distinct (concat (map shm_phys (shm_objects s'))) \<and> (\<exists>P'. owns e (phys s') P' \<and> set (concat (map shm_phys (shm_objects s'))) \<subseteq> P') \<and>
    (\<forall>ob \<in> set (shm_objects s'). if shm_used ob then unat (shm_size ob) = 4096 * length (shm_phys ob) \<and> reachable ob else ob = zero_shm) \<and>
    names_ok (shm_objects s')"
proof -
  have "shm_ok e (length cs) s'" using shm_run[OF boot_shm_ok(1)[OF assms(1,2)] _ assms(3)] assms(4,5) by auto
  then show ?thesis by (auto simp: shm_ok_def store_ok_def pages_of_def obj_ok_def length_concat comp_def SHM_GLOBAL_MAX_BYTES_def)
qed

definition demo_shm_cmds :: "shm_cmd list" where
  "demo_shm_cmds = [OpenShm [97] 0x2000 1, OpenShm [98] 0x1000 3, RetainShm 1, UnlinkShm [97], CloseShm 0, ReleaseShm 1, TruncateShm 1 0x3000]"

lemma demo_shm_boot: "heap_set demo_heap {}" "owns demo_platform demo_tables {0x3000, 0x4000, 0x5000}"
  using demo_heap_inv demo_tables_owned by (auto simp: heap_set_def kheap_live_def blk_of_def)

lemma demo_shm_legal: "list_all shm_legal demo_shm_cmds" "length demo_shm_cmds < 2 ^ 32"
  by (simp_all add: demo_shm_cmds_def SHM_NAME_MAX_def SHM_MAX_OBJECTS_def)


theorem shm_accounting_witness:
  "\<exists>rs s'. run_cmds (shm_exec demo_platform) demo_shm_cmds (boot_machine demo_tables demo_heap) = Some (rs, s') \<and>
     unat (shm_global_pages s') \<le> 65536 \<and> distinct (concat (map shm_phys (shm_objects s')))"
proof -
  obtain rs s' where r: "run_cmds (shm_exec demo_platform) demo_shm_cmds (boot_machine demo_tables demo_heap) = Some (rs, s')"
    using shm_run[OF boot_shm_ok(1)[OF demo_shm_boot] _ demo_shm_legal(1)] demo_shm_legal(2) by auto
  then show ?thesis using shm_accounting[OF demo_shm_boot demo_shm_legal r] by (auto simp: SHM_GLOBAL_MAX_BYTES_def)
qed

end
