(* ===== verification/ShmCalls.thy ===== *)
theory ShmCalls
  imports UserCopy
begin

text \<open>
  The system calls of \<open>kernel/syscalls/shm.c\<close>: opening and unlinking a named object, and mapping an object into
  the running process. \<open>files\<close> tells whether \<open>create_file\<close> and \<open>create_inode\<close> both succeed and what
  \<open>vfs_install_file\<close> returns; \<open>obj\<close> is the object that \<open>vfs_get_file_from_fd\<close> finds behind a descriptor of
  type \<open>FILE_TYPE_SHM\<close>, \<open>None\<close> when there is none.
\<close>

definition ARMOS_SHM_MAP_READONLY :: int where "ARMOS_SHM_MAP_READONLY = 1"
definition ARMOS_SHM_MAP_READWRITE :: int where "ARMOS_SHM_MAP_READWRITE = 2"

text \<open>The outer loop of \<open>shm_find_free_vaddr\<close>: the first area in the way moves the candidate behind its end.\<close>

partial_function (option) shm_scan :: "vma list \<Rightarrow> u64 \<Rightarrow> u64 \<Rightarrow> u64 option" where
  "shm_scan vs aligned_size addr =
     (if addr \<le> USER_SHM_END - aligned_size then
        (case find (\<lambda>v. addr < vma_end v \<and> vma_start v < addr + aligned_size) vs of
           None \<Rightarrow> Some addr
         | Some v \<Rightarrow> shm_scan vs aligned_size (align_up (vma_end v) PAGE_SIZE - PAGE_SIZE + PAGE_SIZE))
      else Some 0)"

definition shm_find_free_vaddr :: "machine \<Rightarrow> u64 \<Rightarrow> u64 \<Rightarrow> u64 option" where
  "shm_find_free_vaddr s sp sz =
     (let aligned_size = align_up sz PAGE_SIZE in
      if aligned_size = 0 \<or> USER_SHM_END - USER_SHM_START < aligned_size then Some 0
      else shm_scan (vmas s sp) aligned_size USER_SHM_START)"

definition sys_shm_open ::
    "platform \<Rightarrow> u64 \<times> u64 \<Rightarrow> bool \<times> int \<Rightarrow> machine \<Rightarrow> task_faults \<Rightarrow> u64 \<Rightarrow> u64 \<Rightarrow> u64 \<Rightarrow> u32 \<Rightarrow>
     (int \<times> machine \<times> task_faults) option" where
  "sys_shm_open e kimg files s t cur user_name sz flags =
     (if user_name = 0 then Some (neg EINVAL, s, t)
      else do {
        (r, name, s1, t1) \<leftarrow> strncpy_from_user e kimg s t cur user_name SHM_NAME_MAX;
        if r < 0 then Some (neg EFAULT, s1, t1)
        else if name = [] then Some (neg EINVAL, s1, t1)
        else if flags AND NOT (ARMOS_SHM_OPEN_CREATE OR ARMOS_SHM_OPEN_EXCLUSIVE OR ARMOS_SHM_OPEN_READONLY OR
                               ARMOS_SHM_OPEN_CLOEXEC OR ARMOS_SHM_OPEN_TRUNCATE) \<noteq> 0 then Some (neg EINVAL, s1, t1)
        else if flags AND ARMOS_SHM_OPEN_EXCLUSIVE \<noteq> 0 \<and> flags AND ARMOS_SHM_OPEN_CREATE = 0
        then Some (neg EINVAL, s1, t1)
        else if flags AND ARMOS_SHM_OPEN_TRUNCATE \<noteq> 0 \<and> flags AND ARMOS_SHM_OPEN_READONLY \<noteq> 0
        then Some (neg EINVAL, s1, t1)
        else if SHM_GLOBAL_MAX_BYTES < sz then Some (neg EFBIG, s1, t1)
        else do {
          (r, s2) \<leftarrow> shm_open_locked e s1 name (align_up sz PAGE_SIZE) flags;
          case r of
            Inl code \<Rightarrow> Some (code, s2, t1)
          | Inr i \<Rightarrow> do { (fd, s3) \<leftarrow> shm_install_handle e files s2 i; Some (fd, s3, t1) }
        }
      })"

definition sys_shm_unlink ::
    "platform \<Rightarrow> u64 \<times> u64 \<Rightarrow> machine \<Rightarrow> task_faults \<Rightarrow> u64 \<Rightarrow> u64 \<Rightarrow> (int \<times> machine \<times> task_faults) option" where
  "sys_shm_unlink e kimg s t cur user_name =
     (if user_name = 0 then Some (neg EINVAL, s, t)
      else do {
        (r, name, s1, t1) \<leftarrow> strncpy_from_user e kimg s t cur user_name SHM_NAME_MAX;
        if r < 0 then Some (neg EFAULT, s1, t1)
        else do { (r, s2) \<leftarrow> shm_unlink_locked e s1 name; Some (r, s2, t1) }
      })"

text \<open>Taking back the first \<open>n\<close> pages of a mapping that could not be completed. \<open>phys_of j\<close> is the page that the
  code frees for page \<open>j\<close>.\<close>

definition shm_undo_page :: "platform \<Rightarrow> u64 \<Rightarrow> u64 \<Rightarrow> (machine \<Rightarrow> nat \<Rightarrow> u64) \<Rightarrow> machine \<Rightarrow> nat \<Rightarrow> machine" where
  "shm_undo_page e vm vaddr phys_of s j =
     (let mapped = phys_of s j;
          s1 = snd (unmap_user_page e s (space_pgdir s vm) (vaddr + of_nat j * PAGE_SIZE) (space_asid_of s vm))
      in free_page_at e s1 mapped)"

definition shm_mapped_page :: "u64 \<Rightarrow> u64 \<Rightarrow> machine \<Rightarrow> nat \<Rightarrow> u64" where
  "shm_mapped_page vm vaddr s j = get_physical_address s (space_pgdir s vm) (vaddr + of_nat j * PAGE_SIZE)"

text \<open>The mapping loop of \<open>shm_map_fd\<close> from page \<open>i\<close> on: whether every page was mapped.\<close>

fun shm_map_pages ::
    "platform \<Rightarrow> release_call \<Rightarrow> u64 \<Rightarrow> u64 \<Rightarrow> u64 \<Rightarrow> u32 \<Rightarrow> u64 list \<Rightarrow> u64 list \<Rightarrow> nat \<Rightarrow> machine \<Rightarrow> (bool \<times> machine) option" where
  "shm_map_pages e rel vm vaddr mapping_size vflags all [] i s = Some (True, s)"
| "shm_map_pages e rel vm vaddr mapping_size vflags all (p # ps) i s =
     (let shared = vflags AND VMA_SHARED \<noteq> 0;
          (page, s1) =
            (if \<not> shared then
               (let (ph, page) = allocate_page e (phys s); s1 = s\<lparr>phys := ph\<rparr> in
                if page = 0 then (0, s1) else (page, set_pmem s1 (memcpy (pmem (phys s1)) page p 4096)))
             else let (r, ph) = page_ref_inc e (phys s) p in (if isl r then 0 else p, s\<lparr>phys := ph\<rparr>)) in
      if page = 0 then do {
        let s2 = foldl (shm_undo_page e vm vaddr
                   (if shared then (\<lambda>s j. all ! j) else shm_mapped_page vm vaddr)) s1 [0..<i];
        (r, s3) \<leftarrow> remove_vma rel s2 vm vaddr (vaddr + mapping_size);
        Some (False, s3)
      } else do {
        (r, s2) \<leftarrow> map_user_page e vm s1 (space_pgdir s1 vm) (vaddr + of_nat i * PAGE_SIZE) page vflags
                     (space_asid_of s1 vm);
        if r < 0 then do {
          let s3 = foldl (shm_undo_page e vm vaddr (shm_mapped_page vm vaddr)) (free_page_at e s2 page) [0..<i];
          (r, s4) \<leftarrow> remove_vma rel s3 vm vaddr (vaddr + mapping_size);
          Some (False, s4)
        } else shm_map_pages e rel vm vaddr mapping_size vflags all ps (Suc i) s2
      })"

text \<open>The result is an error code or the address of the mapping.\<close>

definition shm_map_fd ::
    "platform \<Rightarrow> release_call \<Rightarrow> machine \<Rightarrow> u64 \<Rightarrow> nat option \<Rightarrow> u64 \<Rightarrow> u64 \<Rightarrow> u32 \<Rightarrow> ((int + u64) \<times> machine) option" where
  "shm_map_fd e rel s vm obj addr requested_size vflags =
     (if vm = 0 then Some (Inl (neg EINVAL), s)
      else if vflags AND (VMA_READ OR VMA_WRITE) = 0 \<or>
              vflags AND NOT (VMA_READ OR VMA_WRITE OR VMA_SHARED) \<noteq> 0 then Some (Inl (neg EINVAL), s)
      else case obj of
        None \<Rightarrow> Some (Inl (neg EBADF), s)
      | Some i \<Rightarrow>
          let shared = vflags AND VMA_SHARED \<noteq> 0; ob = shm_at s i in
          if \<not> shm_used ob then Some (Inl (neg ENOENT), s)
          else if shm_size ob < requested_size then Some (Inl (neg EINVAL), s)
          else let mapping_size = (if requested_size \<noteq> 0 then align_up requested_size PAGE_SIZE else shm_size ob) in
          if mapping_size = 0 \<or> shm_size ob < mapping_size then Some (Inl (neg EINVAL), s)
          else let mapping_pages = ucast (mapping_size div PAGE_SIZE) :: u32 in
          if addr \<noteq> 0 \<and> (addr AND (PAGE_SIZE - 1) \<noteq> 0 \<or> addr < USER_SHM_START \<or>
               USER_SHM_END - USER_SHM_START < mapping_size \<or> USER_SHM_END - mapping_size < addr)
          then Some (Inl (neg EINVAL), s)
          else do {
            vaddr \<leftarrow> (if addr \<noteq> 0 then Some addr else shm_find_free_vaddr s vm mapping_size);
            if vaddr = 0 then Some (Inl (neg ENOMEM), s)
            else do {
              (v, s1) \<leftarrow> create_vma s vm vaddr mapping_size vflags;
              if v = 0 then Some (Inl (neg ENOMEM), s1)
              else let s2 = (if shared then update_vma s1 vm v (\<lambda>c. c\<lparr>shm_id := shm_obj_id ob\<rparr>) else s1) in do {
                (ok, s3) \<leftarrow> shm_map_pages e rel vm vaddr mapping_size vflags (shm_phys ob)
                              (take (unat mapping_pages) (shm_phys ob)) 0 s2;
                if \<not> ok then Some (Inl (neg ENOMEM), s3)
                else Some (Inr vaddr, if shared
                  then set_shm s3 i ((shm_at s3 i)\<lparr>shm_mappings := shm_mappings (shm_at s3 i) + 1\<rparr>) else s3)
              }
            }
          })"

definition sys_shm_map ::
    "platform \<Rightarrow> release_call \<Rightarrow> machine \<Rightarrow> u64 \<Rightarrow> nat option \<Rightarrow> u64 \<Rightarrow> int \<Rightarrow> ((int + u64) \<times> machine) option" where
  "sys_shm_map e rel s vm obj addr flags =
     (if flags \<noteq> ARMOS_SHM_MAP_READONLY \<and> flags \<noteq> ARMOS_SHM_MAP_READWRITE then Some (Inl (neg EINVAL), s)
      else shm_map_fd e rel s vm obj addr 0
             (if flags = ARMOS_SHM_MAP_READWRITE then VMA_READ OR VMA_SHARED OR VMA_WRITE else VMA_READ OR VMA_SHARED))"

definition sys_shm_unmap :: "platform \<Rightarrow> release_call \<Rightarrow> machine \<Rightarrow> u64 \<Rightarrow> u64 \<Rightarrow> u64 \<Rightarrow> (int \<times> machine) option" where
  "sys_shm_unmap e rel s vm start sz =
     (if vm = 0 then Some (neg EINVAL, s)
      else if start = 0 \<or> start AND (PAGE_SIZE - 1) \<noteq> 0 then Some (neg EINVAL, s)
      else let sz = align_up sz PAGE_SIZE in
      if sz = 0 then Some (neg EINVAL, s)
      else if start < USER_SHM_START \<or> USER_SHM_END - USER_SHM_START < sz \<or> USER_SHM_END - sz < start
      then Some (neg EINVAL, s)
      else let end = start + sz in
      case find_vma s vm start of
        None \<Rightarrow> Some (neg EINVAL, s)
      | Some v \<Rightarrow>
          if \<not> has_flag v VMA_SHARED \<or> vma_start v \<noteq> start \<or> vma_end v \<noteq> end then Some (neg EINVAL, s)
          else do {
            s2 \<leftarrow> shm_release_mapping e (unmap_pages e vm False s start end) (shm_id v);
            remove_vma rel s2 vm start end
          })"

end
