(* ===== verification/FdtMemory.thy ===== *)
theory FdtMemory
  imports PhysMem "HOL-Library.Monad_Syntax"
begin

text \<open>
  The device-tree reader of early boot (\<open>kernel/lib/fdt_memory.c\<close>). The blob is the list of the bytes that may be
  read from \<open>dtb_ptr\<close> on, pointers into it are offsets, and a read outside of it has no value: a function whose
  result is \<open>None\<close> has read out of bounds, or for the token loop not come back. The functions that report failure by \<open>false\<close> return the flag
  together with what they wrote through their pointers.
\<close>

type_synonym blob = "u8 list"
type_synonym ranges = "(u64 \<times> u64) list"

definition FDT_MAX_DEPTH :: nat where "FDT_MAX_DEPTH = 16"
definition FDT_MEMORY_MAX_RANGES :: nat where "FDT_MEMORY_MAX_RANGES = 8"
definition FDT_RESERVED_MAX_RANGES :: nat where "FDT_RESERVED_MAX_RANGES = 16"
definition FDT_MAGIC :: u32 where "FDT_MAGIC = 0xD00DFEED"
definition FDT_BEGIN_NODE :: u32 where "FDT_BEGIN_NODE = 1"
definition FDT_END_NODE :: u32 where "FDT_END_NODE = 2"
definition FDT_PROP :: u32 where "FDT_PROP = 3"
definition FDT_NOP :: u32 where "FDT_NOP = 4"
definition FDT_END :: u32 where "FDT_END = 9"

datatype fdt_node_kind = FDT_NODE_OTHER | FDT_NODE_MEMORY | FDT_NODE_RESERVED_CONTAINER | FDT_NODE_RESERVED_CHILD

subsection \<open>Reading the blob\<close>

definition read8 :: "blob \<Rightarrow> nat \<Rightarrow> u8 option" where
  "read8 b off = (if off < length b then Some (b ! off) else None)"

definition read_be32 :: "blob \<Rightarrow> nat \<Rightarrow> u32 option" where
  "read_be32 b off = do {
     b0 \<leftarrow> read8 b off; b1 \<leftarrow> read8 b (off + 1); b2 \<leftarrow> read8 b (off + 2); b3 \<leftarrow> read8 b (off + 3);
     Some (push_bit 24 (ucast b0) OR push_bit 16 (ucast b1) OR push_bit 8 (ucast b2) OR ucast b3)
   }"

definition read_be64 :: "blob \<Rightarrow> nat \<Rightarrow> u64 option" where
  "read_be64 b off = do {
     hi \<leftarrow> read_be32 b off; lo \<leftarrow> read_be32 b (off + 4);
     Some (push_bit 32 (ucast hi) OR ucast lo)
   }"

definition ranges_fit :: "u32 \<Rightarrow> u32 \<Rightarrow> u32 \<Rightarrow> bool" where
  "ranges_fit offset len limit \<longleftrightarrow> offset \<le> limit \<and> len \<le> limit - offset"

text \<open>\<open>expected\<close> is the C string without its NUL; \<open>available\<close> is what is left of the bytes of the name.\<close>

fun name_equals :: "blob \<Rightarrow> nat \<Rightarrow> nat \<Rightarrow> u8 list \<Rightarrow> bool option" where
  "name_equals b name available [] =
     (if 0 < available then do { c \<leftarrow> read8 b name; Some (c = 0) } else Some False)"
| "name_equals b name available (x # xs) =
     (if 0 < available then do {
        c \<leftarrow> read8 b name;
        if c \<noteq> x then Some False else name_equals b (name + 1) (available - 1) xs
      } else Some False)"

fun node_matches :: "blob \<Rightarrow> nat \<Rightarrow> nat \<Rightarrow> u8 list \<Rightarrow> bool option" where
  "node_matches b name available [] =
     (if 0 < available then do { c \<leftarrow> read8 b name; Some (c = 0 \<or> c = 0x40) } else Some False)"
| "node_matches b name available (x # xs) =
     (if 0 < available then do {
        c \<leftarrow> read8 b name;
        if c \<noteq> x then Some False else node_matches b (name + 1) (available - 1) xs
      } else Some False)"

text \<open>The NUL at or after \<open>cursor\<close>, or \<open>end\<close> when there is none before it.\<close>

function find_nul :: "blob \<Rightarrow> nat \<Rightarrow> nat \<Rightarrow> nat option" where
  "find_nul b end cursor =
     (if cursor < end then do {
        c \<leftarrow> read8 b cursor;
        if c \<noteq> 0 then find_nul b end (cursor + 1) else Some cursor
      } else Some cursor)"
  by pat_completeness auto
termination
  by (relation "measure (\<lambda>(b, end, cursor). end - cursor)") auto

declare find_nul.simps [simp del]

definition find_terminated_name :: "blob \<Rightarrow> nat \<Rightarrow> nat \<Rightarrow> (bool \<times> u32) option" where
  "find_terminated_name b start end = do {
     cursor \<leftarrow> find_nul b end start;
     Some (if cursor = end then (False, 0) else (True, of_nat (cursor - start) + 1))
   }"

definition decode_cells :: "blob \<Rightarrow> nat \<Rightarrow> u32 \<Rightarrow> (bool \<times> u64) option" where
  "decode_cells b data n =
     (if n = 1 then do { v \<leftarrow> read_be32 b data; Some (True, ucast v) }
      else if n = 2 then do {
        hi \<leftarrow> read_be32 b data; lo \<leftarrow> read_be32 b (data + 4);
        Some (True, push_bit 32 (ucast hi) OR ucast lo)
      } else Some (False, 0))"

subsection \<open>Ranges\<close>

definition value_fits_paddr :: "u64 \<Rightarrow> bool" where
  "value_fits_paddr v \<longleftrightarrow> (ucast (ucast v :: paddr) :: u64) = v"

definition append_range :: "ranges \<Rightarrow> nat \<Rightarrow> u64 \<Rightarrow> u64 \<Rightarrow> bool \<times> ranges" where
  "append_range rs capacity start sz =
     (if sz = 0 then (True, rs)
      else if capacity \<le> length rs \<or> \<not> value_fits_paddr start \<or> \<not> value_fits_paddr sz \<or> start + sz < start \<or>
              \<not> value_fits_paddr (start + sz - 1) then (False, rs)
      else (True, rs @ [(start, sz)]))"

text \<open>The loop of \<open>decode_reg_ranges\<close> with \<open>n\<close> tuples to go.\<close>

fun decode_tuples :: "blob \<Rightarrow> nat \<Rightarrow> nat \<Rightarrow> nat \<Rightarrow> u32 \<Rightarrow> u32 \<Rightarrow> ranges \<Rightarrow> nat \<Rightarrow> (bool \<times> ranges) option" where
  "decode_tuples b data tuple_bytes 0 address_cells size_cells rs capacity = Some (True, rs)"
| "decode_tuples b data tuple_bytes (Suc n) address_cells size_cells rs capacity = do {
     (ok, start) \<leftarrow> decode_cells b data address_cells;
     if \<not> ok then Some (False, rs)
     else do {
       (ok, sz) \<leftarrow> decode_cells b (data + unat (address_cells * 4)) size_cells;
       if \<not> ok then Some (False, rs)
       else let (ok, rs1) = append_range rs capacity start sz in
         if \<not> ok then Some (False, rs1)
         else decode_tuples b (data + tuple_bytes) tuple_bytes n address_cells size_cells rs1 capacity
     }
   }"

definition decode_reg_ranges :: "blob \<Rightarrow> nat \<Rightarrow> u32 \<Rightarrow> u32 \<Rightarrow> u32 \<Rightarrow> ranges \<Rightarrow> nat \<Rightarrow> (bool \<times> ranges) option" where
  "decode_reg_ranges b data len address_cells size_cells rs capacity =
     (let tuple_cells = address_cells + size_cells in
      if tuple_cells = 0 \<or> 4 < tuple_cells then Some (False, rs)
      else let tuple_bytes = tuple_cells * 4 in
      if len = 0 \<or> len mod tuple_bytes \<noteq> 0 then Some (False, rs)
      else decode_tuples b data (unat tuple_bytes) (unat (len div tuple_bytes)) address_cells size_cells rs capacity)"

text \<open>The loop over the reservation map up to \<open>limit\<close>.\<close>

function read_reservations :: "blob \<Rightarrow> nat \<Rightarrow> nat \<Rightarrow> ranges \<Rightarrow> (bool \<times> ranges) option" where
  "read_reservations b limit cursor rs =
     (if cursor + 16 \<le> limit then do {
        start \<leftarrow> read_be64 b cursor;
        sz \<leftarrow> read_be64 b (cursor + 8);
        if start = 0 \<and> sz = 0 then Some (True, rs)
        else let (ok, rs1) = append_range rs FDT_RESERVED_MAX_RANGES start sz in
          if \<not> ok then Some (False, rs1) else read_reservations b limit (cursor + 16) rs1
      } else Some (False, rs))"
  by pat_completeness auto
termination
  by (relation "measure (\<lambda>(b, limit, cursor, rs). limit - cursor)") auto

declare read_reservations.simps [simp del]

definition read_reservation_map :: "blob \<Rightarrow> u32 \<Rightarrow> u32 \<Rightarrow> ranges \<Rightarrow> (bool \<times> ranges) option" where
  "read_reservation_map b limit offset rs =
     (if \<not> ranges_fit offset 16 limit then Some (False, rs)
      else read_reservations b (unat limit) (unat offset) rs)"

subsection \<open>The structure block\<close>

text \<open>The local variables of \<open>fdt_read_memory_layout\<close> and the layout it fills in. The entries of \<open>node_kinds\<close> at
  and above \<open>depth\<close> are never read.\<close>

record fdt_scan =
  address_cells :: u32
  size_cells :: u32
  reserved_address_cells :: u32
  reserved_size_cells :: u32
  node_kinds :: "fdt_node_kind list"
  depth :: nat
  have_root :: bool
  memory_ranges :: ranges
  reserved_ranges :: ranges

definition str_memory :: "u8 list" where
  "str_memory = map (of_nat \<circ> of_char) ''memory''"

definition str_reserved_memory :: "u8 list" where
  "str_reserved_memory = map (of_nat \<circ> of_char) ''reserved-memory''"

definition str_address_cells :: "u8 list" where
  "str_address_cells = map (of_nat \<circ> of_char) ''#address-cells''"

definition str_size_cells :: "u8 list" where
  "str_size_cells = map (of_nat \<circ> of_char) ''#size-cells''"

definition str_reg :: "u8 list" where
  "str_reg = map (of_nat \<circ> of_char) ''reg''"

text \<open>The branch for \<open>FDT_BEGIN_NODE\<close>: whether to go on, the new cursor and the new state.\<close>

definition fdt_begin_node :: "blob \<Rightarrow> nat \<Rightarrow> nat \<Rightarrow> fdt_scan \<Rightarrow> (bool \<times> nat \<times> fdt_scan) option" where
  "fdt_begin_node b struct_end cursor st =
     (if FDT_MAX_DEPTH \<le> depth st then Some (False, cursor, st)
      else do {
        (found, name_length) \<leftarrow> find_terminated_name b cursor struct_end;
        if \<not> found then Some (False, cursor, st)
        else do {
          (kind, st1) \<leftarrow>
            (if \<not> have_root st then Some (FDT_NODE_OTHER, st\<lparr>have_root := True\<rparr>)
             else do {
               is_memory \<leftarrow> (if depth st = 1 then node_matches b cursor (unat name_length) str_memory else Some False);
               if is_memory then Some (FDT_NODE_MEMORY, st)
               else do {
                 is_reserved \<leftarrow> (if depth st = 1 then name_equals b cursor (unat name_length) str_reserved_memory else Some False);
                 if is_reserved then Some (FDT_NODE_RESERVED_CONTAINER,
                   st\<lparr>reserved_address_cells := address_cells st, reserved_size_cells := size_cells st\<rparr>)
                 else if 0 < depth st \<and> node_kinds st ! (depth st - 1) = FDT_NODE_RESERVED_CONTAINER
                 then Some (FDT_NODE_RESERVED_CHILD, st)
                 else Some (FDT_NODE_OTHER, st)
               }
             });
          let st2 = st1\<lparr>node_kinds := (node_kinds st1)[depth st1 := kind], depth := depth st1 + 1\<rparr>;
          let cursor1 = cursor + unat ((name_length + 3) AND NOT 3);
          Some (cursor1 \<le> struct_end, cursor1, st2)
        }
      })"

text \<open>The chain of comparisons on the name of a property of \<open>len\<close> bytes at \<open>cursor\<close>.\<close>

definition fdt_apply_prop :: "blob \<Rightarrow> nat \<Rightarrow> u32 \<Rightarrow> nat \<Rightarrow> u32 \<Rightarrow> fdt_scan \<Rightarrow> (bool \<times> fdt_scan) option" where
  "fdt_apply_prop b cursor len name name_length st = do {
     let kind = node_kinds st ! (depth st - 1);
     let named = (\<lambda>cond str. if cond then name_equals b name (unat name_length) str else Some False);
     c \<leftarrow> named (depth st = 1 \<and> 4 \<le> len) str_address_cells;
     if c then do { v \<leftarrow> read_be32 b cursor; Some (True, st\<lparr>address_cells := v\<rparr>) } else do {
     c \<leftarrow> named (depth st = 1 \<and> 4 \<le> len) str_size_cells;
     if c then do { v \<leftarrow> read_be32 b cursor; Some (True, st\<lparr>size_cells := v\<rparr>) } else do {
     c \<leftarrow> named (kind = FDT_NODE_RESERVED_CONTAINER \<and> 4 \<le> len) str_address_cells;
     if c then do { v \<leftarrow> read_be32 b cursor; Some (True, st\<lparr>reserved_address_cells := v\<rparr>) } else do {
     c \<leftarrow> named (kind = FDT_NODE_RESERVED_CONTAINER \<and> 4 \<le> len) str_size_cells;
     if c then do { v \<leftarrow> read_be32 b cursor; Some (True, st\<lparr>reserved_size_cells := v\<rparr>) } else do {
     c \<leftarrow> named (kind = FDT_NODE_MEMORY) str_reg;
     if c then do {
       (ok, rs) \<leftarrow> decode_reg_ranges b cursor len (address_cells st) (size_cells st) (memory_ranges st) FDT_MEMORY_MAX_RANGES;
       Some (ok, st\<lparr>memory_ranges := rs\<rparr>)
     } else do {
     c \<leftarrow> named (kind = FDT_NODE_RESERVED_CHILD) str_reg;
     if c then do {
       (ok, rs) \<leftarrow> decode_reg_ranges b cursor len (reserved_address_cells st) (reserved_size_cells st) (reserved_ranges st)
                    FDT_RESERVED_MAX_RANGES;
       Some (ok, st\<lparr>reserved_ranges := rs\<rparr>)
     } else Some (True, st)
   }}}}}}"

definition fdt_prop :: "blob \<Rightarrow> nat \<Rightarrow> u32 \<Rightarrow> nat \<Rightarrow> nat \<Rightarrow> fdt_scan \<Rightarrow> (bool \<times> nat \<times> fdt_scan) option" where
  "fdt_prop b strings strings_size struct_end cursor st =
     (if depth st = 0 \<or> struct_end < cursor + 8 then Some (False, cursor, st)
      else do {
        len \<leftarrow> read_be32 b cursor;
        name_offset \<leftarrow> read_be32 b (cursor + 4);
        let cursor = cursor + 8;
        if of_nat (struct_end - cursor) < len \<or> strings_size \<le> name_offset then Some (False, cursor, st)
        else do {
          let name = strings + unat name_offset;
          (found, name_length) \<leftarrow> find_terminated_name b name (strings + unat strings_size);
          if \<not> found then Some (False, cursor, st)
          else do {
            (ok, st1) \<leftarrow> fdt_apply_prop b cursor len name name_length st;
            if \<not> ok then Some (False, cursor, st1)
            else do {
              let cursor1 = cursor + unat ((len + 3) AND NOT 3);
              Some (cursor1 \<le> struct_end, cursor1, st1)
            }
          }
        }
      })"

text \<open>The token loop.\<close>

partial_function (option) fdt_walk :: "blob \<Rightarrow> nat \<Rightarrow> u32 \<Rightarrow> nat \<Rightarrow> nat \<Rightarrow> fdt_scan \<Rightarrow> (bool \<times> fdt_scan) option" where
  "fdt_walk b strings strings_size struct_end cursor st =
     (if cursor + 4 \<le> struct_end then do {
        token \<leftarrow> read_be32 b cursor;
        if token = FDT_BEGIN_NODE then do {
          (ok, cursor1, st1) \<leftarrow> fdt_begin_node b struct_end (cursor + 4) st;
          if ok then fdt_walk b strings strings_size struct_end cursor1 st1 else Some (False, st1)
        } else if token = FDT_END_NODE then
          (if depth st = 0 then Some (False, st)
           else fdt_walk b strings strings_size struct_end (cursor + 4) (st\<lparr>depth := depth st - 1\<rparr>))
        else if token = FDT_PROP then do {
          (ok, cursor1, st1) \<leftarrow> fdt_prop b strings strings_size struct_end (cursor + 4) st;
          if ok then fdt_walk b strings strings_size struct_end cursor1 st1 else Some (False, st1)
        } else if token = FDT_NOP then fdt_walk b strings strings_size struct_end (cursor + 4) st
        else if token = FDT_END then Some (depth st = 0 \<and> memory_ranges st \<noteq> [], st)
        else Some (False, st)
      } else Some (False, st))"

declare fdt_walk.simps [code]

record fdt_memory_layout =
  memory :: ranges
  reserved :: ranges
  dtb_start :: u64
  dtb_size :: u64

text \<open>\<open>layout\<close> is the structure the caller passes; its arrays are the lists up to their counts.
  The only caller, \<open>detect_memory\<close>, passes the address of a local variable, so the test of that pointer for NULL is left out.\<close>

definition fdt_read_memory_layout :: "u64 \<Rightarrow> blob \<Rightarrow> fdt_memory_layout \<Rightarrow> (bool \<times> fdt_memory_layout) option" where
  "fdt_read_memory_layout dtb_ptr b layout =
     (if dtb_ptr = 0 then Some (False, layout)
      else do {
        magic \<leftarrow> read_be32 b 0;
        if magic \<noteq> FDT_MAGIC then Some (False, layout)
        else do {
          totalsize \<leftarrow> read_be32 b 4;
          struct_offset \<leftarrow> read_be32 b 8;
          struct_size \<leftarrow> read_be32 b 36;
          strings_offset \<leftarrow> read_be32 b 12;
          strings_size \<leftarrow> read_be32 b 32;
          if totalsize < 40 \<or> \<not> ranges_fit struct_offset struct_size totalsize \<or> \<not> ranges_fit strings_offset strings_size totalsize
          then Some (False, layout)
          else do {
            let layout = layout\<lparr>memory := [], reserved := [], dtb_start := dtb_ptr, dtb_size := ucast totalsize\<rparr>;
            rsvmap \<leftarrow> read_be32 b 16;
            (ok, rs) \<leftarrow> read_reservation_map b struct_offset rsvmap [];
            if \<not> ok then Some (False, layout\<lparr>reserved := rs\<rparr>)
            else let (ok, rs) = append_range rs FDT_RESERVED_MAX_RANGES dtb_ptr (ucast totalsize) in
            if \<not> ok then Some (False, layout\<lparr>reserved := rs\<rparr>)
            else do {
              (ok, st) \<leftarrow> fdt_walk b (unat strings_offset) strings_size (unat struct_offset + unat struct_size) (unat struct_offset)
                 \<lparr>address_cells = 2, size_cells = 1, reserved_address_cells = 2, reserved_size_cells = 1,
                   node_kinds = replicate FDT_MAX_DEPTH FDT_NODE_OTHER, depth = 0, have_root = False,
                   memory_ranges = [], reserved_ranges = rs\<rparr>;
              Some (ok, layout\<lparr>memory := memory_ranges st, reserved := reserved_ranges st\<rparr>)
            }
          }
        }
      })"

end
