(* ===== verification/FdtMemory_Correct.thy ===== *)
theory FdtMemory_Correct
  imports FdtMemory
begin

text \<open>
  The device-tree reader against arbitrary blob contents: which bytes it reads, that it comes back, and what the ranges
  of an accepted layout satisfy.
\<close>

subsection \<open>Reads inside the blob\<close>

lemma read8_in: "off < length b \<Longrightarrow> \<exists>v. read8 b off = Some v"
  by (simp add: read8_def)

lemma read_be32_in: "off + 4 \<le> length b \<Longrightarrow> \<exists>v. read_be32 b off = Some v"
  by (simp add: read_be32_def read8_def)

lemma read_be64_in: "off + 8 \<le> length b \<Longrightarrow> \<exists>v. read_be64 b off = Some v"
  using read_be32_in[of off b] read_be32_in[of "off + 4" b] by (auto simp: read_be64_def)

lemma name_equals_in: "name + available \<le> length b \<Longrightarrow> \<exists>r. name_equals b name available xs = Some r"
  by (induction b name available xs rule: name_equals.induct) (auto simp: read8_def)

lemma node_matches_in: "name + available \<le> length b \<Longrightarrow> \<exists>r. node_matches b name available xs = Some r"
  by (induction b name available xs rule: node_matches.induct) (auto simp: read8_def)

lemma find_nul_in: "end \<le> length b \<Longrightarrow> cursor \<le> end \<Longrightarrow> \<exists>c. find_nul b end cursor = Some c \<and> cursor \<le> c \<and> c \<le> end"
proof (induction b "end" cursor rule: find_nul.induct)
  case (1 b "end" cursor)
  then show ?case by (subst find_nul.simps) (auto simp: read8_def intro: Suc_leD)
qed

lemma find_terminated_name_in:
  assumes "end \<le> length b" "start \<le> end" "end < 2 ^ 32"
  shows "\<exists>ok n. find_terminated_name b start end = Some (ok, n) \<and> (ok \<longrightarrow> start + unat n \<le> end)"
proof -
  obtain c where c: "find_nul b end start = Some c" "start \<le> c" "c \<le> end" using find_nul_in[OF assms(1,2)] by blast
  define k where "k = c - start"
  have "of_nat k + 1 = (of_nat (Suc k) :: u32)" by simp
  then have "unat (of_nat (c - start) + 1 :: u32) = c - start + 1" if "c < end"
    using that c(2) assms(3) unfolding k_def[symmetric] by (simp only: unsigned_of_nat) (simp add: k_def take_bit_nat_eq_self)
  then show ?thesis using c by (auto simp: find_terminated_name_def)
qed

lemma decode_cells_in:
  assumes "n = 1 \<Longrightarrow> data + 4 \<le> length b" "n = 2 \<Longrightarrow> data + 8 \<le> length b"
  shows "\<exists>ok v. decode_cells b data n = Some (ok, v) \<and> (ok \<longrightarrow> n = 1 \<or> n = 2)"
  using assms read_be32_in[of data b] read_be32_in[of "data + 4" b] by (auto simp: decode_cells_def ex_bool_eq)

subsection \<open>Ranges\<close>

definition ranges_ok :: "nat \<Rightarrow> ranges \<Rightarrow> bool" where
  "ranges_ok capacity rs \<longleftrightarrow> length rs \<le> capacity \<and> (\<forall>(start, sz) \<in> set rs. sz \<noteq> 0 \<and> unat start + unat sz < 2 ^ 64)"

lemma append_range_ok:
  assumes "ranges_ok capacity rs" "append_range rs capacity start sz = (ok, rs')"
  shows "ranges_ok capacity rs'" "set rs \<subseteq> set rs'" "ok \<Longrightarrow> sz \<noteq> 0 \<Longrightarrow> (start, sz) \<in> set rs'"
proof -
  have "unat start + unat sz < 2 ^ 64" if "\<not> start + sz < start"
  proof (rule ccontr)
    assume "\<not> unat start + unat sz < 2 ^ 64"
    then have "unat (start + sz) < unat start"
      using unat64_less[of start] unat64_less[of sz] by (simp add: unat_word_ariths le_mod_geq)
    then show False using that by (simp add: word_less_nat_alt)
  qed
  then show "ranges_ok capacity rs'" "set rs \<subseteq> set rs'" "ok \<Longrightarrow> sz \<noteq> 0 \<Longrightarrow> (start, sz) \<in> set rs'"
    using assms by (auto simp: append_range_def ranges_ok_def split: if_splits)
qed

lemma decode_tuples_in:
  assumes "ranges_ok capacity rs" "tuple = unat ((ac + sc) * 4 :: u32)" "data + n * tuple + 4 \<le> length b" "unat (ac + sc) \<le> 4" "ac + sc \<noteq> 0"
  shows "\<exists>ok rs'. decode_tuples b data tuple n ac sc rs capacity = Some (ok, rs') \<and> ranges_ok capacity rs' \<and> set rs \<subseteq> set rs'"
  using assms(1,3)
proof (induction n arbitrary: data rs)
  case (Suc n)
  have "unat (m * 4) = 4 * unat m" if "unat m \<le> 4" for m :: u32 using that by (simp add: unat_word_ariths(2))
  then have t: "tuple = 4 * unat (ac + sc)" using assms(2,4) by blast
  have t4: "4 \<le> tuple" using t assms(5) by (simp add: Suc_le_eq unat_gt_0)
  have ac: "\<exists>ok v. decode_cells b data ac = Some (ok, v) \<and> (ok \<longrightarrow> ac = 1 \<or> ac = 2)"
    using Suc.prems(2) t4 by (intro decode_cells_in) auto
  have sc: "\<exists>ok v. decode_cells b (data + unat (ac * 4)) sc = Some (ok, v)" if "ac = 1 \<or> ac = 2"
  proof -
    have "tuple = 4 * unat ac + 4 * unat sc" if "sc = 1 \<or> sc = 2" using t that \<open>ac = 1 \<or> ac = 2\<close> by auto
    then have "\<exists>ok v. decode_cells b (data + unat (ac * 4)) sc = Some (ok, v) \<and> (ok \<longrightarrow> sc = 1 \<or> sc = 2)"
      using Suc.prems(2) that by (intro decode_cells_in) auto
    then show ?thesis by blast
  qed
  obtain ok1 start where A: "decode_cells b data ac = Some (ok1, start)" "ok1 \<longrightarrow> ac = 1 \<or> ac = 2" using ac by blast
  show ?case
  proof (cases ok1)
    case True
    then obtain ok2 sz where S: "decode_cells b (data + unat (ac * 4)) sc = Some (ok2, sz)" using A(2) sc by blast
    obtain ok3 rs1 where R: "append_range rs capacity start sz = (ok3, rs1)" by fastforce
    note P = append_range_ok(1,2)[OF Suc.prems(1) R]
    have "data + tuple + n * tuple + 4 \<le> length b" using Suc.prems(2) by simp
    from Suc.IH[OF P(1) this] obtain ok rs' where "decode_tuples b (data + tuple) tuple n ac sc rs1 capacity = Some (ok, rs')"
      "ranges_ok capacity rs'" "set rs1 \<subseteq> set rs'" by blast
    then show ?thesis using A S R P Suc.prems(1) True by (cases ok2; cases ok3) auto
  qed (use A Suc.prems(1) in auto)
qed (simp add: ex_bool_eq)

lemma decode_reg_ranges_in:
  assumes "ranges_ok capacity rs" "data + unat len + 4 \<le> length b"
  shows "\<exists>ok rs'. decode_reg_ranges b data len ac sc rs capacity = Some (ok, rs') \<and> ranges_ok capacity rs' \<and> set rs \<subseteq> set rs'"
proof (cases "ac + sc = 0 \<or> 4 < ac + sc \<or> len = 0 \<or> len mod ((ac + sc) * 4) \<noteq> 0")
  case True
  then show ?thesis using assms(1) by (auto simp: decode_reg_ranges_def Let_def)
next
  case False
  let ?t = "(ac + sc) * 4"
  have "unat (len div ?t) * unat ?t \<le> unat len" by (simp add: unat_div)
  then have "data + unat (len div ?t) * unat ?t + 4 \<le> length b" using assms(2) by linarith
  moreover have "unat (ac + sc) \<le> 4" "ac + sc \<noteq> 0" using False by (simp_all add: word_less_nat_alt)
  ultimately show ?thesis using decode_tuples_in[OF assms(1) refl] False by (simp add: decode_reg_ranges_def Let_def)
qed

lemma read_reservations_in:
  assumes "limit \<le> length b" "ranges_ok FDT_RESERVED_MAX_RANGES rs"
  shows "\<exists>ok rs'. read_reservations b limit cursor rs = Some (ok, rs') \<and> ranges_ok FDT_RESERVED_MAX_RANGES rs'"
  using assms
proof (induction b limit cursor rs rule: read_reservations.induct)
  case (1 b limit cursor rs)
  show ?case
  proof (cases "cursor + 16 \<le> limit")
    case True
    obtain start where s: "read_be64 b cursor = Some start" using read_be64_in[of cursor b] True 1(2) by auto
    obtain sz where z: "read_be64 b (cursor + 8) = Some sz" using read_be64_in[of "cursor + 8" b] True 1(2) by auto
    obtain ok rs1 where a: "append_range rs FDT_RESERVED_MAX_RANGES start sz = (ok, rs1)" by fastforce
    note R = append_range_ok(1)[OF 1(3) a]
    show ?thesis
    proof (cases "start = 0 \<and> sz = 0 \<or> \<not> ok")
      case stop: True
      then show ?thesis using True s z a R 1(3) by (subst read_reservations.simps) auto
    next
      case False
      have "read_reservations b limit cursor rs = read_reservations b limit (cursor + 16) rs1"
        using True False s z a by (subst read_reservations.simps) auto
      then show ?thesis using 1(1)[OF True s z _ refl a[symmetric] _ 1(2) R] False by simp
    qed
  qed (use 1(3) in \<open>subst read_reservations.simps, auto\<close>)
qed

lemma read_reservation_map_in:
  assumes "unat limit \<le> length b" "ranges_ok FDT_RESERVED_MAX_RANGES rs"
  shows "\<exists>ok rs'. read_reservation_map b limit off rs = Some (ok, rs') \<and> ranges_ok FDT_RESERVED_MAX_RANGES rs'"
  using read_reservations_in[OF assms] assms(2) by (cases "ranges_fit off 16 limit") (auto simp: read_reservation_map_def)

subsection \<open>The structure block\<close>

definition scan_ok :: "(u64 \<times> u64) set \<Rightarrow> fdt_scan \<Rightarrow> bool" where
  "scan_ok X st \<longleftrightarrow> depth st \<le> FDT_MAX_DEPTH \<and> length (node_kinds st) = FDT_MAX_DEPTH \<and> ranges_ok FDT_MEMORY_MAX_RANGES (memory_ranges st) \<and>
     ranges_ok FDT_RESERVED_MAX_RANGES (reserved_ranges st) \<and> X \<subseteq> set (reserved_ranges st)"

lemma begin_node_in:
  assumes "struct_end \<le> length b" "struct_end < 2 ^ 32" "cursor \<le> struct_end" "scan_ok X st"
  shows "\<exists>ok c st'. fdt_begin_node b struct_end cursor st = Some (ok, c, st') \<and> scan_ok X st' \<and> cursor \<le> c \<and> (ok \<longrightarrow> c \<le> struct_end)"
proof (cases "FDT_MAX_DEPTH \<le> depth st")
  case True
  then show ?thesis using assms(4) by (auto simp: fdt_begin_node_def)
next
  case False
  obtain found n where F: "find_terminated_name b cursor struct_end = Some (found, n)" "found \<longrightarrow> cursor + unat n \<le> struct_end"
    using find_terminated_name_in[OF assms(1,3,2)] by blast
  show ?thesis
  proof (cases found)
    case True
    then have av: "cursor + unat n \<le> length b" using F(2) assms(1) by simp
    obtain m where m: "node_matches b cursor (unat n) str_memory = Some m" using node_matches_in[OF av] by blast
    obtain r where r: "name_equals b cursor (unat n) str_reserved_memory = Some r" using name_equals_in[OF av] by blast
    show ?thesis using False F(1) True m r assms(4)
      by (auto simp: fdt_begin_node_def scan_ok_def Let_def)
  qed (use False F(1) assms(4) in \<open>auto simp: fdt_begin_node_def\<close>)
qed

lemma apply_prop_in:
  assumes "cursor + unat len + 4 \<le> length b" "name + unat n \<le> length b" "scan_ok X st"
  shows "\<exists>ok st'. fdt_apply_prop b cursor len name n st = Some (ok, st') \<and> scan_ok X st'"
proof -
  obtain c1 c2 c3 where c: "name_equals b name (unat n) str_address_cells = Some c1" "name_equals b name (unat n) str_size_cells = Some c2"
    "name_equals b name (unat n) str_reg = Some c3"
    using name_equals_in[OF assms(2)] by metis
  obtain v where v: "read_be32 b cursor = Some v" using read_be32_in[of cursor b] assms(1) by auto
  have rk: "ranges_ok FDT_MEMORY_MAX_RANGES (memory_ranges st)" "ranges_ok FDT_RESERVED_MAX_RANGES (reserved_ranges st)" "X \<subseteq> set (reserved_ranges st)"
    using assms(3) by (auto simp: scan_ok_def)
  obtain ok1 rs1 where 1: "decode_reg_ranges b cursor len (address_cells st) (size_cells st) (memory_ranges st) FDT_MEMORY_MAX_RANGES = Some (ok1, rs1)"
    "ranges_ok FDT_MEMORY_MAX_RANGES rs1"
    using decode_reg_ranges_in[OF rk(1) assms(1)] by blast
  obtain ok2 rs2 where 2: "decode_reg_ranges b cursor len (reserved_address_cells st) (reserved_size_cells st) (reserved_ranges st)
      FDT_RESERVED_MAX_RANGES = Some (ok2, rs2)" "ranges_ok FDT_RESERVED_MAX_RANGES rs2" "set (reserved_ranges st) \<subseteq> set rs2"
    using decode_reg_ranges_in[OF rk(2) assms(1)] by blast
  have st: "scan_ok X (st\<lparr>address_cells := v\<rparr>)" "scan_ok X (st\<lparr>size_cells := v\<rparr>)" "scan_ok X (st\<lparr>reserved_address_cells := v\<rparr>)"
    "scan_ok X (st\<lparr>reserved_size_cells := v\<rparr>)" "scan_ok X (st\<lparr>memory_ranges := rs1\<rparr>)" "scan_ok X (st\<lparr>reserved_ranges := rs2\<rparr>)"
    using assms(3) 1(2) 2(2,3) rk by (auto simp: scan_ok_def)
  show ?thesis unfolding fdt_apply_prop_def Let_def using st assms(3)
    by (simp add: c v 1(1) 2(1) ex_bool_eq)
qed

lemma prop_in:
  assumes "struct_end + 4 \<le> length b" "struct_end < 2 ^ 32" "strings + unat strings_size \<le> length b" "strings + unat strings_size < 2 ^ 32" "scan_ok X st"
  shows "\<exists>ok c st'. fdt_prop b strings strings_size struct_end cursor st = Some (ok, c, st') \<and> scan_ok X st' \<and> cursor \<le> c \<and> (ok \<longrightarrow> c \<le> struct_end)"
proof (cases "depth st = 0 \<or> struct_end < cursor + 8")
  case True
  then show ?thesis using assms(5) by (auto simp: fdt_prop_def)
next
  case False
  obtain len off where r: "read_be32 b cursor = Some len" "read_be32 b (cursor + 4) = Some off"
    using read_be32_in[of cursor b] read_be32_in[of "cursor + 4" b] False assms(1) by auto
  show ?thesis
  proof (cases "of_nat (struct_end - (cursor + 8)) < len \<or> strings_size \<le> off")
    case bad: True
    then show ?thesis using False r assms(5) by (auto simp: fdt_prop_def Let_def)
  next
    case good: False
    define k where "k = struct_end - (cursor + 8)"
    have "unat (of_nat k :: u32) = k" using assms(2) by (simp add: unsigned_of_nat take_bit_nat_eq_self k_def)
    then have "unat len \<le> k" using good by (simp add: k_def[symmetric] word_less_nat_alt)
    moreover have "cursor + 8 \<le> struct_end" using False by simp
    ultimately have len: "cursor + 8 + unat len + 4 \<le> length b" using assms(1) unfolding k_def by linarith
    have off: "strings + unat off \<le> strings + unat strings_size" using good by (simp add: word_le_nat_alt)
    obtain found n where F: "find_terminated_name b (strings + unat off) (strings + unat strings_size) = Some (found, n)"
      "found \<longrightarrow> strings + unat off + unat n \<le> strings + unat strings_size"
      using find_terminated_name_in[OF assms(3) off assms(4)] by blast
    show ?thesis
    proof (cases found)
      case True
      then have "strings + unat off + unat n \<le> length b" using F(2) assms(3) by simp
      from apply_prop_in[OF len this assms(5)] obtain ok st' where
        "fdt_apply_prop b (cursor + 8) len (strings + unat off) n st = Some (ok, st')" "scan_ok X st'" by blast
      then show ?thesis using False r good F(1) True by (cases ok) (auto simp: fdt_prop_def Let_def)
    qed (use False r good F(1) assms(5) in \<open>auto simp: fdt_prop_def Let_def\<close>)
  qed
qed

lemma walk_in:
  assumes "struct_end + 4 \<le> length b" "struct_end < 2 ^ 32" "strings + unat strings_size \<le> length b" "strings + unat strings_size < 2 ^ 32" "scan_ok X st"
  shows "\<exists>ok st'. fdt_walk b strings strings_size struct_end cursor st = Some (ok, st') \<and> scan_ok X st' \<and> (ok \<longrightarrow> memory_ranges st' \<noteq> [])"
  using assms(5)
proof (induction "struct_end - cursor" arbitrary: cursor st rule: less_induct)
  case less
  note ok = less.prems
  show ?case
  proof (cases "cursor + 4 \<le> struct_end")
    case False
    then show ?thesis using ok by (subst fdt_walk.simps) auto
  next
    case True
    obtain token where t: "read_be32 b cursor = Some token" using read_be32_in[of cursor b] True assms(1) by auto
    have later: "\<exists>ok st'. fdt_walk b strings strings_size struct_end c st1 = Some (ok, st') \<and> scan_ok X st' \<and> (ok \<longrightarrow> memory_ranges st' \<noteq> [])"
      if "cursor + 4 \<le> c" "scan_ok X st1" for c st1
      using that True by (intro less.hyps) auto
    have se: "struct_end \<le> length b" using assms(1) by simp
    consider (b) "token = FDT_BEGIN_NODE" | (e) "token = FDT_END_NODE" | (p) "token = FDT_PROP" | (n) "token = FDT_NOP"
      | (x) "token \<notin> {FDT_BEGIN_NODE, FDT_END_NODE, FDT_PROP, FDT_NOP}" by auto
    then show ?thesis
    proof cases
      case b
      obtain ok1 c st1 where N: "fdt_begin_node b struct_end (cursor + 4) st = Some (ok1, c, st1)" "scan_ok X st1" "cursor + 4 \<le> c"
        using begin_node_in[OF se assms(2) True ok] by blast
      show ?thesis using later[OF N(3,2)] N True t b by (subst fdt_walk.simps) (cases ok1; auto)
    next
      case p
      obtain ok1 c st1 where N: "fdt_prop b strings strings_size struct_end (cursor + 4) st = Some (ok1, c, st1)" "scan_ok X st1" "cursor + 4 \<le> c"
        using prop_in[OF assms(1-4) ok] by blast
      show ?thesis using later[OF N(3,2)] N True t p
        by (subst fdt_walk.simps) (cases ok1; auto simp: FDT_BEGIN_NODE_def FDT_END_NODE_def FDT_PROP_def)
    next
      case e
      have "scan_ok X (st\<lparr>depth := depth st - 1\<rparr>)" using ok by (auto simp: scan_ok_def)
      then show ?thesis using later[OF order_refl] ok True t e
        by (subst fdt_walk.simps) (auto simp: FDT_BEGIN_NODE_def FDT_END_NODE_def)
    next
      case n
      then show ?thesis using later[OF order_refl ok] True t
        by (subst fdt_walk.simps) (auto simp: FDT_BEGIN_NODE_def FDT_END_NODE_def FDT_PROP_def FDT_NOP_def)
    next
      case x
      then show ?thesis using ok True t by (subst fdt_walk.simps) auto
    qed
  qed
qed

subsection \<open>Two device trees\<close>

text \<open>A root with one memory node of 256 MiB at 1 GiB, followed by four bytes that do not belong to it.\<close>

definition demo_dtb :: blob where
  "demo_dtb = [
    208, 13, 254, 237, 0, 0, 0, 116, 0, 0, 0, 56, 0, 0, 0, 112, 0, 0, 0, 40, 0, 0, 0, 17, 0, 0, 0, 16, 0, 0,
    0, 0, 0, 0, 0, 4, 0, 0, 0, 56, 0, 0, 0, 0, 0, 0, 0, 0, 0, 0, 0, 0, 0, 0, 0, 0, 0, 0, 0, 1, 0, 0, 0, 0, 0,
    0, 0, 1, 109, 101, 109, 111, 114, 121, 0, 0, 0, 0, 0, 3, 0, 0, 0, 12, 0, 0, 0, 0, 0, 0, 0, 0, 64, 0, 0,
    0, 16, 0, 0, 0, 0, 0, 0, 2, 0, 0, 0, 2, 0, 0, 0, 9, 114, 101, 103, 0, 0, 0, 0, 0]"

text \<open>A root whose \<open>#size-cells\<close> is \<open>0xFFFFFFFF\<close> and a memory node whose \<open>reg\<close> has four bytes and ends the blob.\<close>

definition wrapping_dtb :: blob where
  "wrapping_dtb = [
    208, 13, 254, 237, 0, 0, 0, 124, 0, 0, 0, 72, 0, 0, 0, 56, 0, 0, 0, 40, 0, 0, 0, 17, 0, 0, 0, 16, 0, 0,
    0, 0, 0, 0, 0, 16, 0, 0, 0, 52, 0, 0, 0, 0, 0, 0, 0, 0, 0, 0, 0, 0, 0, 0, 0, 0, 114, 101, 103, 0, 35,
    115, 105, 122, 101, 45, 99, 101, 108, 108, 115, 0, 0, 0, 0, 1, 0, 0, 0, 0, 0, 0, 0, 3, 0, 0, 0, 4, 0, 0,
    0, 4, 255, 255, 255, 255, 0, 0, 0, 1, 109, 101, 109, 111, 114, 121, 0, 0, 0, 0, 0, 3, 0, 0, 0, 4, 0, 0,
    0, 0, 0, 0, 0, 0]"

definition no_layout :: fdt_memory_layout where
  "no_layout = \<lparr>memory = [], reserved = [], dtb_start = 0, dtb_size = 0\<rparr>"

text \<open>The sum of the two cell counts wraps, so the length check on \<open>reg\<close> passes for a tuple of one cell, and
  \<open>decode_cells\<close> then reads the two cells of the address: four bytes past the end of the blob.\<close>

lemma wrapping_dtb_overread:
  "read_be32 wrapping_dtb 4 = Some (of_nat (length wrapping_dtb)) \<and> fdt_read_memory_layout 0x48000000 wrapping_dtb no_layout = None"
  by code_simp

subsection \<open>Properties\<close>

lemma ranges_fit_nat: "ranges_fit off len limit \<Longrightarrow> unat off + unat len \<le> unat limit"
  by (auto simp: ranges_fit_def word_le_nat_alt unat_sub)

lemma header_in: "40 \<le> length b \<Longrightarrow> off \<le> 36 \<Longrightarrow> \<exists>v. read_be32 b off = Some v"
  by (rule read_be32_in) simp

text \<open>C38. Whatever the bytes of the device tree are, \<open>fdt_read_memory_layout\<close> comes back and reads nothing outside the header and the
  first \<open>totalsize + 4\<close> bytes. A layout it accepts has at least one and at most 8 memory ranges and at most 16 reserved
  ranges, every one of them not empty and without wrap-around, and the blob itself is one of the reserved
  ranges.\<close>

theorem fdt_layout_safe:
  assumes "40 \<le> length b" "read_be32 b 4 = Some totalsize" "unat totalsize + 4 \<le> length b"
  shows "\<exists>ok l. fdt_read_memory_layout dtb_ptr b layout = Some (ok, l) \<and>
    (ok \<longrightarrow> memory l \<noteq> [] \<and> ranges_ok FDT_MEMORY_MAX_RANGES (memory l) \<and> ranges_ok FDT_RESERVED_MAX_RANGES (reserved l) \<and>
       (dtb_ptr, ucast totalsize) \<in> set (reserved l))"
proof -
  obtain magic so ss to ts rm where H: "read_be32 b 0 = Some magic" "read_be32 b 8 = Some so" "read_be32 b 36 = Some ss" "read_be32 b 12 = Some to"
    "read_be32 b 32 = Some ts" "read_be32 b 16 = Some rm"
    using header_in[OF assms(1), of 0] header_in[OF assms(1), of 8] header_in[OF assms(1), of 36] header_in[OF assms(1), of 12]
      header_in[OF assms(1), of 32] header_in[OF assms(1), of 16] by auto
  show ?thesis
  proof (cases "dtb_ptr \<noteq> 0 \<and> magic = FDT_MAGIC \<and> \<not> totalsize < 40 \<and> ranges_fit so ss totalsize \<and> ranges_fit to ts totalsize")
    case False
    then show ?thesis using H assms(2) by (auto simp: fdt_read_memory_layout_def)
  next
    case True
    note fit = ranges_fit_nat[of so ss totalsize] ranges_fit_nat[of to ts totalsize]
    have "unat so \<le> length b" using fit True assms(3) by simp
    moreover have "ranges_ok FDT_RESERVED_MAX_RANGES []" by (simp add: ranges_ok_def)
    ultimately obtain ok1 rs1 where M: "read_reservation_map b so rm [] = Some (ok1, rs1)" "ranges_ok FDT_RESERVED_MAX_RANGES rs1"
      using read_reservation_map_in[of so b "[]" rm] by blast
    obtain ok2 rs2 where A: "append_range rs1 FDT_RESERVED_MAX_RANGES dtb_ptr (ucast totalsize) = (ok2, rs2)" by fastforce
    note P = append_range_ok[OF M(2) A]
    have "(ucast totalsize :: u64) \<noteq> 0" using True unat_ucast32[of totalsize] by (auto simp: word_less_nat_alt)
    then have own: "(dtb_ptr, ucast totalsize) \<in> set rs2" if ok2 using P(3) that by blast
    define st where "st = \<lparr>address_cells = 2, size_cells = 1, reserved_address_cells = 2, reserved_size_cells = 1,
      node_kinds = replicate FDT_MAX_DEPTH FDT_NODE_OTHER, depth = 0, have_root = False, memory_ranges = [], reserved_ranges = rs2\<rparr>"
    have "scan_ok (set rs2) st" using P(1) by (simp add: st_def scan_ok_def ranges_ok_def)
    moreover have "unat totalsize < 2 ^ 32" using unsigned_less[of totalsize, where 'a = nat] by simp
    ultimately obtain ok3 st' where W: "fdt_walk b (unat to) ts (unat so + unat ss) (unat so) st = Some (ok3, st')" "scan_ok (set rs2) st'"
      "ok3 \<longrightarrow> memory_ranges st' \<noteq> []"
      using walk_in[of "unat so + unat ss" b "unat to" ts "set rs2" st "unat so"] fit True assms(3) by auto
    show ?thesis using True H assms(2) M(1) A W own
      by (cases ok1; cases ok2) (auto simp: fdt_read_memory_layout_def Let_def st_def[symmetric] scan_ok_def)
  qed
qed

theorem fdt_layout_safe_witness:
  "40 \<le> length demo_dtb \<and> read_be32 demo_dtb 4 = Some 116 \<and>
   (\<exists>ok l. fdt_read_memory_layout 0x48000000 demo_dtb no_layout = Some (ok, l) \<and> (ok \<longrightarrow> ranges_ok FDT_MEMORY_MAX_RANGES (memory l)))"
proof -
  have h: "40 \<le> length demo_dtb" "read_be32 demo_dtb 4 = Some 116" "unat (116 :: u32) + 4 \<le> length demo_dtb" by code_simp+
  show ?thesis using h fdt_layout_safe[OF h, of "0x48000000" no_layout] by auto
qed

lemma demo_dtb_accepted:
  "map_option (\<lambda>(ok, l). (ok, memory l, reserved l)) (fdt_read_memory_layout 0x48000000 demo_dtb no_layout) =
     Some (True, [(0x40000000, 0x10000000)], [(0x48000000, 116)])"
  by code_simp

end
