(* ===== verification/Spec2Isabelle.thy ===== *)
theory Spec2Isabelle
  imports KHeap_Correct KString_Correct PhysMem_Correct UserVM_Correct UserCopy_Correct Shm_Correct ShmCalls FdtMemory_Correct
begin

text \<open>
  ArmOS kernel verification.
\<close>

end
